(* ===== verification/Prelude.thy ===== *)
theory Prelude
  imports Main "HOL-Library.Word"
begin

text \<open>
  Shared ground of the development: the machine integer types of the code, the byte-addressed
  memory it runs on, little-endian 64-bit accesses to it, page and slot addresses, C strings,
  and the lemma collections that carry the component proofs.

  \<^item> \<open>u8\<close>, \<open>u16\<close>, \<open>u32\<close>, \<open>u64\<close> are \<open>uint8_t\<close> to \<open>uint64_t\<close>; \<open>uintptr_t\<close> and \<open>size_t\<close> are
    \<open>u64\<close> on the x86-64 target of the Makefiles. A C \<open>int\<close> is a \<open>32 word\<close> where its overflow
    matters and an \<open>int\<close> where the code keeps it small.
  \<^item> \<open>mem\<close> is the contents of memory by virtual address. \<open>load64\<close> and \<open>store64\<close> are the
    eight-byte accesses of the target, least significant byte first.
  \<^item> \<open>fault\<close> is every way a modelled kernel routine can fail to return: the CPU raises a page
    fault or a general protection fault (whose handlers in \<open>kernel/idt.c\<close> halt), the code calls \<open>halt()\<close>, waits
    for a key that never comes, or reaches behaviour that C leaves undefined.
\<close>

unbundle bit_operations_syntax

subsection \<open>Machine integers and outcomes\<close>

type_synonym u8 = "8 word"
type_synonym u16 = "16 word"
type_synonym u32 = "32 word"
type_synonym u64 = "64 word"
type_synonym mem = "u64 \<Rightarrow> u8"

datatype fault = PageFault u64 | GeneralProtection u64 | Halted | Blocked | Undefined

text \<open>Running one fallible step after another.\<close>

definition bindf :: "'e + 'a \<Rightarrow> ('a \<Rightarrow> 'e + 'b) \<Rightarrow> 'e + 'b" where
  "bindf r f = (case r of Inl e \<Rightarrow> Inl e | Inr x \<Rightarrow> f x)"

lemma bindf_simps [simp]: "bindf (Inl e) f = Inl e" "bindf (Inr x) f = f x"
  by (simp_all add: bindf_def)

lemma bindf_Inr: "bindf r f = Inr y \<longleftrightarrow> (\<exists>x. r = Inr x \<and> f x = Inr y)"
  by (auto simp: bindf_def split: sum.splits)

lemma bindf_cong [fundef_cong]:
  "r = r' \<Longrightarrow> (\<And>x. r' = Inr x \<Longrightarrow> f x = g x) \<Longrightarrow> bindf r f = bindf r' g"
  by (cases r') (simp_all add: bindf_def)

text \<open>Characters of C string literals as bytes.\<close>

abbreviation chr :: "char \<Rightarrow> u8" where
  "chr c \<equiv> of_char c"

abbreviation str :: "string \<Rightarrow> u8 list" where
  "str s \<equiv> map of_char s"

text \<open>
  Collections: \<open>mem_simps\<close> rewrites a read after a write, \<open>align_simps\<close> decides when two
  addresses are the same cell, \<open>bits\<close> reads a word bit by bit.
\<close>

named_theorems mem_simps "reads after writes"
named_theorems align_simps "addresses of cells and pages"
named_theorems bits "words bit by bit"

lemmas [bits] = bit_simps

subsection \<open>Little-endian 64-bit accesses\<close>

definition load64 :: "mem \<Rightarrow> u64 \<Rightarrow> u64" where
  "load64 m a =
     ucast (m a) OR push_bit 8 (ucast (m (a + 1))) OR push_bit 16 (ucast (m (a + 2)))
     OR push_bit 24 (ucast (m (a + 3))) OR push_bit 32 (ucast (m (a + 4)))
     OR push_bit 40 (ucast (m (a + 5))) OR push_bit 48 (ucast (m (a + 6)))
     OR push_bit 56 (ucast (m (a + 7)))"

definition store64 :: "mem \<Rightarrow> u64 \<Rightarrow> u64 \<Rightarrow> mem" where
  "store64 m a v = m(a := ucast v, a + 1 := ucast (drop_bit 8 v), a + 2 := ucast (drop_bit 16 v),
     a + 3 := ucast (drop_bit 24 v), a + 4 := ucast (drop_bit 32 v),
     a + 5 := ucast (drop_bit 40 v), a + 6 := ucast (drop_bit 48 v),
     a + 7 := ucast (drop_bit 56 v))"

lemma lt8_cases:
  assumes "(i :: u64) < 8"
  obtains "i = 0" | "i = 1" | "i = 2" | "i = 3" | "i = 4" | "i = 5" | "i = 6" | "i = 7"
proof -
  have "i = 0 \<or> i = 1 \<or> i = 2 \<or> i = 3 \<or> i = 4 \<or> i = 5 \<or> i = 6 \<or> i = 7"
    using assms by unat_arith
  with that show thesis by blast
qed

lemma load64_cong:
  assumes "\<And>i. i < 8 \<Longrightarrow> m (a + i) = m' (b + i)"
  shows "load64 m a = load64 m' b"
  using assms [of 0] assms [of 1] assms [of 2] assms [of 3] assms [of 4] assms [of 5]
    assms [of 6] assms [of 7]
  by (simp add: load64_def)

lemma bit_byte_piece:
  "bit (push_bit k (ucast (ucast (drop_bit k (v :: u64)) :: u8)) :: u64) n \<longleftrightarrow>
     n < 64 \<and> k \<le> n \<and> n < k + 8 \<and> bit v n"
  by (cases "k \<le> n") (auto simp: bits)

lemma bit_byte_piece0:
  "bit (ucast (ucast (v :: u64) :: u8) :: u64) n \<longleftrightarrow> n < 8 \<and> bit v n"
  by (auto simp: bits)

lemma bit_u8_less: "bit (w :: u8) n \<Longrightarrow> n < 8"
  using bit_imp_le_length [of w n] by simp

lemma bit_load64: "bit (load64 m a) n \<longleftrightarrow>
  (if n < 8 then bit (m a) n else if n < 16 then bit (m (a + 1)) (n - 8) else if n < 24 then bit (m (a + 2)) (n - 16)
   else if n < 32 then bit (m (a + 3)) (n - 24) else if n < 40 then bit (m (a + 4)) (n - 32)
   else if n < 48 then bit (m (a + 5)) (n - 40) else if n < 56 then bit (m (a + 6)) (n - 48)
   else n < 64 \<and> bit (m (a + 7)) (n - 56))"
  unfolding load64_def by (auto simp: bits dest: bit_imp_le_length)

lemma load64_store64_same [simp, mem_simps]: "load64 (store64 m a v) a = v"
proof (rule bit_word_eqI)
  fix n assume "n < LENGTH(64)"
  then have n: "n < 64" by simp
  have "bit (load64 (store64 m a v) a) n \<longleftrightarrow>
      (n < 8 \<or> 8 \<le> n \<and> n < 16 \<or> 16 \<le> n \<and> n < 24 \<or> 24 \<le> n \<and> n < 32 \<or> 32 \<le> n \<and> n < 40
        \<or> 40 \<le> n \<and> n < 48 \<or> 48 \<le> n \<and> n < 56 \<or> 56 \<le> n) \<and> bit v n"
    using n by (simp only: load64_def store64_def bit_or_iff) (simp add: bit_byte_piece bit_byte_piece0, blast)
  also have "\<dots> \<longleftrightarrow> bit v n" by linarith
  finally show "bit (load64 (store64 m a v) a) n = bit v n" .
qed

lemma store64_other:
  assumes "\<And>i. i < 8 \<Longrightarrow> x \<noteq> a + i"
  shows "store64 m a v x = m x"
  using assms [of 0] assms [of 1] assms [of 2] assms [of 3] assms [of 4] assms [of 5]
    assms [of 6] assms [of 7]
  by (simp add: store64_def)

lemma sum_eq_diff_eq: "a + k = b + p \<Longrightarrow> b - a = k - (p :: 'a :: ab_group_add)"
  by (metis add_diff_cancel_left' add_diff_cancel_right' diff_add_eq)

subsection \<open>Pages and the eight-byte slots inside them\<close>

definition page_aligned :: "u64 \<Rightarrow> bool" where
  "page_aligned a \<longleftrightarrow> take_bit 12 a = 0"

text \<open>Slot \<open>i\<close> of the page at \<open>t\<close>: where \<open>((pte_t* )t)[i]\<close> lives, \<open>pte_t\<close> being 8 bytes.\<close>

definition slot :: "u64 \<Rightarrow> u64 \<Rightarrow> u64" where
  "slot t i = t + i * 8"

lemma take_bit_12_less: "x < 4096 \<Longrightarrow> take_bit 12 (x :: u64) = x"
  by (simp add: word_unat_eq_iff unsigned_take_bit_eq word_less_nat_alt take_bit_nat_eq_self)

lemma aligned_add:
  assumes "page_aligned t" and "x < 4096"
  shows "drop_bit 12 (t + x) = drop_bit 12 t" and "take_bit 12 (t + x) = x"
proof -
  have x: "take_bit 12 x = x" using assms(2) by (rule take_bit_12_less)
  have t: "\<And>n. n < 12 \<Longrightarrow> \<not> bit t n"
    using assms(1) unfolding page_aligned_def by (metis bit_0_eq bit_take_bit_iff bot_apply bot_bool_def)
  have xb: "\<And>n. 12 \<le> n \<Longrightarrow> \<not> bit x n"
    using x by (metis bit_take_bit_iff leD)
  have "t AND x = 0"
    by (rule bit_eqI) (use t xb not_le in \<open>auto simp: bit_and_iff\<close>)
  then have sum: "t + x = t OR x" by (simp add: disjunctive_add_eq_or)
  show "drop_bit 12 (t + x) = drop_bit 12 t"
    unfolding sum by (rule bit_eqI) (use xb in \<open>auto simp: bits\<close>)
  show "take_bit 12 (t + x) = x"
    unfolding sum by (rule bit_eqI) (use t xb in \<open>auto simp: bit_or_iff bit_take_bit_iff\<close>)
qed

lemma aligned_add_eq:
  assumes "page_aligned t" "x < 4096" "page_aligned t'" "x' < 4096"
  shows "t + x = t' + x' \<longleftrightarrow> t = t' \<and> x = x'"
proof
  assume eq: "t + x = t' + x'"
  have "take_bit 12 (t + x) = x" "take_bit 12 (t' + x') = x'"
    using assms by (simp_all add: aligned_add)
  with eq have "x = x'" by simp
  with eq show "t = t' \<and> x = x'" by simp
qed simp

lemma slot_offset_less:
  assumes "i < 512" "j < 8" shows "i * 8 + j < (4096 :: u64)"
  using assms by (simp add: word_less_nat_alt unat_word_ariths)

lemma slot_offset_eq:
  assumes "i < 512" "j < 8" "i' < 512" "j' < 8"
  shows "i * 8 + j = i' * 8 + (j' :: u64) \<longleftrightarrow> i = i' \<and> j = j'"
proof
  assume "i * 8 + j = i' * 8 + j'"
  then have "unat (i * 8 + j) = unat (i' * 8 + j')" by simp
  then have "unat i * 8 + unat j = unat i' * 8 + unat j'"
    using assms by (simp add: unat_word_ariths word_less_nat_alt)
  then have "unat i = unat i' \<and> unat j = unat j'"
    using assms by (simp add: word_less_nat_alt) presburger
  then show "i = i' \<and> j = j'" by (simp add: word_unat_eq_iff)
qed simp

lemma slot_eq [align_simps]:
  assumes "page_aligned t" "i < 512" "page_aligned t'" "i' < 512"
  shows "slot t i = slot t' i' \<longleftrightarrow> t = t' \<and> i = i'"
  using aligned_add_eq [OF assms(1) slot_offset_less [OF assms(2), of 0] assms(3)
      slot_offset_less [OF assms(4), of 0]] slot_offset_eq [OF assms(2) _ assms(4), of 0 0]
  by (simp add: slot_def)

lemma slot_byte_eq:
  assumes "page_aligned t" "i < 512" "j < 8" "page_aligned t'" "i' < 512" "j' < 8"
  shows "slot t i + j = slot t' i' + j' \<longleftrightarrow> t = t' \<and> i = i' \<and> j = j'"
  using aligned_add_eq [OF assms(1) slot_offset_less [OF assms(2,3)] assms(4)
      slot_offset_less [OF assms(5,6)]] slot_offset_eq [OF assms(2,3,5,6)]
  by (simp add: slot_def add.assoc)

lemma load64_store64_slot [mem_simps]:
  assumes "page_aligned t" "i < 512" "page_aligned t'" "i' < 512"
  shows "load64 (store64 m (slot t i) v) (slot t' i') =
    (if t = t' \<and> i = i' then v else load64 m (slot t' i'))"
proof (cases "t = t' \<and> i = i'")
  case False
  have "load64 (store64 m (slot t i) v) (slot t' i') = load64 m (slot t' i')"
    by (intro load64_cong store64_other)
      (use False assms slot_byte_eq [OF assms(3,4) _ assms(1,2)] in auto)
  with False show ?thesis by auto
qed simp

lemma slot_in_page:
  assumes "page_aligned t" "i < 512" "j < 8" "page_aligned p"
  shows "slot t i + j - p < 4096 \<longleftrightarrow> t = p"
proof
  assume "slot t i + j - p < 4096"
  moreover have "t + (i * 8 + j) = p + (slot t i + j - p)" by (simp add: slot_def)
  ultimately show "t = p"
    using aligned_add_eq [OF assms(1) slot_offset_less [OF assms(2,3)] assms(4)] by blast
next
  assume "t = p"
  then show "slot t i + j - p < 4096"
    using slot_offset_less [OF assms(2,3)] by (simp add: slot_def)
qed

lemma page_aligned_iff: "page_aligned a \<longleftrightarrow> (\<exists>k. a = push_bit 12 k)"
proof
  assume "page_aligned a"
  then have "a = push_bit 12 (drop_bit 12 a)"
    by (metis page_aligned_def add_0 bits_ident add.commute)
  then show "\<exists>k. a = push_bit 12 k" by blast
next
  assume "\<exists>k. a = push_bit 12 k"
  then obtain k where "a = push_bit 12 k" by blast
  then show "page_aligned a"
    unfolding page_aligned_def by (auto intro!: bit_word_eqI simp: bits)
qed

lemma page_aligned_0 [simp, align_simps]: "page_aligned 0"
  by (simp add: page_aligned_def)

lemma page_aligned_add [simp, align_simps]:
  "page_aligned a \<Longrightarrow> page_aligned b \<Longrightarrow> page_aligned (a + b)"
  unfolding page_aligned_iff by (metis push_bit_add)

lemma page_aligned_diff [simp, align_simps]:
  "page_aligned a \<Longrightarrow> page_aligned b \<Longrightarrow> page_aligned (a - b)"
  unfolding page_aligned_iff by (metis push_bit_eq_mult left_diff_distrib)

lemma page_aligned_no_wrap:
  assumes "page_aligned a" "k < 4096" shows "a \<le> a + k"
proof -
  obtain c where c: "a = push_bit 12 c" using assms(1) by (auto simp: page_aligned_iff)
  have "unat a = unat c * 4096 mod 2 ^ 64"
    by (simp add: c push_bit_eq_mult unat_word_ariths)
  then have "4096 dvd unat a" by (simp add: dvd_mod)
  then obtain q where q: "unat a = 4096 * q" by blast
  have "unat a < 2 ^ 64" using unsigned_less [of a] by simp
  with q have "q < 2 ^ 52" by simp
  then have "Suc q \<le> 2 ^ 52" by (rule Suc_leI)
  then have "unat a + 4096 \<le> 2 ^ 64" using q by simp
  with assms(2) show ?thesis by (simp add: word_le_nat_alt word_less_nat_alt unat_word_ariths)
qed

end
