(* ===== verification/Libmem.thy ===== *)
theory Libmem
  imports Prelude
begin

text \<open>
  \<open>stdlib/mem.c\<close>, the two loops every other component runs: \<open>memset\<close>, which takes no fill
  value and zeroes, and \<open>memcpy\<close>, which copies upwards one byte at a time. Each loop is the
  recursive function on its \<open>progress\<close> counter; the lemmas give the memory it leaves as a
  whole, for \<open>memcpy\<close> also where source and destination overlap downwards.
\<close>

subsection \<open>memset\<close>

function memset_loop :: "u64 \<Rightarrow> u64 \<Rightarrow> u64 \<Rightarrow> mem \<Rightarrow> mem" where
  "memset_loop start sz progress m =
     (if progress < sz
      then memset_loop start sz (progress + 1) (m(start + progress := 0))
      else m)"
  by pat_completeness auto
termination
  by (relation "measure (\<lambda>(start, sz, progress, m). unat (sz - progress))")
    (simp_all, unat_arith)

declare memset_loop.simps [simp del]

definition memset :: "u64 \<Rightarrow> u64 \<Rightarrow> mem \<Rightarrow> mem" where
  "memset start sz m = memset_loop start sz 0 m"

lemma memset_loop_apply:
  "memset_loop start sz progress m x =
     (if progress \<le> x - start \<and> x - start < sz then 0 else m x)"
proof (induction start sz progress m rule: memset_loop.induct)
  case (1 start sz progress m)
  show ?case
  proof (cases "progress < sz")
    case True
    let ?m = "m(start + progress := 0)"
    have "memset_loop start sz progress m x = memset_loop start sz (progress + 1) ?m x"
      using True by (subst memset_loop.simps) simp
    also have "\<dots> = (if progress + 1 \<le> x - start \<and> x - start < sz then 0 else ?m x)"
      using "1.IH" [OF True] .
    also have "progress + 1 \<le> x - start \<longleftrightarrow> progress < x - start"
      using True by unat_arith
    also have "?m x = (if x - start = progress then 0 else m x)" by auto
    finally show ?thesis using True by (auto simp: le_less)
  next
    case False
    then show ?thesis by (auto simp: memset_loop.simps [of start sz progress m])
  qed
qed

lemma memset_apply: "memset start sz m x = (if x - start < sz then 0 else m x)"
  by (simp add: memset_def memset_loop_apply)

text \<open>A zeroed page reads as zero slots, and no slot of another page changes.\<close>

lemma load64_zero: "(\<And>i. i < 8 \<Longrightarrow> m (a + i) = 0) \<Longrightarrow> load64 m a = 0"
  using load64_cong [of m a "\<lambda>_. 0" 0] by (simp add: load64_def)

lemma load64_memset_slot [mem_simps]:
  assumes "page_aligned p" "page_aligned t" "i < 512"
  shows "load64 (memset p 4096 m) (slot t i) = (if t = p then 0 else load64 m (slot t i))"
proof (cases "t = p")
  case True
  with assms show ?thesis
    by (auto intro!: load64_zero simp: memset_apply slot_in_page)
next
  case False
  with assms have "load64 (memset p 4096 m) (slot t i) = load64 m (slot t i)"
    by (intro load64_cong) (simp add: memset_apply slot_in_page)
  with False show ?thesis by simp
qed

subsection \<open>memcpy\<close>

function memcpy_loop :: "u64 \<Rightarrow> u64 \<Rightarrow> u64 \<Rightarrow> u64 \<Rightarrow> mem \<Rightarrow> mem" where
  "memcpy_loop dest src sz progress m =
     (if progress < sz
      then memcpy_loop dest src sz (progress + 1) (m(dest + progress := m (src + progress)))
      else m)"
  by pat_completeness auto
termination
  by (relation "measure (\<lambda>(dest, src, sz, progress, m). unat (sz - progress))")
    (simp_all, unat_arith)

declare memcpy_loop.simps [simp del]

definition memcpy :: "u64 \<Rightarrow> u64 \<Rightarrow> u64 \<Rightarrow> mem \<Rightarrow> mem" where
  "memcpy dest src sz m = memcpy_loop dest src sz 0 m"

text \<open>
  The destination must not start strictly inside the source: then a byte would be read after
  it was overwritten.
\<close>

definition copies_cleanly :: "u64 \<Rightarrow> u64 \<Rightarrow> u64 \<Rightarrow> bool" where
  "copies_cleanly dest src sz \<longleftrightarrow> dest = src \<or> sz \<le> dest - src"

lemma memcpy_loop_apply:
  assumes "copies_cleanly dest src sz"
  shows "memcpy_loop dest src sz progress m x =
     (if progress \<le> x - dest \<and> x - dest < sz then m (src + (x - dest)) else m x)"
  using assms
proof (induction dest src sz progress m rule: memcpy_loop.induct)
  case (1 dest src sz progress m)
  show ?case
  proof (cases "progress < sz")
    case True
    let ?m = "m(dest + progress := m (src + progress))"
    let ?k = "x - dest"
    have "memcpy_loop dest src sz progress m x = memcpy_loop dest src sz (progress + 1) ?m x"
      using True by (subst memcpy_loop.simps) simp
    also have "\<dots> = (if progress + 1 \<le> ?k \<and> ?k < sz then ?m (src + ?k) else ?m x)"
      using "1.IH" [OF True "1.prems"] .
    finally have eq: "memcpy_loop dest src sz progress m x =
        (if progress + 1 \<le> ?k \<and> ?k < sz then ?m (src + ?k) else ?m x)" .
    have step: "progress + 1 \<le> ?k \<longleftrightarrow> progress < ?k" using True by unat_arith
    show ?thesis
    proof (cases "progress < ?k \<and> ?k < sz")
      case inside: True
      have "src + ?k \<noteq> dest + progress \<or> dest = src"
      proof (rule ccontr)
        assume neg: "\<not> ?thesis"
        then have "src + ?k = dest + progress" by simp
        then have gap: "dest - src = ?k - progress" by (rule sum_eq_diff_eq)
        have "?k - progress < sz" using inside by unat_arith
        then have "dest - src < sz" unfolding gap .
        moreover have "dest \<noteq> src" using neg by blast
        then have "sz \<le> dest - src" using "1.prems" by (simp only: copies_cleanly_def simp_thms)
        ultimately show False by (blast dest: leD)
      qed
      moreover have "?k \<noteq> progress" using inside by auto
      ultimately have "?m (src + ?k) = m (src + ?k)" by auto
      then show ?thesis using inside eq step by auto
    next
      case outside: False
      have "x = dest + progress \<longleftrightarrow> ?k = progress" by auto
      then show ?thesis using outside eq step True by (auto simp: le_less)
    qed
  next
    case False
    then show ?thesis by (auto simp: memcpy_loop.simps [of dest src sz progress m])
  qed
qed

lemma memcpy_apply:
  "copies_cleanly dest src sz \<Longrightarrow>
     memcpy dest src sz m x = (if x - dest < sz then m (src + (x - dest)) else m x)"
  by (simp add: memcpy_def memcpy_loop_apply)

end
