(* ===== verification/Pte.thy ===== *)
theory Pte
  imports Libmem
begin

text \<open>
  \<open>struct pte\<close> of \<open>kernel/paging.c\<close>: the packed bit-field layout of a page table entry, as a
  record, with its encoding to and decoding from the 64-bit value in memory (bit-fields are
  allocated from the least significant bit on the x86-64 target). The round trips make the
  record view exact, so the page-table proofs never look at bits again.
\<close>

record pte_t =
  pte_present :: bool
  pte_writable :: bool
  pte_user :: bool
  pte_write_through :: bool
  pte_cache_disable :: bool
  pte_accessed :: bool
  pte_dirty :: bool
  pte_page_size :: bool
  pte_unused :: "4 word"
  pte_address :: "51 word"
  pte_no_execute :: bool

definition pte_decode :: "u64 \<Rightarrow> pte_t" where
  "pte_decode w =
     \<lparr>pte_present = bit w 0, pte_writable = bit w 1, pte_user = bit w 2,
      pte_write_through = bit w 3, pte_cache_disable = bit w 4, pte_accessed = bit w 5,
      pte_dirty = bit w 6, pte_page_size = bit w 7, pte_unused = ucast (drop_bit 8 w),
      pte_address = ucast (drop_bit 12 w), pte_no_execute = bit w 63\<rparr>"

definition pte_encode :: "pte_t \<Rightarrow> u64" where
  "pte_encode e =
     of_bool (pte_present e) OR push_bit 1 (of_bool (pte_writable e))
     OR push_bit 2 (of_bool (pte_user e)) OR push_bit 3 (of_bool (pte_write_through e))
     OR push_bit 4 (of_bool (pte_cache_disable e)) OR push_bit 5 (of_bool (pte_accessed e))
     OR push_bit 6 (of_bool (pte_dirty e)) OR push_bit 7 (of_bool (pte_page_size e))
     OR push_bit 8 (ucast (pte_unused e)) OR push_bit 12 (ucast (pte_address e))
     OR push_bit 63 (of_bool (pte_no_execute e))"

lemma bit_pte_encode:
  "bit (pte_encode e) n \<longleftrightarrow>
     n = 0 \<and> pte_present e \<or> n = 1 \<and> pte_writable e \<or> n = 2 \<and> pte_user e
     \<or> n = 3 \<and> pte_write_through e \<or> n = 4 \<and> pte_cache_disable e
     \<or> n = 5 \<and> pte_accessed e \<or> n = 6 \<and> pte_dirty e \<or> n = 7 \<and> pte_page_size e
     \<or> 8 \<le> n \<and> n < 12 \<and> bit (pte_unused e) (n - 8)
     \<or> 12 \<le> n \<and> n < 63 \<and> bit (pte_address e) (n - 12)
     \<or> n = 63 \<and> pte_no_execute e"
proof -
  have b: "bit (push_bit k (of_bool p) :: u64) n \<longleftrightarrow> n = k \<and> p" if "k < 64" for k p
    using that by (auto simp: bits)
  have k: "(1::nat) < 64" "(2::nat) < 64" "(3::nat) < 64" "(4::nat) < 64" "(5::nat) < 64"
    "(6::nat) < 64" "(7::nat) < 64" "(63::nat) < 64" by simp_all
  have b0: "bit (of_bool p :: u64) n \<longleftrightarrow> n = 0 \<and> p" for p
    by (auto simp: bits)
  have u: "bit (push_bit 8 (ucast (x :: 4 word)) :: u64) n \<longleftrightarrow> 8 \<le> n \<and> n < 12 \<and> bit x (n - 8)" for x
    using bit_imp_le_length [of x "n - 8"] by (auto simp: bits)
  have a: "bit (push_bit 12 (ucast (x :: 51 word)) :: u64) n \<longleftrightarrow> 12 \<le> n \<and> n < 63 \<and> bit x (n - 12)" for x
    using bit_imp_le_length [of x "n - 12"] by (auto simp: bits)
  show ?thesis
    by (simp only: pte_encode_def bit_or_iff k [THEN b] b0 u a disj_assoc)
qed

lemma pte_decode_encode [simp, mem_simps]: "pte_decode (pte_encode e) = e"
proof -
  have "ucast (drop_bit 8 (pte_encode e)) = pte_unused e"
    by (rule bit_word_eqI) (auto simp: bits bit_pte_encode)
  moreover have "ucast (drop_bit 12 (pte_encode e)) = pte_address e"
    by (rule bit_word_eqI) (auto simp: bits bit_pte_encode)
  ultimately show ?thesis
    by (cases e) (simp add: pte_decode_def bit_pte_encode)
qed

lemma pte_encode_decode: "pte_encode (pte_decode w) = w"
proof (rule bit_word_eqI)
  fix n assume "n < LENGTH(64)"
  then have "n < 64" by simp
  then have n: "n = 0 \<or> n = 1 \<or> n = 2 \<or> n = 3 \<or> n = 4 \<or> n = 5 \<or> n = 6 \<or> n = 7
      \<or> 8 \<le> n \<and> n < 12 \<or> 12 \<le> n \<and> n < 63 \<or> n = 63"
    by linarith
  then show "bit (pte_encode (pte_decode w)) n = bit w n"
    by (elim disjE) (auto simp: bit_pte_encode pte_decode_def bits)
qed

text \<open>
  \<open>e->address << 12\<close>: the frame an entry points to, always page aligned. The assignment
  \<open>e->address = x >> 12\<close> stores the low 51 bits of the shifted value, which keeps every
  page-aligned address below \<open>2 ^ 63\<close>.
\<close>

definition pte_frame :: "pte_t \<Rightarrow> u64" where
  "pte_frame e = push_bit 12 (ucast (pte_address e))"

definition frame_number :: "u64 \<Rightarrow> 51 word" where
  "frame_number p = ucast (drop_bit 12 p)"

lemma page_aligned_pte_frame [simp, align_simps]: "page_aligned (pte_frame e)"
  unfolding page_aligned_def pte_frame_def by (rule bit_word_eqI) (auto simp: bits)

lemma pte_frame_number:
  assumes "page_aligned p" "p < 2 ^ 63"
  shows "push_bit 12 (ucast (frame_number p) :: u64) = p"
proof (rule bit_word_eqI)
  fix n assume n: "n < LENGTH(64)"
  have low: "\<not> bit p n" if "n < 12"
    using assms(1) that unfolding page_aligned_def by (metis bit_0_eq bit_take_bit_iff bot_apply bot_bool_def)
  have "p = take_bit 63 p"
    using assms(2) by (simp add: word_unat_eq_iff unsigned_take_bit_eq word_less_nat_alt take_bit_nat_eq_self)
  then have high: "\<not> bit p n" if "63 \<le> n"
    using that by (metis bit_take_bit_iff leD)
  show "bit (push_bit 12 (ucast (frame_number p) :: u64)) n = bit p n"
    using n low high by (cases "n < 12"; cases "63 \<le> n") (auto simp: frame_number_def bits not_less)
qed

text \<open>The entry at an address of memory, and the entry stored there.\<close>

definition get_pte :: "mem \<Rightarrow> u64 \<Rightarrow> pte_t" where
  "get_pte m a = pte_decode (load64 m a)"

definition set_pte :: "mem \<Rightarrow> u64 \<Rightarrow> pte_t \<Rightarrow> mem" where
  "set_pte m a e = store64 m a (pte_encode e)"

lemma get_set_pte_same [simp, mem_simps]: "get_pte (set_pte m a e) a = e"
  by (simp add: get_pte_def set_pte_def)

lemma get_set_pte [mem_simps]:
  assumes "page_aligned t" "i < 512" "page_aligned t'" "i' < 512"
  shows "get_pte (set_pte m (slot t i) e) (slot t' i') =
    (if t = t' \<and> i = i' then e else get_pte m (slot t' i'))"
  using assms by (simp add: get_pte_def set_pte_def load64_store64_slot)

lemma load64_set_pte [mem_simps]:
  assumes "page_aligned t" "i < 512" "page_aligned t'" "i' < 512" "t \<noteq> t'"
  shows "load64 (set_pte m (slot t i) e) (slot t' i') = load64 m (slot t' i')"
  using assms by (simp add: set_pte_def load64_store64_slot)

lemma get_pte_store64 [mem_simps]:
  assumes "page_aligned t" "i < 512" "page_aligned t'" "i' < 512" "t \<noteq> t'"
  shows "get_pte (store64 m (slot t i) v) (slot t' i') = get_pte m (slot t' i')"
  using assms by (simp add: get_pte_def load64_store64_slot)

lemma get_pte_memset [mem_simps]:
  assumes "page_aligned p" "page_aligned t" "i < 512"
  shows "get_pte (memset p 4096 m) (slot t i) =
    (if t = p then pte_decode 0 else get_pte m (slot t i))"
  using assms by (simp add: get_pte_def load64_memset_slot)

end
