(* ===== verification/Kmem.thy ===== *)
theory Kmem
  imports Pte
begin

text \<open>
  The machine state the memory-management code of \<open>kernel/paging.c\<close> and its callers share, and
  the kernel's view of memory.

  \<open>mem\<close> is indexed by higher-half virtual address. Physical memory is seen through the
  higher-half direct map the bootloader sets up and never changes: physical address \<open>p\<close> is at
  \<open>hhdm s + p\<close>. An access below \<open>2 ^ 47\<close> goes through the page tables under \<open>cr3\<close>, by the
  four-level walk of the x86-64 architecture (\<open>mmu_walk\<close>), which is hardware and has no source
  here; it reads the tables in the layout of \<open>struct pte\<close>. A supervisor write to a page that is
  not writable faults when \<open>CR0.WP\<close> is set. The globals of \<open>paging.c\<close> and \<open>idt.c\<close> that hold a
  single word (\<open>hhdm\<close>, \<open>free_list\<close>, \<open>v_heap\<close>) are fields of the state, not bytes of \<open>mem\<close>.
\<close>

datatype tlb_op = Invlpg u64 | LoadCr3 u64

record kstate =
  mem :: mem
  hhdm :: u64
  free_list :: u64
  cr3 :: u64
  cr0_wp :: bool
  v_heap :: u64
  tlb_ops :: "tlb_op list"

subsection \<open>Small accessors of \<open>paging.c\<close>\<close>

definition get_hhdm :: "kstate \<Rightarrow> u64" where
  "get_hhdm s = hhdm s"

definition init_hhdm :: "u64 \<Rightarrow> kstate \<Rightarrow> kstate" where
  "init_hhdm p s = s\<lparr>hhdm := p\<rparr>"

definition ptov :: "kstate \<Rightarrow> u64 \<Rightarrow> u64" where
  "ptov s v = v + hhdm s"

definition invalidate_tlb :: "u64 \<Rightarrow> kstate \<Rightarrow> kstate" where
  "invalidate_tlb a s = s\<lparr>tlb_ops := tlb_ops s @ [Invlpg a]\<rparr>"

definition read_cr3 :: "kstate \<Rightarrow> u64" where
  "read_cr3 s = cr3 s"

definition write_cr3 :: "u64 \<Rightarrow> kstate \<Rightarrow> kstate" where
  "write_cr3 v s = s\<lparr>cr3 := v, tlb_ops := tlb_ops s @ [LoadCr3 v]\<rparr>"

text \<open>\<open>reset_v_heap\<close> of \<open>kernel/idt.c\<close>.\<close>

definition reset_v_heap :: "kstate \<Rightarrow> kstate" where
  "reset_v_heap s = s\<lparr>v_heap := 0x10000\<rparr>"

subsection \<open>The hardware page walk\<close>

text \<open>Nine bits of the virtual address per level, level 0 selecting the page.\<close>

definition table_index :: "nat \<Rightarrow> u64 \<Rightarrow> u64" where
  "table_index i va = drop_bit (12 + 9 * i) va AND 0x1ff"

record rights =
  may_user :: bool
  may_write :: bool
  may_exec :: bool

definition all_rights :: rights where
  "all_rights = \<lparr>may_user = True, may_write = True, may_exec = True\<rparr>"

definition restrict_rights :: "pte_t \<Rightarrow> rights \<Rightarrow> rights" where
  "restrict_rights e r =
     \<lparr>may_user = (may_user r \<and> pte_user e), may_write = (may_write r \<and> pte_writable e),
      may_exec = (may_exec r \<and> \<not> pte_no_execute e)\<rparr>"

fun mmu_walk :: "nat \<Rightarrow> mem \<Rightarrow> u64 \<Rightarrow> u64 \<Rightarrow> u64 \<Rightarrow> rights \<Rightarrow> (u64 \<times> rights) option" where
  "mmu_walk 0 m h t va r = Some (t + take_bit 12 va, r)"
| "mmu_walk (Suc i) m h t va r =
     (let e = get_pte m (slot (t + h) (table_index i va)); r' = restrict_rights e r in
      if \<not> pte_present e then None
      else if pte_page_size e \<and> (i = 1 \<or> i = 2)
      then Some (push_bit (12 + 9 * i) (drop_bit (12 + 9 * i) (pte_frame e))
                 + take_bit (12 + 9 * i) va, r')
      else mmu_walk i m h (pte_frame e) va r')"

definition walk :: "kstate \<Rightarrow> u64 \<Rightarrow> u64 \<Rightarrow> (u64 \<times> rights) option" where
  "walk s root va = mmu_walk 4 (mem s) (hhdm s) root va all_rights"

definition cr3_root :: "kstate \<Rightarrow> u64" where
  "cr3_root s = cr3 s AND 0xFFFFFFFFFFFFF000"

subsection \<open>Kernel accesses by virtual address\<close>

text \<open>
  Where in \<open>mem\<close> a supervisor access at virtual address \<open>v\<close> lands, or the fault it raises. The pages of the
  higher half are the bootloader's and are taken as mapped and writable: an access to one that is not has no
  fault here, so what is said of a kernel pointer that a program chose asks for its page to be mapped.
\<close>

definition kresolve :: "bool \<Rightarrow> kstate \<Rightarrow> u64 \<Rightarrow> fault + u64" where
  "kresolve wr s v =
     (if 0xffff800000000000 \<le> v then Inr v
      else if v < 0x800000000000
      then (case walk s (cr3_root s) v of
              None \<Rightarrow> Inl (PageFault v)
            | Some (p, r) \<Rightarrow>
                if wr \<and> cr0_wp s \<and> \<not> may_write r then Inl (PageFault v) else Inr (p + hhdm s))
      else Inl (GeneralProtection v))"

text \<open>\<open>memset\<close> and \<open>memcpy\<close> of \<open>stdlib/mem.c\<close> as the kernel runs them, each byte access resolved.\<close>

function kmemset_loop :: "u64 \<Rightarrow> u64 \<Rightarrow> u64 \<Rightarrow> kstate \<Rightarrow> fault + kstate" where
  "kmemset_loop start sz progress s =
     (if progress < sz
      then (case kresolve True s (start + progress) of
              Inl f \<Rightarrow> Inl f
            | Inr a \<Rightarrow> kmemset_loop start sz (progress + 1) (s\<lparr>mem := (mem s)(a := 0)\<rparr>))
      else Inr s)"
  by pat_completeness auto
termination
  by (relation "measure (\<lambda>(start, sz, progress, s). unat (sz - progress))")
    (simp_all, unat_arith)

declare kmemset_loop.simps [simp del]

definition kmemset :: "u64 \<Rightarrow> u64 \<Rightarrow> kstate \<Rightarrow> fault + kstate" where
  "kmemset start sz s = kmemset_loop start sz 0 s"

function kmemcpy_loop :: "u64 \<Rightarrow> u64 \<Rightarrow> u64 \<Rightarrow> u64 \<Rightarrow> kstate \<Rightarrow> fault + kstate" where
  "kmemcpy_loop dest src sz progress s =
     (if progress < sz
      then (case kresolve False s (src + progress) of
              Inl f \<Rightarrow> Inl f
            | Inr a \<Rightarrow>
                (case kresolve True s (dest + progress) of
                   Inl f \<Rightarrow> Inl f
                 | Inr b \<Rightarrow>
                     kmemcpy_loop dest src sz (progress + 1) (s\<lparr>mem := (mem s)(b := mem s a)\<rparr>)))
      else Inr s)"
  by pat_completeness auto
termination
  by (relation "measure (\<lambda>(dest, src, sz, progress, s). unat (sz - progress))")
    (simp_all, unat_arith)

declare kmemcpy_loop.simps [simp del]

definition kmemcpy :: "u64 \<Rightarrow> u64 \<Rightarrow> u64 \<Rightarrow> kstate \<Rightarrow> fault + kstate" where
  "kmemcpy dest src sz s = kmemcpy_loop dest src sz 0 s"

text \<open>In the higher half the two are the plain loops of \<open>Libmem\<close>.\<close>

lemma kmemset_loop_high:
  assumes "\<And>k. k < sz \<Longrightarrow> 0xffff800000000000 \<le> start + k"
  shows "kmemset_loop start sz progress s = Inr (s\<lparr>mem := memset_loop start sz progress (mem s)\<rparr>)"
  using assms
proof (induction start sz progress s rule: kmemset_loop.induct)
  case (1 start sz progress s)
  show ?case
  proof (cases "progress < sz")
    case True
    then have r: "kresolve True s (start + progress) = Inr (start + progress)"
      using "1.prems" by (simp add: kresolve_def)
    from "1.IH" [OF True r "1.prems"] show ?thesis
      using True r by (simp add: kmemset_loop.simps [of start sz progress s]
          memset_loop.simps [of start sz progress "mem s"] del: fun_upd_apply)
  next
    case False
    then show ?thesis
      by (simp add: kmemset_loop.simps [of start sz progress s]
          memset_loop.simps [of start sz progress "mem s"])
  qed
qed

lemma kmemset_page_high:
  assumes "page_aligned p" "0xffff800000000000 \<le> p"
  shows "kmemset p 4096 s = Inr (s\<lparr>mem := memset p 4096 (mem s)\<rparr>)"
  unfolding kmemset_def memset_def
  by (rule kmemset_loop_high) (use assms page_aligned_no_wrap order_trans in blast)

lemma kmemset_unmapped:
  assumes "0 < sz" "start < 0x800000000000" "walk s (cr3_root s) start = None"
  shows "kmemset start sz s = Inl (PageFault start)"
proof -
  have "\<not> 0xffff800000000000 \<le> start" using assms(2) by unat_arith
  with assms show ?thesis
    by (subst kmemset_def, subst kmemset_loop.simps) (simp add: kresolve_def)
qed

end
