(* ===== verification/Pmem.thy ===== *)
theory Pmem
  imports Kmem
begin

text \<open>
  The physical page allocator of \<open>kernel/paging.c\<close>: \<open>free_list\<close>, a linked list threaded through
  the free pages themselves, \<open>pmem_alloc\<close> and \<open>pmem_free\<close>. Nodes are kept by their virtual
  address in the direct map. \<open>pool s ps\<close> abstracts the list in memory to the list of free
  frames; the locale \<open>page_pool\<close> is what the clients (page-table construction and tear-down)
  rely on, and the interpretation shows that the code provides it.
\<close>

subsection \<open>The operations\<close>

definition pmem_alloc :: "kstate \<Rightarrow> u64 \<times> kstate" where
  "pmem_alloc s =
     (if free_list s = 0 then (0, s)
      else let fst = free_list s in (fst, s\<lparr>free_list := load64 (mem s) (free_list s)\<rparr>))"

definition pmem_free :: "u64 \<Rightarrow> kstate \<Rightarrow> kstate" where
  "pmem_free p s =
     (let n = p + hhdm s in s\<lparr>mem := store64 (mem s) n (free_list s), free_list := n\<rparr>)"

subsection \<open>The abstraction: which frames are free\<close>

definition hhdm_ok :: "kstate \<Rightarrow> bool" where
  "hhdm_ok s \<longleftrightarrow> page_aligned (hhdm s) \<and> 0xffff800000000000 \<le> hhdm s"

text \<open>A frame: a page of physical memory that the direct map covers.\<close>

definition frame :: "kstate \<Rightarrow> u64 \<Rightarrow> bool" where
  "frame s p \<longleftrightarrow> page_aligned p \<and> p < 2 ^ 52 \<and> hhdm s \<le> p + hhdm s"

lemma frame_cong: "hhdm s' = hhdm s \<Longrightarrow> frame s' = frame s"
  by (simp add: frame_def [abs_def])

lemma hhdm_ok_cong: "hhdm s' = hhdm s \<Longrightarrow> hhdm_ok s' = hhdm_ok s"
  by (simp add: hhdm_ok_def)

lemma frame_update [simp]:
  "frame (s\<lparr>mem := m\<rparr>) = frame s" "frame (s\<lparr>free_list := a\<rparr>) = frame s"
  "frame (s\<lparr>cr3 := a\<rparr>) = frame s" "frame (s\<lparr>v_heap := a\<rparr>) = frame s"
  "frame (s\<lparr>tlb_ops := l\<rparr>) = frame s"
  by (rule frame_cong, simp)+

lemma hhdm_ok_update [simp]:
  "hhdm_ok (s\<lparr>mem := m\<rparr>) = hhdm_ok s" "hhdm_ok (s\<lparr>free_list := a\<rparr>) = hhdm_ok s"
  "hhdm_ok (s\<lparr>cr3 := a\<rparr>) = hhdm_ok s" "hhdm_ok (s\<lparr>v_heap := a\<rparr>) = hhdm_ok s"
  "hhdm_ok (s\<lparr>tlb_ops := l\<rparr>) = hhdm_ok s"
  by (rule hhdm_ok_cong, simp)+

primrec free_chain :: "mem \<Rightarrow> u64 \<Rightarrow> u64 \<Rightarrow> u64 list \<Rightarrow> bool" where
  "free_chain m h a [] \<longleftrightarrow> a = 0"
| "free_chain m h a (p # ps) \<longleftrightarrow> a = p + h \<and> free_chain m h (load64 m a) ps"

definition pool :: "kstate \<Rightarrow> u64 list \<Rightarrow> bool" where
  "pool s ps \<longleftrightarrow> hhdm_ok s \<and> distinct ps \<and> list_all (frame s) ps
     \<and> free_chain (mem s) (hhdm s) (free_list s) ps"

lemma frame_virtual:
  assumes "hhdm_ok s" "frame s p"
  shows "page_aligned (p + hhdm s)" "0xffff800000000000 \<le> p + hhdm s" "p + hhdm s \<noteq> 0"
proof -
  show "page_aligned (p + hhdm s)" using assms by (simp add: hhdm_ok_def frame_def)
  show high: "0xffff800000000000 \<le> p + hhdm s"
    using assms order_trans unfolding hhdm_ok_def frame_def by blast
  then show "p + hhdm s \<noteq> 0" by auto
qed

lemma free_chain_cong:
  assumes "\<And>p. p \<in> set ps \<Longrightarrow> load64 m' (p + h) = load64 m (p + h)"
  shows "free_chain m' h a ps = free_chain m h a ps"
  using assms by (induction ps arbitrary: a) auto

text \<open>What no page of the pool holds can be written without disturbing the pool.\<close>

lemma pool_cong:
  assumes "pool s ps" "hhdm s' = hhdm s" "free_list s' = free_list s"
    and "\<And>p. p \<in> set ps \<Longrightarrow> load64 (mem s') (p + hhdm s) = load64 (mem s) (p + hhdm s)"
  shows "pool s' ps"
  using assms free_chain_cong [of ps "mem s'" "hhdm s" "mem s"]
  by (simp add: pool_def frame_cong [OF assms(2)] hhdm_ok_cong [OF assms(2)])

lemma slot_0: "slot t 0 = t"
  by (simp add: slot_def)

lemma pool_frame: "pool s ps \<Longrightarrow> p \<in> set ps \<Longrightarrow> frame s p"
  by (simp add: pool_def list_all_iff)

lemma pool_hhdm_ok: "pool s ps \<Longrightarrow> hhdm_ok s"
  by (simp add: pool_def)

lemma pmem_alloc_nil: "pool s [] \<Longrightarrow> pmem_alloc s = (0, s)"
  by (simp add: pool_def pmem_alloc_def)

lemma pmem_alloc_cons:
  assumes "pool s (p # ps)"
  obtains s' where "pmem_alloc s = (p + hhdm s, s')"
    and "s' = s\<lparr>free_list := load64 (mem s) (p + hhdm s)\<rparr>" and "pool s' ps"
proof -
  let ?s = "s\<lparr>free_list := load64 (mem s) (p + hhdm s)\<rparr>"
  have fl: "free_list s = p + hhdm s" "p + hhdm s \<noteq> 0"
    using assms frame_virtual [of s p] by (simp_all add: pool_def)
  then have "free_chain (mem s) (hhdm s) (load64 (mem s) (p + hhdm s)) ps"
    using assms by (simp add: pool_def)
  then have "pool ?s ps" using assms by (simp add: pool_def)
  with fl show thesis using that by (simp add: pmem_alloc_def)
qed

lemma pmem_free_pool:
  assumes "pool s ps" "frame s p" "p \<notin> set ps"
  shows "pool (pmem_free p s) (p # ps)"
proof -
  have ok: "hhdm_ok s" and ch: "free_chain (mem s) (hhdm s) (free_list s) ps"
    using assms(1) by (simp_all add: pool_def)
  have "load64 (store64 (mem s) (p + hhdm s) (free_list s)) (q + hhdm s) = load64 (mem s) (q + hhdm s)"
    if "q \<in> set ps" for q
  proof -
    have "frame s q" "q \<noteq> p" using that assms by (auto simp: pool_frame)
    then show ?thesis
      using load64_store64_slot [of "p + hhdm s" 0 "q + hhdm s" 0] frame_virtual [OF ok] assms(2)
      by (simp add: slot_0)
  qed
  then have "free_chain (store64 (mem s) (p + hhdm s) (free_list s)) (hhdm s) (free_list s) ps"
    using ch free_chain_cong [of ps _ "hhdm s"] by blast
  then show ?thesis
    using assms ok by (simp add: pool_def pmem_free_def Let_def)
qed

subsection \<open>The interface\<close>

text \<open>Allocating \<open>n\<close> pages one after the other.\<close>

primrec take_pages :: "('s \<Rightarrow> u64 \<times> 's) \<Rightarrow> nat \<Rightarrow> 's \<Rightarrow> u64 list \<times> 's" where
  "take_pages alloc 0 s = ([], s)"
| "take_pages alloc (Suc n) s =
     (let (a, s1) = alloc s; (as, s2) = take_pages alloc n s1 in (a # as, s2))"

locale page_pool =
  fixes alloc :: "'s \<Rightarrow> u64 \<times> 's"
    and free :: "u64 \<Rightarrow> 's \<Rightarrow> 's"
    and pages :: "'s \<Rightarrow> u64 list \<Rightarrow> bool"
    and is_frame :: "'s \<Rightarrow> u64 \<Rightarrow> bool"
    and base :: "'s \<Rightarrow> u64"
  assumes alloc_nil: "pages s [] \<Longrightarrow> alloc s = (0, s)"
    and alloc_cons: "pages s (p # ps) \<Longrightarrow> \<exists>s'. alloc s = (p + base s, s') \<and> pages s' ps
      \<and> base s' = base s \<and> is_frame s' = is_frame s"
    and alloc_nonnull: "pages s (p # ps) \<Longrightarrow> p + base s \<noteq> 0"
    and free_cons: "pages s ps \<Longrightarrow> is_frame s p \<Longrightarrow> p \<notin> set ps \<Longrightarrow> pages (free p s) (p # ps)"
    and free_frame: "is_frame (free p s) = is_frame s"
    and free_base: "base (free p s) = base s"
    and pages_distinct: "pages s ps \<Longrightarrow> distinct ps"
begin

lemma take_pages_prefix:
  assumes "pages s (ps @ qs)"
  shows "\<exists>s'. take_pages alloc (length ps) s = (map (\<lambda>p. p + base s) ps, s') \<and> pages s' qs
    \<and> base s' = base s"
  using assms
proof (induction ps arbitrary: s)
  case Nil
  then show ?case by simp
next
  case (Cons p ps)
  then obtain s1 where s1: "alloc s = (p + base s, s1)" "pages s1 (ps @ qs)" "base s1 = base s"
    using alloc_cons by fastforce
  from Cons.IH [OF s1(2)] s1 show ?case by auto
qed

lemma take_pages_distinct:
  assumes "pages s (ps @ qs)"
  shows "distinct (fst (take_pages alloc (length ps) s))"
proof -
  have "distinct ps" using pages_distinct [OF assms] by simp
  then have "distinct (map (\<lambda>p. p + base s) ps)" by (simp add: distinct_map inj_on_def)
  with take_pages_prefix [OF assms] show ?thesis by auto
qed

lemma free_all:
  assumes "pages s ps" "\<forall>q \<in> set qs. is_frame s q" "distinct qs" "set qs \<inter> set ps = {}"
  shows "pages (fold free qs s) (rev qs @ ps)"
  using assms
proof (induction qs arbitrary: s ps)
  case Nil
  then show ?case by simp
next
  case (Cons q qs)
  then have "pages (free q s) (q # ps)" by (auto intro: free_cons)
  with Cons show ?case using Cons.IH [of "free q s" "q # ps"] by (auto simp: free_frame)
qed

lemma free_then_alloc:
  assumes "pages s ps" "is_frame s p" "p \<notin> set ps"
  shows "\<exists>s'. alloc (free p s) = (p + base s, s') \<and> pages s' ps"
  using alloc_cons [OF free_cons [OF assms]] by (auto simp: free_base)

end

interpretation pm: page_pool pmem_alloc pmem_free pool frame hhdm
proof unfold_locales
  fix s p ps
  assume pool: "pool s (p # ps)"
  then show "\<exists>s'. pmem_alloc s = (p + hhdm s, s') \<and> pool s' ps \<and> hhdm s' = hhdm s
      \<and> frame s' = frame s"
    by (rule pmem_alloc_cons) simp
  from pool show "p + hhdm s \<noteq> 0"
    using frame_virtual(3) [of s p] by (simp add: pool_def)
qed (simp_all add: pmem_alloc_nil pmem_free_pool, simp_all add: pmem_free_def Let_def pool_def)

end
