(* ===== verification/Vmap.thy ===== *)
theory Vmap
  imports Pmem
begin

text \<open>
  The page-table operations of \<open>kernel/paging.c\<close>: \<open>vm_map\<close>, \<open>vm_unmap\<close>, \<open>vm_protect\<close>,
  \<open>translate\<close> and \<open>unmap_lower_half\<close>. Each \<open>for (int i = 3; i >= 0; i--)\<close> loop is the recursion on
  the number of levels left (\<open>Suc i\<close> runs the body for \<open>i\<close>), each table access reads or writes the
  entry in memory at the time the code does.
\<close>

subsection \<open>vm_map\<close>

fun vm_map_loop :: "nat \<Rightarrow> u64 \<Rightarrow> bool \<Rightarrow> bool \<Rightarrow> bool \<Rightarrow> u64 \<Rightarrow> kstate \<Rightarrow> fault + (bool \<times> kstate)" where
  "vm_map_loop 0 address usr wr ex root s = Inr (True, invalidate_tlb address s)"
| "vm_map_loop (Suc i) address usr wr ex root s =
     (let a = slot (root + hhdm s) (table_index i address);
          e = get_pte (mem s) a
      in if i = 0 \<and> pte_present e then Inr (False, s)
         else if \<not> pte_present e then
           (let (p, s1) = pmem_alloc s in
            case kmemset p 4096 s1 of
              Inl f \<Rightarrow> Inl f
            | Inr s2 \<Rightarrow>
                (let e2 = (get_pte (mem s2) a)
                       \<lparr>pte_present := True, pte_user := True, pte_writable := True\<rparr>;
                     e3 = (if i = 0
                           then e2\<lparr>pte_writable := wr, pte_user := usr, pte_no_execute := \<not> ex\<rparr>
                           else e2);
                     e4 = e3\<lparr>pte_address := frame_number (p - hhdm s2)\<rparr>;
                     s3 = s2\<lparr>mem := set_pte (mem s2) a e4\<rparr>
                 in vm_map_loop i address usr wr ex (pte_frame e4) s3))
         else vm_map_loop i address usr wr ex (pte_frame e) s)"

definition vm_map :: "u64 \<Rightarrow> u64 \<Rightarrow> bool \<Rightarrow> bool \<Rightarrow> bool \<Rightarrow> kstate \<Rightarrow> fault + (bool \<times> kstate)" where
  "vm_map root address usr wr ex s =
     vm_map_loop 4 (address AND 0xfffffffffffff000) usr wr ex root s"

subsection \<open>vm_unmap\<close>

fun vm_unmap_loop :: "nat \<Rightarrow> u64 \<Rightarrow> u64 \<Rightarrow> kstate \<Rightarrow> bool \<times> kstate" where
  "vm_unmap_loop 0 address root s = (True, invalidate_tlb address s)"
| "vm_unmap_loop (Suc i) address root s =
     (let a = slot (root + hhdm s) (table_index i address);
          s1 = (if i = 0
                then s\<lparr>mem := set_pte (mem s) a ((get_pte (mem s) a)\<lparr>pte_present := False\<rparr>)\<rparr>
                else s)
      in vm_unmap_loop i address (pte_frame (get_pte (mem s1) a)) s1)"

definition vm_unmap :: "u64 \<Rightarrow> u64 \<Rightarrow> kstate \<Rightarrow> bool \<times> kstate" where
  "vm_unmap root address s = vm_unmap_loop 4 address root s"

subsection \<open>vm_protect\<close>

fun vm_protect_loop :: "nat \<Rightarrow> u64 \<Rightarrow> bool \<Rightarrow> bool \<Rightarrow> bool \<Rightarrow> u64 \<Rightarrow> kstate \<Rightarrow> bool \<times> kstate" where
  "vm_protect_loop 0 address usr wr ex root s = (True, invalidate_tlb address s)"
| "vm_protect_loop (Suc i) address usr wr ex root s =
     (let a = slot (root + hhdm s) (table_index i address);
          e = get_pte (mem s) a
      in if \<not> pte_present e then (False, s)
         else
           (let s1 = (if i = 0
                      then s\<lparr>mem := set_pte (mem s) a
                             (e\<lparr>pte_writable := wr, pte_user := usr, pte_no_execute := \<not> ex\<rparr>)\<rparr>
                      else s)
            in vm_protect_loop i address usr wr ex (pte_frame (get_pte (mem s1) a)) s1))"

definition vm_protect :: "u64 \<Rightarrow> u64 \<Rightarrow> bool \<Rightarrow> bool \<Rightarrow> bool \<Rightarrow> kstate \<Rightarrow> bool \<times> kstate" where
  "vm_protect root address usr wr ex s = vm_protect_loop 4 address usr wr ex root s"

subsection \<open>translate\<close>

text \<open>
  \<open>translate\<close> prints the table and index of each level and the final physical address; the model
  returns them: the printed triples (level, index, table) and the address. The index goes
  through a \<open>uint16_t\<close> before it is masked, and no entry's \<open>present\<close> bit is looked at.
\<close>

fun translate_loop :: "nat \<Rightarrow> u64 \<Rightarrow> u64 \<Rightarrow> kstate \<Rightarrow> (nat \<times> u16 \<times> u64) list \<times> u64" where
  "translate_loop 0 address page_table s = ([], page_table)"
| "translate_loop (Suc k) address page_table s =
     (let i = 3 - k;
          index = (ucast (drop_bit (39 - 9 * i) address) :: u16) AND 0x1ff;
          entry = get_pte (mem s) (slot (page_table + hhdm s) (ucast index));
          next = pte_frame entry AND 0xFFFFFFFFFFFFF000;
          (ls, final) = translate_loop k address next s
      in ((4 - i, index, page_table) # ls, final))"

definition translate :: "u64 \<Rightarrow> u64 \<Rightarrow> kstate \<Rightarrow> (nat \<times> u16 \<times> u64) list \<times> u64" where
  "translate page_table address s =
     (let offset = address AND 0xfff;
          (ls, final) = translate_loop 4 address page_table s
      in (ls, final + offset))"

subsection \<open>unmap_lower_half\<close>

definition indices :: "nat \<Rightarrow> u64 list" where
  "indices n = map of_nat [0..<n]"

definition unmap_l2_entry :: "u64 \<Rightarrow> u64 \<Rightarrow> kstate \<Rightarrow> kstate" where
  "unmap_l2_entry l2_table i s =
     (let e = get_pte (mem s) (slot l2_table i)
      in if pte_present e \<and> \<not> pte_page_size e then pmem_free (pte_frame e) s else s)"

definition unmap_l3_entry :: "u64 \<Rightarrow> u64 \<Rightarrow> kstate \<Rightarrow> kstate" where
  "unmap_l3_entry l3_table i s =
     (let e = get_pte (mem s) (slot l3_table i)
      in if pte_present e \<and> \<not> pte_page_size e
         then (let s1 = fold (unmap_l2_entry (ptov s (pte_frame e))) (indices 512) s
               in pmem_free (pte_frame (get_pte (mem s1) (slot l3_table i))) s1)
         else s)"

definition unmap_l4_entry :: "u64 \<Rightarrow> u64 \<Rightarrow> kstate \<Rightarrow> kstate" where
  "unmap_l4_entry l4_table i s =
     (let e = get_pte (mem s) (slot l4_table i)
      in if pte_present e
         then (let s1 = s\<lparr>mem := set_pte (mem s) (slot l4_table i) (e\<lparr>pte_present := False\<rparr>)\<rparr>;
                   l3_table = ptov s1 (pte_frame (get_pte (mem s1) (slot l4_table i)));
                   s2 = fold (unmap_l3_entry l3_table) (indices 512) s1
               in pmem_free (pte_frame (get_pte (mem s2) (slot l4_table i))) s2)
         else s)"

definition unmap_lower_half :: "u64 \<Rightarrow> kstate \<Rightarrow> kstate" where
  "unmap_lower_half root s =
     (let s1 = fold (unmap_l4_entry (ptov s root)) (indices 256) s;
          s2 = reset_v_heap s1
      in write_cr3 (read_cr3 s2) s2)"

end
