(* ===== verification/Space.thy ===== *)
theory Space
  imports Vmap
begin

text \<open>
  The user half of an address space as a tree of frames. \<open>table s root is\<close> follows the indices
  \<open>is\<close> from the top-level table; \<open>space_ok\<close> says that the frames so reached (page tables and
  mapped pages) are frames of physical memory, pairwise different and none of them free, and that every entry above the
  last level leaves the access rights to the last one. \<open>lookup\<close> is the last-level entry of a
  virtual address, and \<open>walk_lookup\<close> shows that under \<open>space_ok\<close> it decides the hardware walk.
\<close>

subsection \<open>Indices and paths\<close>

lemma table_index_less [simp]: "table_index i va < 512"
proof -
  have "table_index i va \<le> 0x1ff" by (simp add: table_index_def word_and_le1)
  then show ?thesis by (rule le_less_trans) simp
qed

lemma bit_0x1ff: "bit (0x1ff :: u64) n \<longleftrightarrow> n < 9"
proof -
  have eq: "(0x1ff :: u64) = mask 9" by (simp add: mask_eq_exp_minus_1)
  show ?thesis unfolding eq by (auto simp only: bit_mask_iff) simp_all
qed

lemma bit_table_index: "bit (table_index i va) n \<longleftrightarrow> n < 9 \<and> bit va (12 + 9 * i + n)"
  unfolding table_index_def bit_and_iff bit_drop_bit_eq bit_0x1ff by auto

lemma bit_page_mask: "bit (0xfffffffffffff000 :: u64) n \<longleftrightarrow> 12 \<le> n \<and> n < 64"
proof -
  have eq: "(0xfffffffffffff000 :: u64) = NOT (mask 12)" by (simp add: mask_eq_exp_minus_1)
  show ?thesis unfolding eq by (auto simp only: bit_not_iff bit_mask_iff) simp_all
qed

lemma table_index_page [simp]: "table_index i (va AND 0xfffffffffffff000) = table_index i va"
proof (rule bit_word_eqI)
  fix n
  show "bit (table_index i (va AND 0xfffffffffffff000)) n = bit (table_index i va) n"
    using bit_imp_le_length [of va "12 + 9 * i + n"]
    by (auto simp only: bit_table_index bit_and_iff bit_page_mask) simp_all
qed

text \<open>The four indices of a virtual address, from the top level down.\<close>

definition upper :: "u64 \<Rightarrow> u64 list" where
  "upper va = [table_index 3 va, table_index 2 va, table_index 1 va]"

definition path :: "u64 \<Rightarrow> u64 list" where
  "path va = upper va @ [table_index 0 va]"

lemma path_eq_iff:
  assumes "va < 2 ^ 48" "va' < 2 ^ 48"
  shows "path va = path va' \<longleftrightarrow> drop_bit 12 va = drop_bit 12 va'"
proof
  have hi: "\<not> bit v n" if "v < 2 ^ 48" "48 \<le> n" for v :: u64 and n
  proof -
    have "v = take_bit 48 v"
      using that(1) by (simp add: word_unat_eq_iff unsigned_take_bit_eq word_less_nat_alt take_bit_nat_eq_self)
    then show ?thesis using that(2) by (metis bit_take_bit_iff leD)
  qed
  assume "path va = path va'"
  then have idx: "bit (table_index i va) n = bit (table_index i va') n" if "i < 4" for i n
    using that by (auto simp: path_def upper_def numeral_eq_Suc less_Suc_eq)
  have "bit va n = bit va' n" if "12 \<le> n" for n
  proof (cases "n < 48")
    case True
    define i where "i = (n - 12) div 9"
    define k where "k = (n - 12) mod 9"
    have "n - 12 = 9 * i + k" by (simp add: i_def k_def)
    then have n: "n = 12 + 9 * i + k" using that by linarith
    have "k < 9" by (simp add: k_def)
    moreover have "i < 4" using True n by linarith
    ultimately show ?thesis using idx [of i k] by (simp add: n bit_table_index)
  next
    case False
    then show ?thesis using assms hi by auto
  qed
  then show "drop_bit 12 va = drop_bit 12 va'"
    by (intro bit_word_eqI) (simp add: bit_drop_bit_eq)
next
  assume eq: "drop_bit 12 va = drop_bit 12 va'"
  have "table_index i va = table_index i va'" for i
  proof (rule bit_word_eqI)
    fix n
    have "bit (drop_bit 12 va) (9 * i + n) = bit (drop_bit 12 va') (9 * i + n)" by (simp add: eq)
    then show "bit (table_index i va) n = bit (table_index i va') n"
      by (simp add: bit_table_index bit_drop_bit_eq add.assoc)
  qed
  then show "path va = path va'" by (simp add: path_def upper_def)
qed

lemma table_index_3_lower: "va < 2 ^ 47 \<Longrightarrow> table_index 3 va < 256"
proof -
  assume "va < 2 ^ 47"
  then have "unat va < 2 ^ 47" by (simp add: word_less_nat_alt)
  then have "unat va div 2 ^ 39 < 256" by simp
  then have "drop_bit 39 va < 256"
    by (simp add: word_less_nat_alt unat_div_distrib drop_bit_eq_div)
  moreover have "table_index 3 va \<le> drop_bit 39 va"
    by (simp add: table_index_def word_and_le2)
  ultimately show ?thesis by (rule le_less_trans [rotated])
qed

subsection \<open>The tree of frames\<close>

definition pte_at :: "kstate \<Rightarrow> u64 \<Rightarrow> u64 \<Rightarrow> pte_t" where
  "pte_at s t i = get_pte (mem s) (slot (t + hhdm s) i)"

primrec table :: "kstate \<Rightarrow> u64 \<Rightarrow> u64 list \<Rightarrow> u64 option" where
  "table s t [] = Some t"
| "table s t (i # is) =
     (if pte_present (pte_at s t i) then table s (pte_frame (pte_at s t i)) is else None)"

text \<open>Paths into the user half: at most four levels, the first index in the lower half.\<close>

definition upath :: "u64 list \<Rightarrow> bool" where
  "upath is \<longleftrightarrow> length is \<le> 4 \<and> list_all (\<lambda>i. i < 512) is \<and> (is \<noteq> [] \<longrightarrow> hd is < 256)"

text \<open>An entry above the last level restricts nothing and is not a large page.\<close>

definition plain :: "pte_t \<Rightarrow> bool" where
  "plain e \<longleftrightarrow> \<not> pte_page_size e \<and> \<not> pte_no_execute e
     \<and> (pte_present e \<longrightarrow> pte_user e \<and> pte_writable e)"

definition space_ok :: "kstate \<Rightarrow> u64 \<Rightarrow> u64 list \<Rightarrow> bool" where
  "space_ok s root ps \<longleftrightarrow> pool s ps \<and> page_aligned root
     \<and> (\<forall>is js t. upath is \<longrightarrow> upath js \<longrightarrow> table s root is = Some t \<longrightarrow> table s root js = Some t \<longrightarrow> is = js)
     \<and> (\<forall>is t. upath is \<longrightarrow> table s root is = Some t \<longrightarrow> t \<notin> set ps)
     \<and> (\<forall>is t. upath is \<longrightarrow> is \<noteq> [] \<longrightarrow> table s root is = Some t \<longrightarrow> frame s t)
     \<and> (\<forall>is t i. upath (is @ [i]) \<longrightarrow> length is \<le> 2 \<longrightarrow> table s root is = Some t \<longrightarrow> plain (pte_at s t i))"

lemma table_append:
  "table s t (is @ js) = (case table s t is of None \<Rightarrow> None | Some u \<Rightarrow> table s u js)"
  by (induction "is" arbitrary: t) auto

lemma table_snoc:
  "table s t (is @ [i]) = (case table s t is of None \<Rightarrow> None
     | Some u \<Rightarrow> if pte_present (pte_at s u i) then Some (pte_frame (pte_at s u i)) else None)"
  by (simp add: table_append split: option.splits)

lemma upath_snocD: "upath (is @ [i]) \<Longrightarrow> upath is \<and> i < 512 \<and> length is \<le> 3"
  by (cases "is") (auto simp: upath_def)

lemma upath_Nil [simp]: "upath []"
  by (simp add: upath_def)

lemma upath_path: "va < 2 ^ 47 \<Longrightarrow> upath (path va)"
  by (simp add: upath_def path_def upper_def table_index_3_lower)

lemma table_aligned: "page_aligned t \<Longrightarrow> table s t is = Some u \<Longrightarrow> page_aligned u"
proof (induction "is" arbitrary: t)
  case (Cons i "is")
  then have "table s (pte_frame (pte_at s t i)) is = Some u" by (simp split: if_splits)
  then show ?case by (rule Cons.IH [rotated]) simp
qed simp

lemma space_okD:
  assumes "space_ok s root ps"
  shows "pool s ps" "page_aligned root" "hhdm_ok s" "page_aligned (hhdm s)"
    and "upath is \<Longrightarrow> upath js \<Longrightarrow> table s root is = Some t \<Longrightarrow> table s root js = Some t \<Longrightarrow> is = js"
    and "upath is \<Longrightarrow> table s root is = Some t \<Longrightarrow> t \<notin> set ps"
    and "upath (is @ [i]) \<Longrightarrow> length is \<le> 2 \<Longrightarrow> table s root is = Some t \<Longrightarrow> plain (pte_at s t i)"
    and "table s root is = Some t \<Longrightarrow> page_aligned t"
    and "upath is \<Longrightarrow> is \<noteq> [] \<Longrightarrow> table s root is = Some t \<Longrightarrow> frame s t"
  using assms table_aligned [of root s "is" t]
  unfolding space_ok_def pool_def hhdm_ok_def by blast+

subsection \<open>The last-level entry of an address\<close>

definition lookup :: "kstate \<Rightarrow> u64 \<Rightarrow> u64 \<Rightarrow> pte_t option" where
  "lookup s root va =
     (case table s root (upper va) of None \<Rightarrow> None
      | Some t \<Rightarrow> let e = pte_at s t (table_index 0 va) in if pte_present e then Some e else None)"

definition rights_of :: "pte_t \<Rightarrow> rights" where
  "rights_of e = \<lparr>may_user = pte_user e, may_write = pte_writable e, may_exec = \<not> pte_no_execute e\<rparr>"

lemma table_path_lookup: "table s root (path va) = map_option pte_frame (lookup s root va)"
  by (simp add: path_def table_snoc lookup_def Let_def split: option.splits)

text \<open>Under \<open>space_ok\<close> the hardware walk is the table lookup, with the rights of the last entry.\<close>

lemma mmu_walk_step:
  assumes "n = Suc i" and "i = 0 \<or> \<not> pte_page_size (pte_at s t (table_index i va))"
  shows "mmu_walk n (mem s) (hhdm s) t va r =
    (let e = pte_at s t (table_index i va)
     in if pte_present e then mmu_walk i (mem s) (hhdm s) (pte_frame e) va (restrict_rights e r)
        else None)"
  using assms by (auto simp: pte_at_def Let_def)

lemma restrict_all_rights: "restrict_rights e all_rights = rights_of e"
  by (simp add: restrict_rights_def all_rights_def rights_of_def)

lemma restrict_plain: "plain e \<Longrightarrow> pte_present e \<Longrightarrow> restrict_rights e r = r"
  by (simp add: restrict_rights_def plain_def)

lemma walk_lookup:
  assumes ok: "space_ok s root ps" and va: "va < 2 ^ 47"
  shows "walk s root va =
    map_option (\<lambda>e. (pte_frame e + take_bit 12 va, rights_of e)) (lookup s root va)"
proof -
  define e3 where "e3 = pte_at s root (table_index 3 va)"
  define e2 where "e2 = pte_at s (pte_frame e3) (table_index 2 va)"
  define e1 where "e1 = pte_at s (pte_frame e2) (table_index 1 va)"
  define e0 where "e0 = pte_at s (pte_frame e1) (table_index 0 va)"
  have up: "upath [table_index 3 va]" "upath [table_index 3 va, table_index 2 va]"
    "upath [table_index 3 va, table_index 2 va, table_index 1 va]"
    using va by (simp_all add: upath_def table_index_3_lower)
  have p3: "plain e3"
    using space_okD(7) [OF ok, of "[]"] up by (simp add: e3_def)
  have p2: "plain e2" if "pte_present e3"
    using space_okD(7) [OF ok, of "[table_index 3 va]"] up that by (simp add: e3_def e2_def)
  have p1: "plain e1" if "pte_present e3" "pte_present e2"
    using space_okD(7) [OF ok, of "[table_index 3 va, table_index 2 va]"] up that
    by (simp add: e3_def e2_def e1_def)
  let ?w = "\<lambda>n t. mmu_walk n (mem s) (hhdm s) t va all_rights"
  have "?w 4 root = (if pte_present e3 then ?w 3 (pte_frame e3) else None)"
    using p3 mmu_walk_step [of 4 3 s root va all_rights]
    by (simp add: e3_def restrict_plain Let_def plain_def)
  moreover have "?w 3 (pte_frame e3) = (if pte_present e2 then ?w 2 (pte_frame e2) else None)"
    if "pte_present e3"
    using p2 [OF that] mmu_walk_step [of 3 2 s "pte_frame e3" va all_rights]
    by (simp add: e2_def restrict_plain Let_def plain_def)
  moreover have "?w 2 (pte_frame e2) = (if pte_present e1 then ?w 1 (pte_frame e1) else None)"
    if "pte_present e3" "pte_present e2"
    using p1 [OF that] mmu_walk_step [of 2 1 s "pte_frame e2" va all_rights]
    by (simp add: e1_def restrict_plain Let_def plain_def)
  moreover have "?w 1 (pte_frame e1) =
      (if pte_present e0 then Some (pte_frame e0 + take_bit 12 va, rights_of e0) else None)"
    using mmu_walk_step [of 1 0 s "pte_frame e1" va all_rights]
    by (simp add: e0_def restrict_all_rights Let_def)
  ultimately have "walk s root va =
      (if pte_present e3 \<and> pte_present e2 \<and> pte_present e1 \<and> pte_present e0
       then Some (pte_frame e0 + take_bit 12 va, rights_of e0) else None)"
    by (simp add: walk_def)
  moreover have "lookup s root va = (if pte_present e3 \<and> pte_present e2 \<and> pte_present e1 \<and> pte_present e0
      then Some e0 else None)"
    by (simp add: lookup_def upper_def e3_def [symmetric] e2_def [symmetric]
        e1_def [symmetric] e0_def [symmetric] Let_def del: One_nat_def)
  ultimately show ?thesis by simp
qed

end
