(* ===== verification/Vmap_Tree.thy ===== *)
theory Vmap_Tree
  imports Space
begin

text \<open>
  How one write to a page table changes the tree of frames: linking a fresh, zeroed frame at an
  entry that is not present (\<open>fresh_link\<close>), changing the rights of a last-level entry
  (\<open>leaf_rewrite\<close>) and clearing its present bit (\<open>leaf_unlink\<close>). The three operations of
  \<open>paging.c\<close> are sequences of these.
\<close>

lemma pte_decode_0 [simp]:
  "\<not> pte_present (pte_decode 0)" "plain (pte_decode 0)"
  by (simp_all add: pte_decode_def plain_def)

lemma load64_of_pte: "get_pte m a = pte_decode 0 \<Longrightarrow> load64 m a = 0"
  by (metis get_pte_def pte_encode_decode)

subsection \<open>Linking a fresh frame\<close>

lemma fresh_link_table:
  assumes ok: "space_ok s root (p # ps)" and up: "upath (is @ [i])"
    and t: "table s root is = Some t" and np: "\<not> pte_present (pte_at s t i)"
    and pte': "\<And>u j. page_aligned u \<Longrightarrow> j < 512 \<Longrightarrow> pte_at s' u j =
      (if u = p then pte_decode 0 else if u = t \<and> j = i then e' else pte_at s u j)"
    and e': "pte_present e'" "pte_frame e' = p"
    and js: "upath js"
  shows "table s' root js = (if js = is @ [i] then Some p else table s root js)"
  using js
proof (induction js rule: rev_induct)
  case Nil
  then show ?case by simp
next
  case (snoc j js)
  have up_is: "upath is" using upath_snocD [OF up] by simp
  have up_js: "upath js" and j: "j < 512" using upath_snocD [OF snoc.prems] by simp_all
  have p: "page_aligned p" using pool_frame [OF space_okD(1) [OF ok]] by (simp add: frame_def)
  note IH = snoc.IH [OF up_js]
  show ?case
  proof (cases "js = is @ [i]")
    case True
    have "table s' root js = Some p" using IH True by simp
    then have "table s' root (js @ [j]) = None" using pte' [OF p j] by (simp add: table_snoc)
    moreover have "table s root js = None" unfolding True using t np by (simp add: table_snoc)
    then have "table s root (js @ [j]) = None" by (simp add: table_snoc)
    moreover have "js @ [j] \<noteq> is @ [i]" using True by simp
    ultimately show ?thesis by simp
  next
    case False
    then have IH': "table s' root js = table s root js" using IH by simp
    show ?thesis
    proof (cases "table s root js")
      case None
      then have "js \<noteq> is" using t by auto
      then show ?thesis using None IH' by (simp add: table_snoc)
    next
      case (Some u)
      have u: "page_aligned u" "u \<noteq> p"
        using space_okD(8) [OF ok Some] space_okD(6) [OF ok up_js Some] by auto
      have "js = is" if "u = t" using space_okD(5) [OF ok up_js up_is Some] t that by simp
      moreover have "u = t" if "js = is" using Some t that by simp
      ultimately show ?thesis
        using pte' [OF u(1) j] u(2) Some IH' e' by (auto simp: table_snoc)
    qed
  qed
qed

lemma fresh_link_ok:
  assumes ok: "space_ok s root (p # ps)" and up: "upath (is @ [i])"
    and t: "table s root is = Some t" and np: "\<not> pte_present (pte_at s t i)"
    and pte': "\<And>u j. page_aligned u \<Longrightarrow> j < 512 \<Longrightarrow> pte_at s' u j =
      (if u = p then pte_decode 0 else if u = t \<and> j = i then e' else pte_at s u j)"
    and e': "pte_present e'" "pte_frame e' = p" "length is \<le> 2 \<Longrightarrow> plain e'"
    and pool': "pool s' ps" and hh: "hhdm s' = hhdm s"
  shows "space_ok s' root ps"
proof -
  have tab: "table s' root js = (if js = is @ [i] then Some p else table s root js)"
    if "upath js" for js
    by (rule fresh_link_table [OF ok up t np _ e'(1,2) that]) (rule pte')
  have up_is: "upath is" using upath_snocD [OF up] by simp
  have not_p: "table s root js \<noteq> Some p" if "upath js" for js
    using space_okD(6) [OF ok that] by auto
  show ?thesis
    unfolding space_ok_def
  proof (intro conjI allI impI)
    show "pool s' ps" by (rule pool')
    show "page_aligned root" by (rule space_okD(2) [OF ok])
  next
    fix ks js u
    assume a: "upath ks" "upath js" "table s' root ks = Some u" "table s' root js = Some u"
    then show "ks = js"
      using not_p [of ks] not_p [of js] space_okD(5) [OF ok a(1,2)] tab [of ks] tab [of js]
      by (auto split: if_splits)
  next
    fix js u
    assume a: "upath js" "table s' root js = Some u"
    have "p \<notin> set ps" using space_okD(1) [OF ok] by (simp add: pool_def)
    then show "u \<notin> set ps"
      using a tab [of js] space_okD(6) [OF ok a(1)] by (auto split: if_splits)
  next
    fix js u
    assume a: "upath js" "js \<noteq> []" "table s' root js = Some u"
    have "frame s p" using pool_frame [OF space_okD(1) [OF ok]] by simp
    then show "frame s' u"
      using a tab [of js] space_okD(9) [OF ok a(1,2)]
      by (auto simp: frame_cong [OF hh] split: if_splits)
  next
    fix js u j
    assume a: "upath (js @ [j])" "length js \<le> 2" "table s' root js = Some u"
    then have up_js: "upath js" "j < 512" using upath_snocD by blast+
    show "plain (pte_at s' u j)"
    proof (cases "js = is @ [i]")
      case True
      then have "u = p" using a(3) tab [OF up_js(1)] by simp
      moreover have "page_aligned p"
        using pool_frame [OF space_okD(1) [OF ok]] by (simp add: frame_def)
      ultimately show ?thesis using pte' up_js(2) by simp
    next
      case False
      then have u: "table s root js = Some u" using a(3) tab [OF up_js(1)] by simp
      have "js = is" if "u = t" using space_okD(5) [OF ok up_js(1) up_is u] t that by simp
      then show ?thesis
        using pte' [OF space_okD(8) [OF ok u] up_js(2)] e'(3) a(2) space_okD(7) [OF ok a(1,2) u]
          not_p [OF up_js(1)] u
        by auto
    qed
  qed
qed

text \<open>A new page table maps nothing; a new page is mapped at its own address only.\<close>

lemma fresh_table_lookup:
  assumes ok: "space_ok s root (p # ps)" and up: "upath (is @ [i])" and short: "length is \<le> 2"
    and t: "table s root is = Some t" and np: "\<not> pte_present (pte_at s t i)"
    and pte': "\<And>u j. page_aligned u \<Longrightarrow> j < 512 \<Longrightarrow> pte_at s' u j =
      (if u = p then pte_decode 0 else if u = t \<and> j = i then e' else pte_at s u j)"
    and e': "pte_present e'" "pte_frame e' = p"
    and va: "va < 2 ^ 47"
  shows "lookup s' root va = lookup s root va"
proof -
  have up_va: "upath (upper va)" using upath_path [OF va] upath_snocD by (simp add: path_def)
  have up_is: "upath is" using upath_snocD [OF up] by simp
  have p: "page_aligned p" using pool_frame [OF space_okD(1) [OF ok]] by (simp add: frame_def)
  have tab: "table s' root (upper va) =
      (if upper va = is @ [i] then Some p else table s root (upper va))"
    by (rule fresh_link_table [OF ok up t np _ e' up_va]) (rule pte')
  show ?thesis
  proof (cases "upper va = is @ [i]")
    case True
    then have "table s root (upper va) = None" using t np by (simp add: table_snoc)
    then show ?thesis using tab True pte' [OF p] by (simp add: lookup_def)
  next
    case False
    show ?thesis
    proof (cases "table s root (upper va)")
      case None
      then show ?thesis using tab False by (simp add: lookup_def)
    next
      case (Some u)
      have "upper va = is" if "u = t" using space_okD(5) [OF ok up_va up_is Some] t that by simp
      then have "u \<noteq> t" using short by (auto simp: upper_def)
      moreover have "u \<noteq> p" using space_okD(6) [OF ok up_va Some] by auto
      ultimately show ?thesis
        using tab False Some pte' [OF space_okD(8) [OF ok Some]] by (simp add: lookup_def)
    qed
  qed
qed

lemma fresh_page_lookup:
  assumes ok: "space_ok s root (p # ps)" and va: "va < 2 ^ 47"
    and t: "table s root (upper va) = Some t" and np: "\<not> pte_present (pte_at s t (table_index 0 va))"
    and pte': "\<And>u j. page_aligned u \<Longrightarrow> j < 512 \<Longrightarrow> pte_at s' u j =
      (if u = p then pte_decode 0 else if u = t \<and> j = table_index 0 va then e' else pte_at s u j)"
    and e': "pte_present e'" "pte_frame e' = p"
    and va': "va' < 2 ^ 47"
  shows "lookup s' root va' = (if path va' = path va then Some e' else lookup s root va')"
proof -
  have up: "upath (upper va @ [table_index 0 va])" using upath_path [OF va] by (simp add: path_def)
  have up_va': "upath (upper va')" using upath_path [OF va'] upath_snocD by (simp add: path_def)
  have up_va: "upath (upper va)" using upath_snocD [OF up] by simp
  have "upper va' \<noteq> upper va @ [table_index 0 va]" by (simp add: upper_def)
  moreover have "table s' root (upper va') =
      (if upper va' = upper va @ [table_index 0 va] then Some p else table s root (upper va'))"
    by (rule fresh_link_table [OF ok up t np _ e' up_va']) (rule pte')
  ultimately have tab: "table s' root (upper va') = table s root (upper va')" by simp
  show ?thesis
  proof (cases "table s root (upper va')")
    case None
    then have "path va' \<noteq> path va" using t by (auto simp: path_def)
    with None tab show ?thesis by (simp add: lookup_def)
  next
    case (Some u)
    have "u = t \<longleftrightarrow> upper va' = upper va"
      using space_okD(5) [OF ok up_va' up_va Some] t Some by auto
    moreover have "u \<noteq> p" using space_okD(6) [OF ok up_va' Some] by auto
    ultimately show ?thesis
      using tab Some pte' [OF space_okD(8) [OF ok Some]] e'
      by (auto simp: lookup_def path_def Let_def)
  qed
qed

subsection \<open>Changing a last-level entry\<close>

text \<open>
  \<open>s'\<close> differs from \<open>s\<close> in the last-level entry of \<open>va\<close> only, which is now \<open>e'\<close>, with the same
  frame.
\<close>

definition leaf_changed :: "kstate \<Rightarrow> u64 \<Rightarrow> u64 \<Rightarrow> pte_t \<Rightarrow> kstate \<Rightarrow> bool" where
  "leaf_changed s root va e' s' \<longleftrightarrow>
     (\<exists>t. table s root (upper va) = Some t
        \<and> (\<forall>u j. page_aligned u \<longrightarrow> j < 512 \<longrightarrow>
             pte_at s' u j = (if u = t \<and> j = table_index 0 va then e' else pte_at s u j)))"

lemma leaf_changed_upper:
  assumes ok: "space_ok s root ps" and va: "va < 2 ^ 47" and ch: "leaf_changed s root va e' s'"
    and js: "upath js" "length js \<le> 3"
  shows "table s' root js = table s root js"
  using js
proof (induction js rule: rev_induct)
  case Nil
  then show ?case by simp
next
  case (snoc j js)
  have up_js: "upath js" and j: "j < 512" using upath_snocD [OF snoc.prems(1)] by simp_all
  have up_va: "upath (upper va)" using upath_path [OF va] upath_snocD by (simp add: path_def)
  obtain t where t: "table s root (upper va) = Some t"
    and pte': "\<And>u j. page_aligned u \<Longrightarrow> j < 512 \<Longrightarrow>
      pte_at s' u j = (if u = t \<and> j = table_index 0 va then e' else pte_at s u j)"
    using ch by (auto simp: leaf_changed_def)
  have IH: "table s' root js = table s root js" using snoc.IH [OF up_js] snoc.prems by simp
  show ?case
  proof (cases "table s root js")
    case None
    then show ?thesis using IH by (simp add: table_snoc)
  next
    case (Some u)
    have "upper va = js" if "u = t" using space_okD(5) [OF ok up_va up_js t] Some that by simp
    then have "u \<noteq> t" using snoc.prems(2) by (auto simp: upper_def)
    then show ?thesis
      using Some IH pte' [OF space_okD(8) [OF ok Some] j] by (simp add: table_snoc)
  qed
qed

lemma leaf_changed_lookup:
  assumes ok: "space_ok s root ps" and va: "va < 2 ^ 47" and ch: "leaf_changed s root va e' s'"
    and va': "va' < 2 ^ 47"
  shows "lookup s' root va' =
    (if path va' = path va then (if pte_present e' then Some e' else None) else lookup s root va')"
proof -
  obtain t where t: "table s root (upper va) = Some t"
    and pte': "\<And>u j. page_aligned u \<Longrightarrow> j < 512 \<Longrightarrow>
      pte_at s' u j = (if u = t \<and> j = table_index 0 va then e' else pte_at s u j)"
    using ch by (auto simp: leaf_changed_def)
  have up_va: "upath (upper va)" using upath_path [OF va] upath_snocD by (simp add: path_def)
  have up_va': "upath (upper va')" using upath_path [OF va'] upath_snocD by (simp add: path_def)
  have tab: "table s' root (upper va') = table s root (upper va')"
    by (rule leaf_changed_upper [OF ok va ch up_va']) (simp add: upper_def)
  show ?thesis
  proof (cases "table s root (upper va')")
    case None
    then have "path va' \<noteq> path va" using t by (auto simp: path_def)
    with None tab show ?thesis by (simp add: lookup_def)
  next
    case (Some u)
    have "u = t \<longleftrightarrow> upper va' = upper va"
      using space_okD(5) [OF ok up_va' up_va Some] t Some by auto
    then show ?thesis
      using tab Some pte' [OF space_okD(8) [OF ok Some]]
      by (auto simp: lookup_def path_def Let_def)
  qed
qed

lemma leaf_changed_ok:
  assumes ok: "space_ok s root ps" and va: "va < 2 ^ 47" and ch: "leaf_changed s root va e' s'"
    and frame: "\<And>t. table s root (upper va) = Some t \<Longrightarrow> pte_present e' \<Longrightarrow>
      pte_present (pte_at s t (table_index 0 va)) \<and> pte_frame e' = pte_frame (pte_at s t (table_index 0 va))"
    and pool': "pool s' ps" and hh: "hhdm s' = hhdm s"
  shows "space_ok s' root ps"
proof -
  obtain t where t: "table s root (upper va) = Some t"
    and pte': "\<And>u j. page_aligned u \<Longrightarrow> j < 512 \<Longrightarrow>
      pte_at s' u j = (if u = t \<and> j = table_index 0 va then e' else pte_at s u j)"
    using ch by (auto simp: leaf_changed_def)
  have up_va: "upath (upper va)" using upath_path [OF va] upath_snocD by (simp add: path_def)
  have sub: "table s root js = Some u"
    if up_js: "upath js" and tab': "table s' root js = Some u" for js u
  proof (cases "length js \<le> 3")
    case True
    then show ?thesis using leaf_changed_upper [OF ok va ch up_js] tab' by simp
  next
    case False
    then have "js \<noteq> []" by auto
    then obtain ks j where js: "js = ks @ [j]" by (metis rev_exhaust)
    have ks: "upath ks" "j < 512" "length ks \<le> 3" using upath_snocD up_js js by auto
    have "table s' root ks = table s root ks" by (rule leaf_changed_upper [OF ok va ch ks(1,3)])
    then obtain v where v: "table s root ks = Some v" and pv: "pte_present (pte_at s' v j)"
      and u: "u = pte_frame (pte_at s' v j)"
      using tab' by (auto simp: js table_snoc split: option.splits if_splits)
    show ?thesis
      using pv u v t frame [OF t] pte' [OF space_okD(8) [OF ok v] ks(2)]
      by (auto simp: js table_snoc split: if_splits)
  qed
  show ?thesis
    unfolding space_ok_def
  proof (intro conjI allI impI)
    show "pool s' ps" by (rule pool')
    show "page_aligned root" by (rule space_okD(2) [OF ok])
  next
    fix ks js u
    assume "upath ks" "upath js" "table s' root ks = Some u" "table s' root js = Some u"
    then show "ks = js" using sub space_okD(5) [OF ok] by blast
  next
    fix js u
    assume "upath js" "table s' root js = Some u"
    then show "u \<notin> set ps" using sub space_okD(6) [OF ok] by blast
  next
    fix js u
    assume "upath js" "js \<noteq> []" "table s' root js = Some u"
    then show "frame s' u" using sub space_okD(9) [OF ok] by (simp add: frame_cong [OF hh])
  next
    fix js u j
    assume a: "upath (js @ [j])" "length js \<le> 2" "table s' root js = Some u"
    then have up_js: "upath js" "j < 512" using upath_snocD by blast+
    have u: "table s root js = Some u" by (rule sub [OF up_js(1) a(3)])
    have "upper va = js" if "u = t" using space_okD(5) [OF ok up_va up_js(1) t] u that by simp
    then have "u \<noteq> t" using a(2) by (auto simp: upper_def)
    then show "plain (pte_at s' u j)"
      using pte' [OF space_okD(8) [OF ok u] up_js(2)] space_okD(7) [OF ok a(1,2) u] by simp
  qed
qed

end
