(* ===== verification/Vmap_Correct.thy ===== *)
theory Vmap_Correct
  imports Vmap_Tree
begin

text \<open>
  What \<open>vm_map\<close>, \<open>vm_protect\<close> and \<open>vm_unmap\<close> do to an address space: each is an update of the
  map from virtual pages to frames and rights (\<open>walk\<close>) at one page, and nothing else.
\<close>

subsection \<open>One allocation step\<close>

text \<open>The fields no page-table operation writes.\<close>

definition same_rest :: "kstate \<Rightarrow> kstate \<Rightarrow> bool" where
  "same_rest s s' \<longleftrightarrow> hhdm s' = hhdm s \<and> cr3 s' = cr3 s \<and> cr0_wp s' = cr0_wp s \<and> v_heap s' = v_heap s"

lemma same_rest_refl [simp]: "same_rest s s"
  by (simp add: same_rest_def)

lemma same_rest_trans: "same_rest s s' \<Longrightarrow> same_rest s' s'' \<Longrightarrow> same_rest s s''"
  by (simp add: same_rest_def)

text \<open>Take a page off the list, zero it, write an entry of another page.\<close>

lemma alloc_zero_write:
  assumes pool: "pool s (p # ps)" and t: "page_aligned t" "t \<notin> set (p # ps)" and i: "i < 512"
  obtains s1 s2 where "pmem_alloc s = (p + hhdm s, s1)"
    and "kmemset (p + hhdm s) 4096 s1 = Inr s2"
    and "get_pte (mem s2) (slot (t + hhdm s) i) = pte_at s t i"
    and "same_rest s s2" and "tlb_ops s2 = tlb_ops s"
    and "\<And>e. pool (s2\<lparr>mem := set_pte (mem s2) (slot (t + hhdm s) i) e\<rparr>) ps"
    and "\<And>e u j. page_aligned u \<Longrightarrow> j < 512 \<Longrightarrow>
      pte_at (s2\<lparr>mem := set_pte (mem s2) (slot (t + hhdm s) i) e\<rparr>) u j =
        (if u = p then pte_decode 0 else if u = t \<and> j = i then e else pte_at s u j)"
proof -
  let ?h = "hhdm s"
  have h: "hhdm_ok s" "page_aligned ?h" using pool by (simp_all add: pool_def hhdm_ok_def)
  have p: "frame s p" using pool by (simp add: pool_def)
  then have pa: "page_aligned p" "page_aligned (p + ?h)" "0xffff800000000000 \<le> p + ?h"
    using frame_virtual [OF h(1) p] by (simp_all add: frame_def)
  obtain s1 where s1: "pmem_alloc s = (p + ?h, s1)"
    "s1 = s\<lparr>free_list := load64 (mem s) (p + ?h)\<rparr>" "pool s1 ps"
    using pmem_alloc_cons [OF pool] .
  define s2 where "s2 = s1\<lparr>mem := memset (p + ?h) 4096 (mem s1)\<rparr>"
  have ms: "kmemset (p + ?h) 4096 s1 = Inr s2"
    unfolding s2_def by (rule kmemset_page_high [OF pa(2,3)])
  let ?w = "\<lambda>e. s2\<lparr>mem := set_pte (mem s2) (slot (t + ?h) i) e\<rparr>"
  have pool': "pool (?w e) ps" for e
  proof (rule pool_cong [OF s1(3)])
    fix q assume q: "q \<in> set ps"
    then have "q \<noteq> p" "q \<noteq> t" using pool t by (auto simp: pool_def)
    moreover have "page_aligned q" using q pool by (auto simp: pool_def list_all_iff frame_def)
    ultimately have "load64 (set_pte (memset (p + ?h) 4096 (mem s)) (slot (t + ?h) i) e) (slot (q + ?h) 0)
        = load64 (mem s) (slot (q + ?h) 0)"
      using pa(1) t h i by (simp add: mem_simps)
    then show "load64 (mem (?w e)) (q + hhdm s1) = load64 (mem s1) (q + hhdm s1)"
      by (simp add: s2_def s1(2) slot_0)
  qed (simp_all add: s2_def)
  have "page_aligned u \<Longrightarrow> j < 512 \<Longrightarrow> pte_at (?w e) u j =
      (if u = p then pte_decode 0 else if u = t \<and> j = i then e else pte_at s u j)" for e u j
    using pa(1) t h i by (auto simp: pte_at_def s2_def s1(2) mem_simps)
  moreover have "get_pte (mem s2) (slot (t + ?h) i) = pte_at s t i"
    using pa(1) t h i by (simp add: pte_at_def s2_def s1(2) mem_simps)
  ultimately show thesis
    using that [OF s1(1) ms] pool' by (simp add: same_rest_def s2_def s1(2))
qed

subsection \<open>vm_map\<close>

text \<open>\<open>pte_link e p\<close> is what \<open>vm_map\<close> makes of a table entry, \<open>pte_leaf\<close> of a last-level one.\<close>

definition pte_link :: "pte_t \<Rightarrow> u64 \<Rightarrow> pte_t" where
  "pte_link e p = e\<lparr>pte_present := True, pte_user := True, pte_writable := True,
     pte_address := frame_number p\<rparr>"

definition pte_leaf :: "pte_t \<Rightarrow> u64 \<Rightarrow> bool \<Rightarrow> bool \<Rightarrow> bool \<Rightarrow> pte_t" where
  "pte_leaf e p usr wr ex = e\<lparr>pte_present := True, pte_writable := wr, pte_user := usr,
     pte_no_execute := \<not> ex, pte_address := frame_number p\<rparr>"

lemma frame_link:
  assumes "frame s p"
  shows "pte_frame (pte_link e p) = p" "pte_frame (pte_leaf e p usr wr ex) = p"
proof -
  have "p < 2 ^ 63" using assms by (simp add: frame_def) unat_arith
  then show "pte_frame (pte_link e p) = p" "pte_frame (pte_leaf e p usr wr ex) = p"
    using pte_frame_number [of p] assms
    by (simp_all add: pte_frame_def pte_link_def pte_leaf_def frame_def)
qed

lemma link_simps [simp]:
  "pte_present (pte_link e p)" "pte_present (pte_leaf e p usr wr ex)"
  "rights_of (pte_leaf e p usr wr ex) = \<lparr>may_user = usr, may_write = wr, may_exec = ex\<rparr>"
  by (simp_all add: pte_link_def pte_leaf_def rights_of_def)

lemma plain_link: "plain e \<Longrightarrow> plain (pte_link e p)"
  by (simp add: plain_def pte_link_def)

lemma vm_map_loop_present:
  assumes "pte_present (pte_at s t (table_index i va))" and "i \<noteq> 0"
  shows "vm_map_loop (Suc i) va usr wr ex t s =
    vm_map_loop i va usr wr ex (pte_frame (pte_at s t (table_index i va))) s"
  using assms by (simp add: pte_at_def Let_def)

lemma vm_map_loop_mapped:
  assumes "pte_present (pte_at s t (table_index 0 va))"
  shows "vm_map_loop (Suc 0) va usr wr ex t s = Inr (False, s)"
  using assms by (simp add: pte_at_def Let_def)

lemma vm_map_loop_fresh:
  assumes pool: "pool s (p # ps)" and t: "page_aligned t" "t \<notin> set (p # ps)"
    and np: "\<not> pte_present (pte_at s t (table_index i va))"
  obtains s3 e' where "vm_map_loop (Suc i) va usr wr ex t s = vm_map_loop i va usr wr ex p s3"
    and "e' = (if i = 0 then pte_leaf (pte_at s t (table_index i va)) p usr wr ex
               else pte_link (pte_at s t (table_index i va)) p)"
    and "same_rest s s3" and "pool s3 ps" and "tlb_ops s3 = tlb_ops s"
    and "\<And>u j. page_aligned u \<Longrightarrow> j < 512 \<Longrightarrow> pte_at s3 u j =
      (if u = p then pte_decode 0 else if u = t \<and> j = table_index i va then e' else pte_at s u j)"
proof -
  let ?a = "slot (t + hhdm s) (table_index i va)"
  obtain s1 s2 where s2: "pmem_alloc s = (p + hhdm s, s1)" "kmemset (p + hhdm s) 4096 s1 = Inr s2"
    "get_pte (mem s2) ?a = pte_at s t (table_index i va)" "same_rest s s2" "tlb_ops s2 = tlb_ops s"
    and w: "\<And>e. pool (s2\<lparr>mem := set_pte (mem s2) ?a e\<rparr>) ps"
    "\<And>e u j. page_aligned u \<Longrightarrow> j < 512 \<Longrightarrow> pte_at (s2\<lparr>mem := set_pte (mem s2) ?a e\<rparr>) u j =
      (if u = p then pte_decode 0 else if u = t \<and> j = table_index i va then e else pte_at s u j)"
    using alloc_zero_write [OF pool t table_index_less] by metis
  define e' where "e' = (if i = 0 then pte_leaf (pte_at s t (table_index i va)) p usr wr ex
               else pte_link (pte_at s t (table_index i va)) p)"
  define s3 where "s3 = s2\<lparr>mem := set_pte (mem s2) ?a e'\<rparr>"
  have frame: "frame s p" using pool by (simp add: pool_def)
  have h2: "hhdm s2 = hhdm s" using s2(4) by (simp add: same_rest_def)
  have "vm_map_loop (Suc i) va usr wr ex t s = vm_map_loop i va usr wr ex (pte_frame e') s3"
  proof (cases i)
    case 0
    then have "e' = pte_leaf (pte_at s t (table_index 0 va)) p usr wr ex" by (simp add: e'_def)
    then show ?thesis
      using np s2 h2 0 by (simp add: pte_at_def [symmetric] Let_def s3_def pte_leaf_def)
  next
    case (Suc k)
    then have "e' = pte_link (pte_at s t (table_index i va)) p" by (simp add: e'_def)
    then show ?thesis
      using np s2 h2 Suc by (simp add: pte_at_def [symmetric] Let_def s3_def pte_link_def)
  qed
  moreover have "pte_frame e' = p" using frame_link [OF frame] by (simp add: e'_def)
  ultimately show thesis
    using that [of s3 e'] w s2 by (simp add: s3_def e'_def same_rest_def)
qed

text \<open>
  The whole loop, from any level: the address is mapped and nothing happens, or between one and
  \<open>n\<close> frames leave the pool, all but the last as new tables.
\<close>

definition maps_page :: "kstate \<Rightarrow> u64 \<Rightarrow> u64 \<Rightarrow> bool \<Rightarrow> bool \<Rightarrow> bool \<Rightarrow> u64 \<Rightarrow> kstate \<Rightarrow> bool" where
  "maps_page s root va usr wr ex p s' \<longleftrightarrow>
     (\<exists>e'. pte_frame e' = p \<and> rights_of e' = \<lparr>may_user = usr, may_write = wr, may_exec = ex\<rparr>
        \<and> (\<forall>va' < 2 ^ 47. lookup s' root va' = (if path va' = path va then Some e' else lookup s root va')))"

lemma table_path_upper:
  "table s root (path va) = None \<longleftrightarrow> lookup s root va = None"
  by (simp add: table_path_lookup)

lemma path_split:
  "path va = [table_index 3 va, table_index 2 va, table_index 1 va, table_index 0 va]"
  by (simp add: path_def upper_def)

lemma take_path_Suc:
  assumes "i < 4"
  shows "take (4 - i) (path va) = take (3 - i) (path va) @ [table_index i va]"
proof -
  have "i = 0 \<or> i = 1 \<or> i = 2 \<or> i = 3" using assms by linarith
  then show ?thesis by (elim disjE) (simp_all add: path_split numeral_eq_Suc)
qed

lemma upath_take: "upath is \<Longrightarrow> upath (take n is)"
  by (cases "is"; cases n) (auto simp: upath_def list_all_iff dest: in_set_takeD)

text \<open>The last iteration: level 0.\<close>

lemma vm_map_leaf:
  assumes ok: "space_ok s root (p # ps)" and va: "va < 2 ^ 47"
    and t: "table s root (upper va) = Some t" and np: "\<not> pte_present (pte_at s t (table_index 0 va))"
  obtains s' where "vm_map_loop (Suc 0) va usr wr ex t s = Inr (True, s')"
    and "space_ok s' root ps" and "same_rest s s'" and "tlb_ops s' = tlb_ops s @ [Invlpg va]"
    and "maps_page s root va usr wr ex p s'" and "\<And>j. j < 512 \<Longrightarrow> pte_at s' p j = pte_decode 0"
proof -
  have up: "upath (upper va @ [table_index 0 va])" using upath_path [OF va] by (simp add: path_def)
  have up': "upath (upper va)" using upath_snocD [OF up] by simp
  have frame: "frame s p" using space_okD(1) [OF ok] by (simp add: pool_def)
  obtain s3 e' where s3: "vm_map_loop (Suc 0) va usr wr ex t s = vm_map_loop 0 va usr wr ex p s3"
    and e': "e' = pte_leaf (pte_at s t (table_index 0 va)) p usr wr ex"
    and rest: "same_rest s s3" "pool s3 ps" "tlb_ops s3 = tlb_ops s"
    and w: "\<And>u j. page_aligned u \<Longrightarrow> j < 512 \<Longrightarrow> pte_at s3 u j =
      (if u = p then pte_decode 0 else if u = t \<and> j = table_index 0 va then e' else pte_at s u j)"
    using vm_map_loop_fresh [OF space_okD(1) [OF ok] space_okD(8) [OF ok t]
        space_okD(6) [OF ok up' t] np, of usr wr ex] by auto
  have f: "pte_present e'" "pte_frame e' = p" using frame_link [OF frame] by (simp_all add: e')
  let ?s' = "invalidate_tlb va s3"
  have w': "\<And>u j. page_aligned u \<Longrightarrow> j < 512 \<Longrightarrow> pte_at ?s' u j =
      (if u = p then pte_decode 0 else if u = t \<and> j = table_index 0 va then e' else pte_at s u j)"
    using w by (simp add: pte_at_def invalidate_tlb_def)
  have pool': "pool ?s' ps"
    by (rule pool_cong [OF rest(2)]) (simp_all add: invalidate_tlb_def)
  have "space_ok ?s' root ps"
    by (rule fresh_link_ok [OF ok up t np _ f _ pool']) (use w' rest(1) in \<open>auto simp: upper_def same_rest_def invalidate_tlb_def\<close>)
  moreover have "maps_page s root va usr wr ex p ?s'"
    unfolding maps_page_def
  proof (intro exI [of _ e'] conjI allI impI)
    show "rights_of e' = \<lparr>may_user = usr, may_write = wr, may_exec = ex\<rparr>" by (simp add: e')
    fix va' :: u64 assume "va' < 2 ^ 47"
    then show "lookup ?s' root va' = (if path va' = path va then Some e' else lookup s root va')"
      by (intro fresh_page_lookup [OF ok va t np _ f]) (use w' in auto)
  qed (rule f)
  moreover have "page_aligned p" using frame by (simp add: frame_def)
  ultimately show thesis
    using that [of ?s'] s3 rest w' by (simp add: invalidate_tlb_def same_rest_def)
qed

text \<open>An iteration above level 0 where the table is missing.\<close>

lemma vm_map_table:
  assumes ok: "space_ok s root (p # ps)" and va: "va < 2 ^ 47" and i: "0 < i" "i < 4"
    and t: "table s root (take (3 - i) (path va)) = Some t"
    and np: "\<not> pte_present (pte_at s t (table_index i va))"
  obtains s3 where "vm_map_loop (Suc i) va usr wr ex t s = vm_map_loop i va usr wr ex p s3"
    and "space_ok s3 root ps" and "same_rest s s3" and "tlb_ops s3 = tlb_ops s"
    and "table s3 root (take (4 - i) (path va)) = Some p"
    and "\<And>va'. va' < 2 ^ 47 \<Longrightarrow> lookup s3 root va' = lookup s root va'"
proof -
  let ?is = "take (3 - i) (path va)"
  have step: "take (4 - i) (path va) = ?is @ [table_index i va]" by (rule take_path_Suc [OF i(2)])
  have up: "upath (?is @ [table_index i va])"
    using upath_take [OF upath_path [OF va], of "4 - i"] by (simp only: step)
  have up': "upath ?is" using upath_snocD [OF up] by simp
  have short: "length ?is \<le> 2" using i by (simp add: path_split)
  have frame: "frame s p" using space_okD(1) [OF ok] by (simp add: pool_def)
  obtain s3 e' where s3: "vm_map_loop (Suc i) va usr wr ex t s = vm_map_loop i va usr wr ex p s3"
    and e': "e' = pte_link (pte_at s t (table_index i va)) p"
    and rest: "same_rest s s3" "pool s3 ps" "tlb_ops s3 = tlb_ops s"
    and w: "\<And>u j. page_aligned u \<Longrightarrow> j < 512 \<Longrightarrow> pte_at s3 u j =
      (if u = p then pte_decode 0 else if u = t \<and> j = table_index i va then e' else pte_at s u j)"
    using vm_map_loop_fresh [OF space_okD(1) [OF ok] space_okD(8) [OF ok t]
        space_okD(6) [OF ok up' t] np, of usr wr ex] i by auto
  have f: "pte_present e'" "pte_frame e' = p" using frame_link [OF frame] by (simp_all add: e')
  have plain: "plain e'"
    unfolding e' by (rule plain_link) (rule space_okD(7) [OF ok up short t])
  have "space_ok s3 root ps"
    by (rule fresh_link_ok [OF ok up t np _ f _ rest(2)]) (use w plain rest(1) in \<open>auto simp: same_rest_def\<close>)
  moreover have "table s3 root (?is @ [table_index i va]) =
      (if ?is @ [table_index i va] = ?is @ [table_index i va] then Some p
       else table s root (?is @ [table_index i va]))"
    by (rule fresh_link_table [OF ok up t np _ f up]) (use w in auto)
  moreover have "lookup s3 root va' = lookup s root va'" if "va' < 2 ^ 47" for va'
    by (rule fresh_table_lookup [OF ok up short t np _ f that]) (use w in auto)
  ultimately show thesis
    using that [of s3] s3 rest by (simp add: step)
qed

lemma vm_map_loop_spec:
  assumes "space_ok s root ps" and "va < 2 ^ 47" and "0 < n" "n \<le> 4" "n \<le> length ps"
    and "table s root (take (4 - n) (path va)) = Some t"
  shows "if lookup s root va \<noteq> None then vm_map_loop n va usr wr ex t s = Inr (False, s)
    else \<exists>s' k. vm_map_loop n va usr wr ex t s = Inr (True, s') \<and> k < n
      \<and> space_ok s' root (drop (Suc k) ps) \<and> same_rest s s'
      \<and> tlb_ops s' = tlb_ops s @ [Invlpg va]
      \<and> maps_page s root va usr wr ex (ps ! k) s'
      \<and> (\<forall>j < 512. pte_at s' (ps ! k) j = pte_decode 0)"
  using assms
proof (induction n arbitrary: s t ps)
  case 0
  then show ?case by simp
next
  case (Suc i)
  have ok: "space_ok s root ps" and va: "va < 2 ^ 47" and i: "i < 4"
    using Suc.prems by simp_all
  have t: "table s root (take (3 - i) (path va)) = Some t" using Suc.prems(6) by simp
  note step = take_path_Suc [OF i, of va]
  obtain p ps' where ps: "ps = p # ps'" using Suc.prems(5) by (cases ps) auto
  let ?e = "pte_at s t (table_index i va)"
  show ?case
  proof (cases "i = 0")
    case True
    then have t0: "table s root (upper va) = Some t" using t by (simp add: path_split upper_def numeral_eq_Suc)
    show ?thesis
    proof (cases "pte_present ?e")
      case present: True
      then have "lookup s root va \<noteq> None" using t0 True by (simp add: lookup_def)
      then show ?thesis using vm_map_loop_mapped [of s t va] present True by simp
    next
      case False
      then have none: "lookup s root va = None" using t0 True by (simp add: lookup_def)
      obtain s' where "vm_map_loop (Suc 0) va usr wr ex t s = Inr (True, s')"
        "space_ok s' root ps'" "same_rest s s'" "tlb_ops s' = tlb_ops s @ [Invlpg va]"
        "maps_page s root va usr wr ex p s'" "\<And>j. j < 512 \<Longrightarrow> pte_at s' p j = pte_decode 0"
        using vm_map_leaf [of s root p ps' va t usr wr ex] ok va t0 False True unfolding ps by metis
      then show ?thesis using none True ps by (intro if_not_P [THEN iffD2]) auto
    qed
  next
    case False
    then have i0: "0 < i" by simp
    show ?thesis
    proof (cases "pte_present ?e")
      case True
      have "table s root (take (4 - i) (path va)) = Some (pte_frame ?e)"
        using t True by (simp add: step table_snoc)
      from Suc.IH [OF ok va i0 _ _ this] have IH: "if lookup s root va \<noteq> None
          then vm_map_loop i va usr wr ex (pte_frame ?e) s = Inr (False, s)
          else \<exists>s' k. vm_map_loop i va usr wr ex (pte_frame ?e) s = Inr (True, s') \<and> k < i
            \<and> space_ok s' root (drop (Suc k) ps) \<and> same_rest s s'
            \<and> tlb_ops s' = tlb_ops s @ [Invlpg va]
            \<and> maps_page s root va usr wr ex (ps ! k) s'
            \<and> (\<forall>j < 512. pte_at s' (ps ! k) j = pte_decode 0)"
        using Suc.prems by simp
      have eq: "vm_map_loop (Suc i) va usr wr ex t s = vm_map_loop i va usr wr ex (pte_frame ?e) s"
        by (rule vm_map_loop_present [OF True False])
      show ?thesis using IH unfolding eq by (auto split: if_splits intro: less_SucI)
    next
      case np: False
      obtain s3 where s3: "vm_map_loop (Suc i) va usr wr ex t s = vm_map_loop i va usr wr ex p s3"
        "space_ok s3 root ps'" "same_rest s s3" "tlb_ops s3 = tlb_ops s"
        "table s3 root (take (4 - i) (path va)) = Some p"
        "\<And>va'. va' < 2 ^ 47 \<Longrightarrow> lookup s3 root va' = lookup s root va'"
        using vm_map_table [OF ok [unfolded ps] va i0 i t np, of usr wr ex] by metis
      have "table s root (take (4 - i) (path va)) = None" using t np by (simp add: step table_snoc)
      then have "table s root (path va) = None"
        using table_append [of s root "take (4 - i) (path va)" "drop (4 - i) (path va)"] by simp
      then have none: "lookup s root va = None" by (simp add: table_path_lookup)
      then have none3: "lookup s3 root va = None" using s3(6) [OF va] by simp
      have mp: "maps_page s3 root va usr wr ex q s' \<Longrightarrow> maps_page s root va usr wr ex q s'" for q s'
        using s3(6) by (auto simp: maps_page_def)
      from Suc.IH [OF s3(2) va i0 _ _ s3(5)] none3 Suc.prems(4,5) obtain s' k where
        "vm_map_loop i va usr wr ex p s3 = Inr (True, s')" "k < i"
        "space_ok s' root (drop (Suc k) ps')" "same_rest s3 s'"
        "tlb_ops s' = tlb_ops s3 @ [Invlpg va]"
        "maps_page s3 root va usr wr ex (ps' ! k) s'"
        "\<forall>j < 512. pte_at s' (ps' ! k) j = pte_decode 0"
        by (auto simp: ps)
      then have "vm_map_loop (Suc i) va usr wr ex t s = Inr (True, s') \<and> Suc k < Suc i
          \<and> space_ok s' root (drop (Suc (Suc k)) ps) \<and> same_rest s s'
          \<and> tlb_ops s' = tlb_ops s @ [Invlpg va]
          \<and> maps_page s root va usr wr ex (ps ! Suc k) s'
          \<and> (\<forall>j < 512. pte_at s' (ps ! Suc k) j = pte_decode 0)"
        using s3 mp same_rest_trans by (simp add: ps)
      then show ?thesis by (simp only: none simp_thms if_False) blast
    qed
  qed
qed

text \<open>The operation as the rest of the kernel calls it.\<close>

definition page_of :: "u64 \<Rightarrow> u64" where
  "page_of va = va AND 0xfffffffffffff000"

lemma path_page_of [simp]: "path (page_of va) = path va"
  by (simp add: path_def upper_def page_of_def)

lemma page_of_less: "va < 2 ^ 47 \<Longrightarrow> page_of va < 2 ^ 47"
  unfolding page_of_def by (rule le_less_trans [OF word_and_le2])

lemma lookup_page_of [simp]: "lookup s root (page_of va) = lookup s root va"
  using path_page_of [of va] by (simp add: lookup_def path_def Let_def split: option.split)

lemma vm_map_spec:
  assumes "space_ok s root ps" and "va < 2 ^ 47" and "4 \<le> length ps"
  shows "if lookup s root va \<noteq> None then vm_map root va usr wr ex s = Inr (False, s)
    else \<exists>s' k. vm_map root va usr wr ex s = Inr (True, s') \<and> k < 4
      \<and> space_ok s' root (drop (Suc k) ps) \<and> same_rest s s'
      \<and> tlb_ops s' = tlb_ops s @ [Invlpg (page_of va)]
      \<and> maps_page s root va usr wr ex (ps ! k) s'
      \<and> (\<forall>j < 512. pte_at s' (ps ! k) j = pte_decode 0)"
  using vm_map_loop_spec [OF assms(1) page_of_less [OF assms(2)], of 4 root usr wr ex] assms(3)
  by (simp only: vm_map_def page_of_def [symmetric] lookup_page_of path_page_of maps_page_def) simp

lemma maps_page_walk:
  assumes "space_ok s root ps" "space_ok s' root ps'" "maps_page s root va usr wr ex p s'"
    and "va < 2 ^ 47" "va' < 2 ^ 47"
  shows "walk s' root va' =
    (if drop_bit 12 va' = drop_bit 12 va
     then Some (p + take_bit 12 va', \<lparr>may_user = usr, may_write = wr, may_exec = ex\<rparr>)
     else walk s root va')"
proof -
  have "(2 :: u64) ^ 47 \<le> 2 ^ 48" by simp
  then have "va < 2 ^ 48" "va' < 2 ^ 48" using assms(4,5) less_le_trans by blast+
  then show ?thesis
    using assms path_eq_iff [of va' va]
    by (auto simp: maps_page_def walk_lookup [OF assms(1)] walk_lookup [OF assms(2)])
qed

subsection \<open>vm_protect and vm_unmap\<close>

text \<open>Rewriting the last-level entry of a mapped address.\<close>

lemma leaf_write:
  assumes ok: "space_ok s root ps" and va: "va < 2 ^ 47" and t: "table s root (upper va) = Some t"
  shows "leaf_changed s root va e' (s\<lparr>mem := set_pte (mem s) (slot (t + hhdm s) (table_index 0 va)) e'\<rparr>)"
    and "pool (s\<lparr>mem := set_pte (mem s) (slot (t + hhdm s) (table_index 0 va)) e'\<rparr>) ps"
proof -
  have h: "page_aligned (hhdm s)" by (rule space_okD(4) [OF ok])
  have ta: "page_aligned t" by (rule space_okD(8) [OF ok t])
  have up: "upath (upper va)" using upath_path [OF va] upath_snocD by (simp add: path_def)
  show "leaf_changed s root va e' (s\<lparr>mem := set_pte (mem s) (slot (t + hhdm s) (table_index 0 va)) e'\<rparr>)"
    unfolding leaf_changed_def using t h ta by (auto simp: pte_at_def mem_simps)
  show "pool (s\<lparr>mem := set_pte (mem s) (slot (t + hhdm s) (table_index 0 va)) e'\<rparr>) ps"
  proof (rule pool_cong [OF space_okD(1) [OF ok]])
    fix q assume q: "q \<in> set ps"
    then have "q \<noteq> t" using space_okD(6) [OF ok up t] by auto
    moreover have "page_aligned q"
      using pool_frame [OF space_okD(1) [OF ok] q] by (simp add: frame_def)
    ultimately have "load64 (set_pte (mem s) (slot (t + hhdm s) (table_index 0 va)) e') (slot (q + hhdm s) 0)
        = load64 (mem s) (slot (q + hhdm s) 0)"
      using h ta by (simp add: mem_simps)
    then show "load64 (mem (s\<lparr>mem := set_pte (mem s) (slot (t + hhdm s) (table_index 0 va)) e'\<rparr>)) (q + hhdm s)
        = load64 (mem s) (q + hhdm s)"
      by (simp add: slot_0)
  qed simp_all
qed

lemma table_upper_steps:
  "table s root (upper va) = Some t \<longleftrightarrow>
     pte_present (pte_at s root (table_index 3 va))
     \<and> (let t3 = pte_frame (pte_at s root (table_index 3 va)) in
          pte_present (pte_at s t3 (table_index 2 va))
          \<and> (let t2 = pte_frame (pte_at s t3 (table_index 2 va)) in
               pte_present (pte_at s t2 (table_index 1 va))
               \<and> pte_frame (pte_at s t2 (table_index 1 va)) = t))"
  by (auto simp: upper_def Let_def)

definition set_rights :: "pte_t \<Rightarrow> bool \<Rightarrow> bool \<Rightarrow> bool \<Rightarrow> pte_t" where
  "set_rights e usr wr ex = e\<lparr>pte_writable := wr, pte_user := usr, pte_no_execute := \<not> ex\<rparr>"

lemma set_rights_simps [simp]:
  "pte_present (set_rights e usr wr ex) = pte_present e"
  "pte_frame (set_rights e usr wr ex) = pte_frame e"
  "rights_of (set_rights e usr wr ex) = \<lparr>may_user = usr, may_write = wr, may_exec = ex\<rparr>"
  by (simp_all add: set_rights_def pte_frame_def rights_of_def)

lemma vm_protect_loop_leaf:
  assumes "table s root (upper va) = Some t"
  shows "vm_protect root va usr wr ex s = vm_protect_loop 1 va usr wr ex t s"
  using assms unfolding table_upper_steps Let_def
  by (simp add: vm_protect_def numeral_eq_Suc pte_at_def [symmetric] Let_def)

lemma vm_protect_unmapped:
  assumes "lookup s root va = None"
  shows "vm_protect root va usr wr ex s = (False, s)"
proof (cases "table s root (upper va)")
  case (Some t)
  with assms have "\<not> pte_present (pte_at s t (table_index 0 va))"
    by (auto simp: lookup_def Let_def split: if_splits)
  then show ?thesis using vm_protect_loop_leaf [OF Some] by (simp add: pte_at_def Let_def)
next
  case None
  then show ?thesis
    by (simp add: vm_protect_def upper_def numeral_eq_Suc pte_at_def [symmetric] Let_def split: if_splits)
qed

lemma vm_protect_mapped:
  assumes t: "table s root (upper va) = Some t" and e: "pte_present (pte_at s t (table_index 0 va))"
  shows "vm_protect root va usr wr ex s = (True, invalidate_tlb va
    (s\<lparr>mem := set_pte (mem s) (slot (t + hhdm s) (table_index 0 va))
        (set_rights (pte_at s t (table_index 0 va)) usr wr ex)\<rparr>))"
  using vm_protect_loop_leaf [OF t, of usr wr ex] e
  by (simp add: pte_at_def [symmetric] Let_def set_rights_def)

lemma vm_unmap_mapped:
  assumes "table s root (upper va) = Some t"
  shows "vm_unmap root va s = (True, invalidate_tlb va
    (s\<lparr>mem := set_pte (mem s) (slot (t + hhdm s) (table_index 0 va))
        ((pte_at s t (table_index 0 va))\<lparr>pte_present := False\<rparr>)\<rparr>))"
  using assms unfolding table_upper_steps Let_def
  by (simp add: vm_unmap_def numeral_eq_Suc pte_at_def [symmetric] Let_def)

text \<open>Only the memory and the list of TLB operations can differ: the tree and the pool do not notice.\<close>

lemma pte_at_invalidate [simp]: "pte_at (invalidate_tlb a s) t i = pte_at s t i"
  by (simp add: pte_at_def invalidate_tlb_def)

lemma table_invalidate [simp]: "table (invalidate_tlb a s) t is = table s t is"
  by (induction "is" arbitrary: t) simp_all

lemma lookup_invalidate [simp]: "lookup (invalidate_tlb a s) root va = lookup s root va"
  by (simp add: lookup_def Let_def split: option.split)

lemma pool_invalidate [simp]: "pool (invalidate_tlb a s) ps = pool s ps"
  by (simp add: pool_def invalidate_tlb_def)

lemma frame_invalidate [simp]: "frame (invalidate_tlb a s) = frame s"
  by (rule frame_cong) (simp add: invalidate_tlb_def)

lemma space_ok_invalidate [simp]: "space_ok (invalidate_tlb a s) root ps = space_ok s root ps"
  by (simp add: space_ok_def)

lemma vm_protect_spec:
  assumes ok: "space_ok s root ps" and va: "va < 2 ^ 47" and e: "lookup s root va = Some e"
  obtains s' where "vm_protect root va usr wr ex s = (True, s')" and "space_ok s' root ps"
    and "same_rest s s'" and "free_list s' = free_list s"
    and "\<And>va'. va' < 2 ^ 47 \<Longrightarrow> lookup s' root va' =
      (if path va' = path va then Some (set_rights e usr wr ex) else lookup s root va')"
proof -
  obtain t where t: "table s root (upper va) = Some t" and p: "pte_present (pte_at s t (table_index 0 va))"
    and e': "e = pte_at s t (table_index 0 va)"
    using e by (auto simp: lookup_def Let_def split: option.splits if_splits)
  let ?s = "s\<lparr>mem := set_pte (mem s) (slot (t + hhdm s) (table_index 0 va)) (set_rights e usr wr ex)\<rparr>"
  note ch = leaf_write [OF ok va t, of "set_rights e usr wr ex"]
  have "space_ok ?s root ps"
    by (rule leaf_changed_ok [OF ok va ch(1) _ ch(2)]) (use t p e' in simp_all)
  moreover have "lookup ?s root va' = (if path va' = path va then Some (set_rights e usr wr ex)
      else lookup s root va')" if "va' < 2 ^ 47" for va'
    using leaf_changed_lookup [OF ok va ch(1) that] p e' by simp
  ultimately show thesis
    using that [of "invalidate_tlb va ?s"] vm_protect_mapped [OF t p, of usr wr ex] e'
    by (simp add: same_rest_def) (simp add: invalidate_tlb_def)
qed

lemma vm_unmap_spec:
  assumes ok: "space_ok s root ps" and va: "va < 2 ^ 47" and t: "table s root (upper va) = Some t"
  obtains s' where "vm_unmap root va s = (True, s')" and "space_ok s' root ps"
    and "same_rest s s'" and "free_list s' = free_list s"
    and "\<And>va'. va' < 2 ^ 47 \<Longrightarrow> lookup s' root va' =
      (if path va' = path va then None else lookup s root va')"
proof -
  let ?e = "(pte_at s t (table_index 0 va))\<lparr>pte_present := False\<rparr>"
  let ?s = "s\<lparr>mem := set_pte (mem s) (slot (t + hhdm s) (table_index 0 va)) ?e\<rparr>"
  note ch = leaf_write [OF ok va t, of ?e]
  have "space_ok ?s root ps"
    by (rule leaf_changed_ok [OF ok va ch(1) _ ch(2)]) simp_all
  moreover have "lookup ?s root va' = (if path va' = path va then None else lookup s root va')"
    if "va' < 2 ^ 47" for va'
    using leaf_changed_lookup [OF ok va ch(1) that] by simp
  ultimately show thesis
    using that [of "invalidate_tlb va ?s"] vm_unmap_mapped [OF t]
    by (simp add: same_rest_def) (simp add: invalidate_tlb_def)
qed

end
