(* ===== verification/Paging_Props.thy ===== *)
theory Paging_Props
  imports Vmap_Correct
begin

text \<open>
  The properties of \<open>kernel/paging.c\<close>: the page-table entry layout, the page allocator, and each
  page-table operation as an update of the hardware's map from virtual addresses to physical
  addresses and rights. \<open>sample\<close> is the small machine the witnesses run on: an empty top-level
  table at \<open>0x1000\<close> and five free frames.
\<close>

subsection \<open>A concrete machine\<close>

definition sample_hhdm :: u64 where
  "sample_hhdm = 0xffff800000000000"

definition sample_mem :: mem where
  "sample_mem =
     store64 (store64 (store64 (store64 (\<lambda>_. 0)
       (0x2000 + sample_hhdm) (0x3000 + sample_hhdm))
       (0x3000 + sample_hhdm) (0x4000 + sample_hhdm))
       (0x4000 + sample_hhdm) (0x5000 + sample_hhdm))
       (0x5000 + sample_hhdm) (0x6000 + sample_hhdm)"

definition sample :: kstate where
  "sample = \<lparr>mem = sample_mem, hhdm = sample_hhdm, free_list = 0x2000 + sample_hhdm,
     cr3 = 0x1000, cr0_wp = True, v_heap = 0x10000, tlb_ops = []\<rparr>"

definition sample_frames :: "u64 list" where
  "sample_frames = [0x2000, 0x3000, 0x4000, 0x5000, 0x6000]"

lemma sample_aligned [simp]:
  "page_aligned sample_hhdm" "page_aligned 0x1000" "page_aligned 0x2000" "page_aligned 0x3000"
  "page_aligned 0x4000" "page_aligned 0x5000" "page_aligned 0x6000"
  by (simp_all add: page_aligned_def sample_hhdm_def take_bit_eq_mod)

lemma load64_zero_mem [simp]: "load64 (\<lambda>_. 0) a = 0"
  by (simp add: load64_def)

lemma sample_load:
  assumes "page_aligned t" "i < 512"
  shows "load64 sample_mem (slot (t + sample_hhdm) i) =
    (if t = 0x5000 \<and> i = 0 then 0x6000 + sample_hhdm else
     if t = 0x4000 \<and> i = 0 then 0x5000 + sample_hhdm else
     if t = 0x3000 \<and> i = 0 then 0x4000 + sample_hhdm else
     if t = 0x2000 \<and> i = 0 then 0x3000 + sample_hhdm else 0)"
proof -
  have st: "load64 (store64 m (p + sample_hhdm) v) (slot (t + sample_hhdm) i) =
      (if t = p \<and> i = 0 then v else load64 m (slot (t + sample_hhdm) i))"
    if "page_aligned p" for m p v
    using load64_store64_slot [of "p + sample_hhdm" 0 "t + sample_hhdm" i m v] that assms
    by (auto simp: slot_0)
  show ?thesis
    unfolding sample_mem_def st [OF sample_aligned(3)] st [OF sample_aligned(4)]
      st [OF sample_aligned(5)] st [OF sample_aligned(6)] load64_zero_mem
    by (rule refl)
qed

lemma sample_pool: "pool sample sample_frames"
proof -
  have "load64 sample_mem (t + sample_hhdm) =
      (if t \<in> {0x2000, 0x3000, 0x4000, 0x5000} then t + 0x1000 + sample_hhdm else 0)"
    if "page_aligned t" for t
    using sample_load [of t 0] that by (simp add: slot_0)
  then show ?thesis
    by (simp add: pool_def sample_frames_def sample_def hhdm_ok_def frame_def)
      (simp add: sample_hhdm_def)
qed

lemma sample_pte:
  assumes "i < 512" shows "pte_at sample 0x1000 i = pte_decode 0"
  using sample_load [of "0x1000" i] assms by (simp add: pte_at_def get_pte_def sample_def)

lemma sample_table: "upath is \<Longrightarrow> table sample 0x1000 is = (if is = [] then Some 0x1000 else None)"
  by (cases "is") (auto simp: upath_def sample_pte)

lemma sample_space: "space_ok sample 0x1000 sample_frames"
proof -
  have "plain (pte_at sample 0x1000 i)" if "upath [i]" for i
    using that by (simp add: upath_def sample_pte)
  then show ?thesis
    unfolding space_ok_def using sample_pool upath_snocD
    by (fastforce simp: sample_table sample_frames_def split: if_splits)
qed

lemma sample_lookup: "va < 2 ^ 47 \<Longrightarrow> lookup sample 0x1000 va = None"
  using sample_table [of "upper va"] upath_path [of va] upath_snocD [of "upper va"]
  by (simp add: lookup_def path_def) (simp add: upper_def)

lemma sample_walk: "va < 2 ^ 47 \<Longrightarrow> walk sample 0x1000 va = None"
  by (simp add: walk_lookup [OF sample_space] sample_lookup)

abbreviation "user_ro \<equiv> \<lparr>may_user = True, may_write = False, may_exec = True\<rparr>"

lemma sample_fresh:
  obtains s k where "vm_map 0x1000 0x400000 True False True sample = Inr (True, s)" and "k < 4"
    and "space_ok s 0x1000 (drop (Suc k) sample_frames)"
    and "walk s 0x1000 0x400000 = Some (sample_frames ! k, user_ro)"
    and "\<And>va. va < 2 ^ 47 \<Longrightarrow> drop_bit 12 va \<noteq> 0x400 \<Longrightarrow> walk s 0x1000 va = None"
proof -
  have va: "(0x400000 :: u64) < 2 ^ 47" "drop_bit 12 (0x400000 :: u64) = 0x400"
    "take_bit 12 (0x400000 :: u64) = 0"
    by (simp_all add: drop_bit_eq_div take_bit_eq_mod)
  from vm_map_spec [OF sample_space va(1), of True False True] sample_lookup [OF va(1)]
  obtain s k where s: "vm_map 0x1000 0x400000 True False True sample = Inr (True, s)" "k < 4"
    "space_ok s 0x1000 (drop (Suc k) sample_frames)"
    "maps_page sample 0x1000 0x400000 True False True (sample_frames ! k) s"
    by (auto simp: sample_frames_def)
  show thesis
    by (rule that [OF s(1-3)]) (use maps_page_walk [OF sample_space s(3,4) va(1)] va sample_walk in auto)
qed

lemma table_free_list [simp]: "table (s\<lparr>free_list := a\<rparr>) t is = table s t is"
  by (induction "is" arbitrary: t) (simp_all add: pte_at_def)

lemma space_ok_exhausted: "space_ok s root ps \<Longrightarrow> space_ok (s\<lparr>free_list := 0\<rparr>) root []"
  by (simp add: space_ok_def pool_def pte_at_def)

lemma walk_free_list [simp]: "walk (s\<lparr>free_list := a\<rparr>) root va = walk s root va"
  by (simp add: walk_def)

subsection \<open>The page allocator\<close>

text \<open>
  C1: taking \<open>n\<close> pages, one \<open>pmem_alloc\<close> after the other, returns the first \<open>n\<close> frames of the free
  list, each as its direct-map (virtual) address and no two of them equal, and leaves the rest of
  the list as the pool.
\<close>

theorem pmem_alloc_takes_pool:
  assumes "pool s (ps @ qs)"
  shows "\<exists>s'. take_pages pmem_alloc (length ps) s = (map (\<lambda>p. p + hhdm s) ps, s')
    \<and> pool s' qs \<and> distinct (fst (take_pages pmem_alloc (length ps) s))"
  using pm.take_pages_prefix [OF assms] pm.take_pages_distinct [OF assms] by blast

lemma pmem_alloc_takes_pool_witness:
  "\<exists>s'. take_pages pmem_alloc 2 sample = ([0x2000 + sample_hhdm, 0x3000 + sample_hhdm], s')
     \<and> pool s' [0x4000, 0x5000, 0x6000]"
proof -
  have "pool sample ([0x2000, 0x3000] @ [0x4000, 0x5000, 0x6000])"
    using sample_pool by (simp add: sample_frames_def)
  from pmem_alloc_takes_pool [OF this] show ?thesis by (auto simp: sample_def numeral_2_eq_2)
qed

text \<open>
  \<open>pmem_free\<close> takes a physical address and puts its frame in front of the pool, and the next
  \<open>pmem_alloc\<close> hands the same page out again by its virtual address (last in, first out).
\<close>

theorem pmem_free_alloc:
  assumes "pool s ps" "frame s p" "p \<notin> set ps"
  shows "pool (pmem_free p s) (p # ps)
    \<and> (\<exists>s'. pmem_alloc (pmem_free p s) = (p + hhdm s, s') \<and> pool s' ps)"
  using pm.free_cons [OF assms] pm.free_then_alloc [OF assms] by blast

lemma pmem_free_alloc_witness:
  "\<exists>s'. pmem_alloc (pmem_free 0x8000 sample) = (0x8000 + sample_hhdm, s') \<and> pool s' sample_frames"
proof -
  have "frame sample 0x8000" "0x8000 \<notin> set sample_frames"
    by (simp_all add: frame_def sample_def sample_hhdm_def sample_frames_def page_aligned_def
        take_bit_eq_mod)
  then show ?thesis using pmem_free_alloc [OF sample_pool] by (simp add: sample_def)
qed

subsection \<open>Mapping a page\<close>

text \<open>
  C3: when the page of \<open>va\<close> is not mapped and four frames are free, \<open>vm_map\<close> returns true; the
  hardware walk then sends exactly the addresses of that page to a frame taken from the pool, which
  is zeroed, with exactly the rights asked for, and every other user address goes where it went
  before. The tables it creates come from the pool too, the tree stays well formed and the TLB
  entry of the page is invalidated.
\<close>

theorem vm_map_fresh_page:
  assumes "space_ok s root ps" "va < 2 ^ 47" "4 \<le> length ps" "walk s root va = None"
  shows "\<exists>s' k. vm_map root va usr wr ex s = Inr (True, s') \<and> k < 4
    \<and> space_ok s' root (drop (Suc k) ps)
    \<and> (\<forall>va' < 2 ^ 47. walk s' root va' =
         (if drop_bit 12 va' = drop_bit 12 va
          then Some (ps ! k + take_bit 12 va', \<lparr>may_user = usr, may_write = wr, may_exec = ex\<rparr>)
          else walk s root va'))
    \<and> (\<forall>j < 512. load64 (mem s') (slot (ps ! k + hhdm s) j) = 0)
    \<and> cr3 s' = cr3 s \<and> tlb_ops s' = tlb_ops s @ [Invlpg (page_of va)]"
proof -
  have "lookup s root va = None"
    using assms(4) by (simp add: walk_lookup [OF assms(1,2)])
  with vm_map_spec [OF assms(1-3), of usr wr ex] obtain s' k where
    s': "vm_map root va usr wr ex s = Inr (True, s')" "k < 4" "space_ok s' root (drop (Suc k) ps)"
      "same_rest s s'" "tlb_ops s' = tlb_ops s @ [Invlpg (page_of va)]"
      "maps_page s root va usr wr ex (ps ! k) s'" "\<forall>j < 512. pte_at s' (ps ! k) j = pte_decode 0"
    by auto
  moreover have "load64 (mem s') (slot (ps ! k + hhdm s) j) = 0" if "j < 512" for j
  proof -
    have "pte_encode (pte_at s' (ps ! k) j) = pte_encode (pte_decode 0)" using s'(7) that by simp
    then show ?thesis
      using s'(4) unfolding pte_at_def get_pte_def pte_encode_decode by (simp add: same_rest_def)
  qed
  ultimately show ?thesis
    using maps_page_walk [OF assms(1) s'(3) s'(6) assms(2)] by (auto simp: same_rest_def)
qed

lemma vm_map_fresh_page_witness:
  "\<exists>s' k. vm_map 0x1000 0x7000123 True True False sample = Inr (True, s') \<and> k < 4
    \<and> walk s' 0x1000 0x7000456 =
        Some (sample_frames ! k + 0x456, \<lparr>may_user = True, may_write = True, may_exec = False\<rparr>)"
proof -
  have va: "(0x7000123 :: u64) < 2 ^ 47" "(0x7000456 :: u64) < 2 ^ 47"
    "drop_bit 12 (0x7000123 :: u64) = drop_bit 12 0x7000456" "take_bit 12 (0x7000456 :: u64) = 0x456"
    "4 \<le> length sample_frames"
    by (simp_all add: drop_bit_eq_div take_bit_eq_mod sample_frames_def)
  from vm_map_fresh_page [OF sample_space va(1,5) sample_walk [OF va(1)], of True True False] va
  show ?thesis by fastforce
qed

lemma levels: "(4 :: nat) = Suc (Suc (Suc (Suc 0)))" "(3 :: nat) = Suc (Suc (Suc 0))"
  "(2 :: nat) = Suc (Suc 0)"
  by simp_all

lemma vm_map_again:
  assumes "space_ok s root ps" "va < 2 ^ 47" "walk s root va \<noteq> None"
  shows "vm_map root va usr wr ex s = Inr (False, s)"
proof -
  obtain t where t: "table s root (upper va) = Some t" and e: "pte_present (pte_at s t (table_index 0 va))"
    using assms(3) by (auto simp: walk_lookup [OF assms(1,2)] lookup_def Let_def split: option.splits if_splits)
  show ?thesis
    using t e unfolding table_upper_steps Let_def vm_map_def levels
    by (simp add: pte_at_def [symmetric])
qed

text \<open>
  \<open>vm_map\<close> of a page that is already mapped returns false and changes nothing, whatever the
  pool holds.
\<close>

theorem vm_map_already_mapped:
  assumes "space_ok s root ps" "va < 2 ^ 47" "walk s root va \<noteq> None"
  shows "vm_map root va usr wr ex s = Inr (False, s)"
  by (rule vm_map_again [OF assms])

lemma vm_map_already_mapped_witness:
  "\<exists>s. vm_map 0x1000 0x400000 True False True sample = Inr (True, s)
    \<and> vm_map 0x1000 0x400000 True True False s = Inr (False, s)"
proof -
  obtain s k where s: "vm_map 0x1000 0x400000 True False True sample = Inr (True, s)"
    "space_ok s 0x1000 (drop (Suc k) sample_frames)"
    "walk s 0x1000 0x400000 = Some (sample_frames ! k, user_ro)"
    by (rule sample_fresh)
  have "vm_map 0x1000 0x400000 True True False s = Inr (False, s)"
    by (rule vm_map_already_mapped [OF s(2)]) (use s(3) in simp_all)
  with s(1) show ?thesis by blast
qed

text \<open>
  C32: with no page left, \<open>vm_map\<close> of an unmapped page does not return: the 0 that \<open>pmem_alloc\<close>
  answers is zeroed as if it were a page, which is a page fault at address 0 when the address space
  in use does not map it.
\<close>

theorem vm_map_no_memory:
  assumes "space_ok s root []" "va < 2 ^ 47" "walk s root va = None"
    and "walk s (cr3_root s) 0 = None"
  shows "vm_map root va usr wr ex s = Inl (PageFault 0)"
proof -
  have alloc: "pmem_alloc s = (0, s)"
    by (rule pmem_alloc_nil) (rule space_okD(1) [OF assms(1)])
  have zero: "kmemset 0 4096 s = Inl (PageFault 0)"
    by (rule kmemset_unmapped) (use assms(4) in simp_all)
  have "lookup s root va = None"
    using assms(3) by (simp add: walk_lookup [OF assms(1,2)])
  then show ?thesis
    unfolding vm_map_def lookup_def upper_def levels
    by (simp add: Let_def pte_at_def [symmetric] alloc zero split: if_splits)
qed

lemma vm_map_no_memory_witness:
  "vm_map 0x1000 0x7000000 True True False (sample\<lparr>free_list := 0\<rparr>) = Inl (PageFault 0)"
proof -
  have "cr3_root (sample\<lparr>free_list := 0\<rparr>) = 0x1000" by (simp add: cr3_root_def sample_def)
  then show ?thesis
    using vm_map_no_memory [OF space_ok_exhausted [OF sample_space]] by (simp add: sample_walk)
qed

subsection \<open>Changing and removing mappings\<close>

lemma lookup_path_cong: "path va' = path va \<Longrightarrow> lookup s root va' = lookup s root va"
  by (simp add: lookup_def path_def upper_def)

lemma same_page_path:
  assumes "va < 2 ^ 47" "va' < 2 ^ 47"
  shows "path va' = path va \<longleftrightarrow> drop_bit 12 va' = drop_bit 12 va"
proof -
  have "(2 :: u64) ^ 47 \<le> 2 ^ 48" by simp
  then show ?thesis using assms path_eq_iff [of va' va] less_le_trans by blast
qed

text \<open>
  C29: \<open>vm_protect\<close> of a mapped page returns true and replaces the rights of exactly that page by the
  ones given; the frame behind it, every other address and the pool stay as they were.
\<close>

theorem vm_protect_rights:
  assumes "space_ok s root ps" "va < 2 ^ 47" "walk s root va = Some (p, r)"
  shows "\<exists>s'. vm_protect root va usr wr ex s = (True, s') \<and> space_ok s' root ps
    \<and> free_list s' = free_list s
    \<and> (\<forall>va' < 2 ^ 47. walk s' root va' =
         (if drop_bit 12 va' = drop_bit 12 va
          then map_option (\<lambda>(q, _). (q, \<lparr>may_user = usr, may_write = wr, may_exec = ex\<rparr>)) (walk s root va')
          else walk s root va'))"
proof -
  obtain e where e: "lookup s root va = Some e"
    using assms(3) by (auto simp: walk_lookup [OF assms(1,2)])
  obtain s' where s': "vm_protect root va usr wr ex s = (True, s')" "space_ok s' root ps"
    "free_list s' = free_list s"
    "\<And>va'. va' < 2 ^ 47 \<Longrightarrow> lookup s' root va' =
       (if path va' = path va then Some (set_rights e usr wr ex) else lookup s root va')"
    using vm_protect_spec [OF assms(1,2) e] by metis
  then have "walk s' root va' =
      (if drop_bit 12 va' = drop_bit 12 va
       then map_option (\<lambda>(q, _). (q, \<lparr>may_user = usr, may_write = wr, may_exec = ex\<rparr>)) (walk s root va')
       else walk s root va')" if "va' < 2 ^ 47" for va'
    using that e lookup_path_cong [of va' va s root]
    by (auto simp: walk_lookup [OF assms(1)] walk_lookup [OF s'(2)] same_page_path [OF assms(2), symmetric])
  with s'(1-3) show ?thesis by blast
qed

lemma vm_protect_rights_witness:
  "\<exists>s k s'. vm_map 0x1000 0x400000 True False True sample = Inr (True, s) \<and> k < 4
    \<and> vm_protect 0x1000 0x400000 True True False s = (True, s')
    \<and> walk s' 0x1000 0x400000 =
        Some (sample_frames ! k, \<lparr>may_user = True, may_write = True, may_exec = False\<rparr>)"
proof -
  obtain s k where s: "vm_map 0x1000 0x400000 True False True sample = Inr (True, s)" "k < 4"
    "space_ok s 0x1000 (drop (Suc k) sample_frames)"
    "walk s 0x1000 0x400000 = Some (sample_frames ! k, user_ro)"
    by (rule sample_fresh)
  with vm_protect_rights [OF s(3) _ s(4), of True True False] show ?thesis by fastforce
qed

text \<open>
  \<open>vm_protect\<close> of a page that is not mapped returns false and changes nothing.
\<close>

theorem vm_protect_not_mapped:
  assumes "space_ok s root ps" "va < 2 ^ 47" "walk s root va = None"
  shows "vm_protect root va usr wr ex s = (False, s)"
  by (rule vm_protect_unmapped) (use assms(3) in \<open>simp add: walk_lookup [OF assms(1,2)]\<close>)

lemma vm_protect_not_mapped_witness:
  "vm_protect 0x1000 0x7000000 True True False sample = (False, sample)"
  by (rule vm_protect_not_mapped [OF sample_space]) (simp_all add: sample_walk)

text \<open>
  C25: \<open>vm_unmap\<close> of a mapped page removes exactly that page from the address space. The pool is the
  same as before: the frame of the page is not given back.
\<close>

theorem vm_unmap_page:
  assumes "space_ok s root ps" "va < 2 ^ 47" "walk s root va \<noteq> None"
  shows "\<exists>s'. vm_unmap root va s = (True, s') \<and> space_ok s' root ps
    \<and> (\<forall>va' < 2 ^ 47. walk s' root va' =
         (if drop_bit 12 va' = drop_bit 12 va then None else walk s root va'))"
proof -
  obtain t where t: "table s root (upper va) = Some t"
    using assms(3) by (auto simp: walk_lookup [OF assms(1,2)] lookup_def split: option.splits)
  obtain s' where s': "vm_unmap root va s = (True, s')" "space_ok s' root ps"
    "\<And>va'. va' < 2 ^ 47 \<Longrightarrow> lookup s' root va' = (if path va' = path va then None else lookup s root va')"
    using vm_unmap_spec [OF assms(1,2) t] by metis
  then have "walk s' root va' = (if drop_bit 12 va' = drop_bit 12 va then None else walk s root va')"
    if "va' < 2 ^ 47" for va'
    using that by (simp add: walk_lookup [OF assms(1)] walk_lookup [OF s'(2)]
        same_page_path [OF assms(2), symmetric])
  with s'(1,2) show ?thesis by blast
qed

lemma vm_unmap_page_witness:
  "\<exists>s s'. vm_map 0x1000 0x400000 True False True sample = Inr (True, s)
    \<and> vm_unmap 0x1000 0x400000 s = (True, s') \<and> walk s 0x1000 0x400000 \<noteq> None
    \<and> walk s' 0x1000 0x400000 = None"
proof -
  obtain s k where s: "vm_map 0x1000 0x400000 True False True sample = Inr (True, s)" "k < 4"
    "space_ok s 0x1000 (drop (Suc k) sample_frames)"
    "walk s 0x1000 0x400000 = Some (sample_frames ! k, user_ro)"
    by (rule sample_fresh)
  with vm_unmap_page [OF s(3), of "0x400000"] show ?thesis by fastforce
qed

lemma index_u16: "ucast ((ucast w :: u16) AND 0x1ff) = (w AND 0x1ff :: u64)"
proof (rule bit_word_eqI)
  have eq: "(0x1ff :: u16) = mask 9" "(0x1ff :: u64) = mask 9" by (simp_all add: mask_eq_exp_minus_1)
  fix n assume "n < LENGTH(64)"
  then show "bit (ucast ((ucast w :: u16) AND 0x1ff) :: u64) n = bit (w AND 0x1ff) n"
    unfolding eq by (auto simp: bits)
qed

lemma pte_frame_mask: "pte_frame e AND 0xFFFFFFFFFFFFF000 = pte_frame e"
proof (rule bit_word_eqI)
  fix n assume "n < LENGTH(64)"
  then show "bit (pte_frame e AND 0xFFFFFFFFFFFFF000) n = bit (pte_frame e) n"
    unfolding bit_and_iff bit_page_mask by (auto simp: pte_frame_def bits)
qed

text \<open>
  C9: the address \<open>translate\<close> prints for a mapped address is the one the hardware walk goes to.
\<close>

theorem translate_walk:
  assumes "space_ok s root ps" "va < 2 ^ 47" "walk s root va = Some (p, r)"
  shows "snd (translate root va s) = p"
proof -
  obtain e where e: "lookup s root va = Some e" "p = pte_frame e + take_bit 12 va"
    using assms(3) by (auto simp: walk_lookup [OF assms(1,2)])
  have off: "va AND 0xfff = take_bit 12 va"
    by (simp add: take_bit_eq_mask mask_eq_exp_minus_1)
  obtain t where t: "table s root (upper va) = Some t" "e = pte_at s t (table_index 0 va)"
    using e(1) by (auto simp: lookup_def Let_def split: option.splits if_splits)
  have idx: "drop_bit (39 - 9 * (3 - k)) va AND 0x1ff = table_index k va" if "k < 4" for k
  proof -
    have "39 - 9 * (3 - k) = 12 + 9 * k" using that by linarith
    then show ?thesis by (simp add: table_index_def)
  qed
  show ?thesis
    using t unfolding table_upper_steps translate_def levels(1)
    by (simp add: Let_def index_u16 pte_frame_mask pte_at_def [symmetric] e(2) off
      idx [of 0, simplified] idx [of 1, simplified] idx [of 2, simplified] idx [of 3, simplified] split: prod.split)
qed

lemma translate_walk_witness:
  "\<exists>s k. vm_map 0x1000 0x400000 True False True sample = Inr (True, s) \<and> k < 4
    \<and> snd (translate 0x1000 0x400000 s) = sample_frames ! k"
proof -
  obtain s k where s: "vm_map 0x1000 0x400000 True False True sample = Inr (True, s)" "k < 4"
    "space_ok s 0x1000 (drop (Suc k) sample_frames)"
    "walk s 0x1000 0x400000 = Some (sample_frames ! k, user_ro)"
    by (rule sample_fresh)
  with translate_walk [OF s(3) _ s(4)] show ?thesis by fastforce
qed

end
