(* ===== verification/Teardown.thy ===== *)
theory Teardown
  imports Paging_Props
begin

text \<open>
  \<open>unmap_lower_half\<close> of \<open>kernel/paging.c\<close>. It walks the user half of the tree depth first and gives
  the frame of every page table back to the pool, while it still reads entries of tables it is
  about to free. \<open>table_paths\<close> is the order it visits the tables in; the lemmas show level by
  level that what it reads is not disturbed by the frames it has already freed.
\<close>

subsection \<open>The tables below an entry, in the order they are freed\<close>

definition paths_l3 :: "u64 \<Rightarrow> u64 \<Rightarrow> u64 list list" where
  "paths_l3 i j = map (\<lambda>k. [i, j, k]) (indices 512) @ [[i, j]]"

definition paths_l4 :: "u64 \<Rightarrow> u64 list list" where
  "paths_l4 i = concat (map (paths_l3 i) (indices 512)) @ [[i]]"

definition table_paths :: "u64 list list" where
  "table_paths = concat (map paths_l4 (indices 256))"

definition tables_at :: "kstate \<Rightarrow> u64 \<Rightarrow> u64 list list \<Rightarrow> u64 list" where
  "tables_at s root iss = List.map_filter (table s root) iss"

lemma tables_at_simps [simp]:
  "tables_at s root [] = []"
  "tables_at s root (is # iss) =
     (case table s root is of None \<Rightarrow> tables_at s root iss | Some t \<Rightarrow> t # tables_at s root iss)"
  "tables_at s root (iss @ jss) = tables_at s root iss @ tables_at s root jss"
  by (simp_all add: tables_at_def List.map_filter_def split: option.split)

lemma set_tables_at: "t \<in> set (tables_at s root iss) \<longleftrightarrow> (\<exists>is \<in> set iss. table s root is = Some t)"
  by (induction iss) (auto split: option.split)

lemma tables_at_cong:
  assumes "\<And>is. is \<in> set iss \<Longrightarrow> table s' root is = table s root is"
  shows "tables_at s' root iss = tables_at s root iss"
  using assms by (induction iss) (auto split: option.split)

lemma tables_at_none:
  assumes "\<And>is. is \<in> set iss \<Longrightarrow> table s root is = None"
  shows "tables_at s root iss = []"
  using assms by (induction iss) auto

lemma distinct_tables_at:
  assumes "space_ok s root ps" "distinct iss" "\<forall>is \<in> set iss. upath is"
  shows "distinct (tables_at s root iss)"
  using assms(2,3)
proof (induction iss)
  case (Cons "is" iss)
  have "t \<notin> set (tables_at s root iss)" if "table s root is = Some t" for t
    using space_okD(5) [OF assms(1) _ _ that] Cons.prems by (auto simp: set_tables_at)
  with Cons show ?case by (auto split: option.split)
qed simp

lemma indices_less:
  assumes "n \<le> 512" "i \<in> set (indices n)"
  shows "i < of_nat n" "i < 512"
proof -
  obtain k where k: "i = of_nat k" "k < n" using assms(2) by (auto simp: indices_def)
  have "unat i = k" using k assms(1) by (simp add: unat_of_nat)
  moreover have "unat (of_nat n :: u64) = n" using assms(1) by (simp add: unat_of_nat)
  ultimately show "i < of_nat n" "i < 512" using k assms(1) by (simp_all add: word_less_nat_alt)
qed

lemma distinct_indices: "n \<le> 512 \<Longrightarrow> distinct (indices n)"
  unfolding indices_def distinct_map
  by (intro conjI inj_onI) (auto dest: arg_cong [where f = unat] simp: unat_of_nat)

lemma in_indices: "unat i < n \<Longrightarrow> i \<in> set (indices n)"
  by (auto simp: indices_def intro!: image_eqI [of _ _ "unat i"])

lemma distinct_paths_l3: "distinct (paths_l3 i j)"
  by (auto simp: paths_l3_def distinct_map inj_on_def distinct_indices)

lemma distinct_concat_map:
  assumes "distinct xs" "\<And>x. x \<in> set xs \<Longrightarrow> distinct (f x)"
    and "\<And>x y z. x \<in> set xs \<Longrightarrow> y \<in> set xs \<Longrightarrow> z \<in> set (f x) \<Longrightarrow> z \<in> set (f y) \<Longrightarrow> x = y"
  shows "distinct (concat (map f xs))"
  using assms
proof (induction xs)
  case (Cons x xs)
  then have "set (f x) \<inter> set (concat (map f xs)) = {}" by fastforce
  with Cons show ?case by auto
qed simp

lemma distinct_paths_l4: "distinct (paths_l4 i)"
  unfolding paths_l4_def distinct_append
  by (intro conjI distinct_concat_map distinct_paths_l3) (auto simp: distinct_indices paths_l3_def)

lemma distinct_table_paths: "distinct table_paths"
  unfolding table_paths_def
  by (intro distinct_concat_map distinct_paths_l4) (auto simp: distinct_indices paths_l4_def paths_l3_def)

lemma upath_paths:
  assumes "is \<in> set (paths_l4 i)" "i \<in> set (indices 256)"
  shows "upath is" "is \<noteq> []" "length is \<le> 3" "hd is = i"
  using assms indices_less [of 256 i] indices_less [of 512]
  by (auto simp: paths_l4_def paths_l3_def upath_def)

lemma table_paths_iff:
  "is \<in> set table_paths \<longleftrightarrow> upath is \<and> is \<noteq> [] \<and> length is \<le> 3"
proof
  assume "is \<in> set table_paths"
  then show "upath is \<and> is \<noteq> [] \<and> length is \<le> 3"
    using upath_paths by (auto simp: table_paths_def)
next
  assume a: "upath is \<and> is \<noteq> [] \<and> length is \<le> 3"
  have mem: "i \<in> set (indices 512)" if "i < 512" for i
    using that by (intro in_indices) (simp add: word_less_nat_alt)
  from a obtain i js where i: "is = i # js" by (cases "is") auto
  have "i \<in> set (indices 256)" using a i by (intro in_indices) (simp add: upath_def word_less_nat_alt)
  moreover have "is \<in> set (paths_l4 i)"
    using a mem by (auto simp: i upath_def paths_l4_def paths_l3_def length_Suc_conv le_Suc_eq numeral_eq_Suc)
  ultimately show "is \<in> set table_paths" by (auto simp: table_paths_def)
qed

subsection \<open>Freeing frames that are no longer read\<close>

lemma pte_at_free:
  assumes "page_aligned (hhdm s)" "page_aligned p" "page_aligned t" "t \<noteq> p" "i < 512"
  shows "pte_at (pmem_free p s) t i = pte_at s t i"
  using assms load64_store64_slot [of "p + hhdm s" 0 "t + hhdm s" i "mem s" "free_list s"]
  by (simp add: pte_at_def get_pte_def pmem_free_def Let_def slot_0)

lemma pmem_free_rest [simp]:
  "hhdm (pmem_free p s) = hhdm s" "tlb_ops (pmem_free p s) = tlb_ops s" "cr3 (pmem_free p s) = cr3 s"
  "cr0_wp (pmem_free p s) = cr0_wp s" "v_heap (pmem_free p s) = v_heap s"
  by (simp_all add: pmem_free_def Let_def)

lemma free_all_rest:
  "same_rest s (fold pmem_free fs s) \<and> tlb_ops (fold pmem_free fs s) = tlb_ops s"
  by (induction fs arbitrary: s) (simp_all add: same_rest_def)

lemma hhdm_free_all [simp]: "hhdm (fold pmem_free fs s) = hhdm s"
  using free_all_rest [of s fs] by (simp add: same_rest_def)

lemma pte_at_free_all:
  assumes "page_aligned (hhdm s)" "\<forall>p \<in> set fs. page_aligned p" "page_aligned t" "t \<notin> set fs" "i < 512"
  shows "pte_at (fold pmem_free fs s) t i = pte_at s t i"
  using assms by (induction fs arbitrary: s) (simp_all add: pte_at_free)

text \<open>The frames behind the entries \<open>is\<close> of the table \<open>t\<close>, and those of the tables below them.\<close>

definition link_of :: "kstate \<Rightarrow> u64 \<Rightarrow> u64 \<Rightarrow> u64 option" where
  "link_of s t i = (let e = pte_at s t i in
     if pte_present e \<and> \<not> pte_page_size e then Some (pte_frame e) else None)"

definition kids :: "kstate \<Rightarrow> u64 \<Rightarrow> u64 list \<Rightarrow> u64 list" where
  "kids s t is = concat (map (\<lambda>i. case link_of s t i of None \<Rightarrow> [] | Some u \<Rightarrow> [u]) is)"

definition subtree :: "kstate \<Rightarrow> u64 \<Rightarrow> u64 list \<Rightarrow> u64 list" where
  "subtree s t is = concat (map (\<lambda>i. case link_of s t i of None \<Rightarrow> []
     | Some u \<Rightarrow> kids s u (indices 512) @ [u]) is)"

lemma kids_simps [simp]:
  "kids s t [] = []"
  "kids s t (i # is) = (case link_of s t i of None \<Rightarrow> [] | Some u \<Rightarrow> [u]) @ kids s t is"
  by (simp_all add: kids_def)

lemma subtree_simps [simp]:
  "subtree s t [] = []"
  "subtree s t (i # is) = (case link_of s t i of None \<Rightarrow> []
     | Some u \<Rightarrow> kids s u (indices 512) @ [u]) @ subtree s t is"
  by (simp_all add: subtree_def)

lemma link_of_aligned: "link_of s t i = Some u \<Longrightarrow> page_aligned u"
  by (auto simp: link_of_def Let_def split: if_splits)

lemma kids_aligned: "u \<in> set (kids s t is) \<Longrightarrow> page_aligned u"
  by (auto simp: kids_def dest: link_of_aligned [OF sym] split: option.splits)

lemma subtree_aligned: "u \<in> set (subtree s t is) \<Longrightarrow> page_aligned u"
  by (auto simp: subtree_def dest: link_of_aligned [OF sym] kids_aligned split: option.splits)

lemma link_of_cong: "pte_at s' t i = pte_at s t i \<Longrightarrow> link_of s' t i = link_of s t i"
  by (simp add: link_of_def)

lemma kids_cong:
  assumes "\<And>i. i \<in> set is \<Longrightarrow> pte_at s' t i = pte_at s t i"
  shows "kids s' t is = kids s t is"
proof -
  have "link_of s' t i = link_of s t i" if "i \<in> set is" for i
    by (rule link_of_cong) (rule assms [OF that])
  then show ?thesis unfolding kids_def by (intro arg_cong [where f = concat] map_cong) simp_all
qed

lemma subtree_cong:
  assumes "\<And>i. i \<in> set is \<Longrightarrow> pte_at s' t i = pte_at s t i"
    and "\<And>u i. u \<in> set (subtree s t is) \<Longrightarrow> i < 512 \<Longrightarrow> pte_at s' u i = pte_at s u i"
  shows "subtree s' t is = subtree s t is"
  using assms
proof (induction "is")
  case (Cons i "is")
  have "kids s' u (indices 512) = kids s u (indices 512)" if "link_of s t i = Some u" for u
    using Cons.prems(2) [of u] that indices_less(2) [of 512] by (intro kids_cong) auto
  moreover have "link_of s' t i = link_of s t i" by (rule link_of_cong) (simp add: Cons.prems(1))
  moreover have "subtree s' t is = subtree s t is"
    using Cons.prems by (intro Cons.IH) (simp_all del: subtree_simps(1))
  ultimately show ?case by (simp split: option.split)
qed simp

lemma unmap_l2_link:
  "unmap_l2_entry (t + hhdm s) i s = (case link_of s t i of None \<Rightarrow> s | Some u \<Rightarrow> pmem_free u s)"
  by (simp add: unmap_l2_entry_def link_of_def pte_at_def Let_def)

lemma unmap_l2_fold:
  assumes "page_aligned (hhdm s)" "page_aligned t" "\<forall>i \<in> set is. i < 512" "t \<notin> set (kids s t is)"
  shows "fold (unmap_l2_entry (t + hhdm s)) is s = fold pmem_free (kids s t is) s"
  using assms
proof (induction "is" arbitrary: s)
  case (Cons i "is")
  show ?case
  proof (cases "link_of s t i")
    case None
    then show ?thesis using Cons by (simp add: unmap_l2_link)
  next
    case (Some u)
    have "pte_at (pmem_free u s) t j = pte_at s t j" if "j \<in> set is" for j
      using that Cons.prems Some link_of_aligned [OF Some] by (intro pte_at_free) auto
    then have eq: "kids (pmem_free u s) t is = kids s t is" by (rule kids_cong)
    have "fold (unmap_l2_entry (t + hhdm s)) is (pmem_free u s) = fold pmem_free (kids s t is) (pmem_free u s)"
      using Cons.IH [of "pmem_free u s"] Cons.prems Some by (simp add: eq)
    then show ?thesis using Some by (simp add: unmap_l2_link)
  qed
qed simp

lemma unmap_l3_link:
  assumes "page_aligned (hhdm s)" "page_aligned t" "i < 512"
    and "\<And>u. link_of s t i = Some u \<Longrightarrow> u \<notin> set (kids s u (indices 512)) \<and> t \<notin> set (kids s u (indices 512))"
  shows "unmap_l3_entry (t + hhdm s) i s = (case link_of s t i of None \<Rightarrow> s
    | Some u \<Rightarrow> fold pmem_free (kids s u (indices 512) @ [u]) s)"
proof (cases "link_of s t i")
  case None
  then show ?thesis by (auto simp: unmap_l3_entry_def link_of_def pte_at_def Let_def)
next
  case (Some u)
  let ?s1 = "fold pmem_free (kids s u (indices 512)) s"
  have e: "pte_present (pte_at s t i)" "\<not> pte_page_size (pte_at s t i)" "pte_frame (pte_at s t i) = u"
    using Some by (auto simp: link_of_def Let_def split: if_splits)
  have s1: "fold (unmap_l2_entry (u + hhdm s)) (indices 512) s = ?s1"
    using assms(1,4) Some link_of_aligned [OF Some] indices_less(2) [of 512] by (intro unmap_l2_fold) auto
  have "pte_at ?s1 t i = pte_at s t i"
    using assms Some kids_aligned by (intro pte_at_free_all) auto
  then show ?thesis
    using Some e s1 by (simp add: unmap_l3_entry_def ptov_def pte_at_def Let_def)
qed

lemma unmap_l3_fold:
  assumes "page_aligned (hhdm s)" "page_aligned t" "\<forall>i \<in> set is. i < 512"
    and "t \<notin> set (subtree s t is)" "distinct (subtree s t is)"
  shows "fold (unmap_l3_entry (t + hhdm s)) is s = fold pmem_free (subtree s t is) s"
  using assms
proof (induction "is" arbitrary: s)
  case (Cons i "is")
  let ?f = "case link_of s t i of None \<Rightarrow> [] | Some u \<Rightarrow> kids s u (indices 512) @ [u]"
  have step: "unmap_l3_entry (t + hhdm s) i s = fold pmem_free ?f s"
    using Cons.prems by (subst unmap_l3_link) (auto split: option.split)
  have al: "\<forall>p \<in> set ?f. page_aligned p"
    using link_of_aligned kids_aligned by (auto split: option.split)
  have disj: "set ?f \<inter> set (subtree s t is) = {}" "t \<notin> set ?f"
    using Cons.prems(4,5) by (simp_all only: subtree_simps distinct_append) auto
  have eq: "subtree (fold pmem_free ?f s) t is = subtree s t is"
  proof (rule subtree_cong)
    fix j assume "j \<in> set is"
    then show "pte_at (fold pmem_free ?f s) t j = pte_at s t j"
      using Cons.prems(1-3) disj(2) al by (intro pte_at_free_all) auto
  next
    fix u j assume "u \<in> set (subtree s t is)" "j < (512 :: u64)"
    then show "pte_at (fold pmem_free ?f s) u j = pte_at s u j"
      using Cons.prems(1) disj(1) al subtree_aligned by (intro pte_at_free_all) auto
  qed
  have "fold (unmap_l3_entry (t + hhdm s)) is (fold pmem_free ?f s)
      = fold pmem_free (subtree s t is) (fold pmem_free ?f s)"
    using Cons.IH [of "fold pmem_free ?f s"] Cons.prems unfolding eq by simp
  then show ?case by (simp add: step)
qed simp

subsection \<open>The tree below a top-level entry\<close>

lemma link_of_table:
  assumes ok: "space_ok s root ps" and up: "upath (is @ [i])" and len: "length is \<le> 2"
    and t: "table s root is = Some t"
  shows "link_of s t i = table s root (is @ [i])"
  using space_okD(7) [OF ok up len t] t by (simp add: link_of_def table_snoc plain_def Let_def)

lemma tables_at_concat_Nil: "tables_at s root (concat []) = []"
  by simp

lemma kids_tables:
  assumes ok: "space_ok s root ps" and i: "i < 256" and j: "j < 512"
    and u: "table s root [i, j] = Some u" and ks: "\<forall>k \<in> set ks. k < 512"
  shows "kids s u ks = tables_at s root (map (\<lambda>k. [i, j, k]) ks)"
  using ks
proof (induction ks)
  case (Cons k ks)
  have "i < 512" using i by unat_arith
  then have "link_of s u k = table s root [i, j, k]"
    using link_of_table [OF ok, of "[i, j]" k u] i j u Cons.prems by (simp add: upath_def del: table.simps)
  with Cons show ?case by (simp del: table.simps split: option.split)
qed simp

lemma table_prefix_none: "table s root is = None \<Longrightarrow> table s root (is @ js) = None"
  by (simp add: table_append)

lemma subtree_tables:
  assumes ok: "space_ok s root ps" and i: "i < 256" and t: "table s root [i] = Some t"
    and js: "\<forall>j \<in> set js. j < 512"
  shows "subtree s t js = tables_at s root (concat (map (paths_l3 i) js))"
  using js
proof (induction js)
  case (Cons j js)
  have i512: "i < 512" using i by unat_arith
  have link: "link_of s t j = table s root [i, j]"
    using link_of_table [OF ok, of "[i]" j t] i i512 t Cons.prems by (simp add: upath_def del: table.simps)
  have "(case link_of s t j of None \<Rightarrow> [] | Some u \<Rightarrow> kids s u (indices 512) @ [u])
      = tables_at s root (paths_l3 i j)"
  proof (cases "table s root [i, j]")
    case None
    then have "table s root [i, j, k] = None" for k
      using table_prefix_none [OF None, of "[k]"] by simp
    then have "tables_at s root (paths_l3 i j) = []"
      using None by (intro tables_at_none) (auto simp: paths_l3_def simp del: table.simps)
    then show ?thesis using None link by simp
  next
    case (Some u)
    then show ?thesis
      using kids_tables [OF ok i _ Some, of "indices 512"] Cons.prems indices_less(2) [of 512] link
      by (simp add: paths_l3_def del: table.simps)
  qed
  with Cons show ?case by (simp del: table.simps)
qed simp

lemma tables_l4:
  assumes ok: "space_ok s root ps" and i: "i < 256"
  shows "tables_at s root (paths_l4 i) = (case table s root [i] of None \<Rightarrow> []
    | Some t \<Rightarrow> subtree s t (indices 512) @ [t])"
proof (cases "table s root [i]")
  case None
  have "table s root is = None" if "is \<in> set (paths_l4 i)" for "is"
  proof -
    have "hd is = i" "is \<noteq> []" using that by (auto simp: paths_l4_def paths_l3_def)
    then have "is = [i] @ tl is" by (cases "is") auto
    then show ?thesis using table_prefix_none [OF None, of "tl is"] by metis
  qed
  then show ?thesis using None by (simp add: tables_at_none del: table.simps)
next
  case (Some t)
  then show ?thesis
    using subtree_tables [OF ok i Some, of "indices 512"] indices_less(2) [of 512]
    by (simp add: paths_l4_def del: table.simps)
qed

subsection \<open>One top-level entry\<close>

definition clear_entry :: "u64 \<Rightarrow> u64 \<Rightarrow> kstate \<Rightarrow> kstate" where
  "clear_entry root i s =
     s\<lparr>mem := set_pte (mem s) (slot (root + hhdm s) i) ((pte_at s root i)\<lparr>pte_present := False\<rparr>)\<rparr>"

lemma clear_entry_rest [simp]:
  "hhdm (clear_entry root i s) = hhdm s" "tlb_ops (clear_entry root i s) = tlb_ops s"
  "same_rest s (clear_entry root i s)"
  by (simp_all add: clear_entry_def same_rest_def)

lemma pte_at_clear:
  assumes "page_aligned (hhdm s)" "page_aligned root" "page_aligned t" "i < 512" "j < 512"
  shows "pte_at (clear_entry root i s) t j =
    (if t = root \<and> j = i then (pte_at s root i)\<lparr>pte_present := False\<rparr> else pte_at s t j)"
  using assms by (auto simp: clear_entry_def pte_at_def mem_simps)

lemma pool_clear:
  assumes pool: "pool s ps" and root: "page_aligned root" "root \<notin> set ps" and i: "i < 512"
  shows "pool (clear_entry root i s) ps"
proof (rule pool_cong [OF pool])
  have h: "page_aligned (hhdm s)" using pool_hhdm_ok [OF pool] by (simp add: hhdm_ok_def)
  fix q assume q: "q \<in> set ps"
  then have "q \<noteq> root" "page_aligned q" using root(2) pool_frame [OF pool q] by (auto simp: frame_def)
  then have "load64 (mem (clear_entry root i s)) (slot (q + hhdm s) 0) = load64 (mem s) (slot (q + hhdm s) 0)"
    using h root i by (simp add: clear_entry_def mem_simps)
  then show "load64 (mem (clear_entry root i s)) (q + hhdm s) = load64 (mem s) (q + hhdm s)"
    by (simp add: slot_0)
qed (simp_all add: clear_entry_def)

lemma unmap_l4_link:
  assumes h: "page_aligned (hhdm s)" and root: "page_aligned root" and i: "i < 512"
    and t: "pte_present (pte_at s root i)" "pte_frame (pte_at s root i) = t" "page_aligned t" "t \<noteq> root"
    and sub: "root \<notin> set (subtree s t (indices 512))" "distinct (subtree s t (indices 512) @ [t])"
  shows "unmap_l4_entry (root + hhdm s) i s
    = fold pmem_free (subtree s t (indices 512) @ [t]) (clear_entry root i s)"
proof -
  let ?s1 = "clear_entry root i s" and ?is = "indices 512 :: u64 list"
  have less: "\<forall>i \<in> set ?is. i < 512" using indices_less(2) [of 512] by auto
  have eq: "subtree ?s1 t ?is = subtree s t ?is"
  proof (rule subtree_cong)
    fix j assume "j \<in> set ?is"
    then show "pte_at ?s1 t j = pte_at s t j" using pte_at_clear [OF h root t(3) i] t less by auto
  next
    fix u j assume "u \<in> set (subtree s t ?is)" "j < (512 :: u64)"
    then show "pte_at ?s1 u j = pte_at s u j"
      using pte_at_clear [OF h root _ i] sub subtree_aligned by metis
  qed
  let ?s2 = "fold pmem_free (subtree s t ?is) ?s1"
  have e1: "get_pte (mem ?s1) (slot (root + hhdm s) i) = (pte_at s root i)\<lparr>pte_present := False\<rparr>"
    by (simp add: clear_entry_def)
  have s2: "fold (unmap_l3_entry (t + hhdm s)) ?is ?s1 = ?s2"
    using unmap_l3_fold [of ?s1 t ?is] h t less sub by (simp add: eq)
  have "pte_at ?s2 root i = pte_at ?s1 root i"
    using h root i sub subtree_aligned by (intro pte_at_free_all) auto
  then have e2: "pte_frame (get_pte (mem ?s2) (slot (root + hhdm s) i)) = t"
    using e1 t(2) by (simp add: pte_at_def pte_frame_def)
  have frame1: "pte_frame ((pte_at s root i)\<lparr>pte_present := False\<rparr>) = t"
    using t(2) by (simp add: pte_frame_def)
  have clr: "s\<lparr>mem := set_pte (mem s) (slot (root + hhdm s) i)
      ((get_pte (mem s) (slot (root + hhdm s) i))\<lparr>pte_present := False\<rparr>)\<rparr> = ?s1"
    by (simp add: clear_entry_def pte_at_def)
  show ?thesis
    using t(1) e1 e2 s2 frame1 unfolding unmap_l4_entry_def ptov_def Let_def clr
    by (simp add: pte_at_def)
qed

subsection \<open>The whole lower half\<close>

text \<open>
  After the entries \<open>is\<close> have been visited: their tables are in the pool, their top-level entries
  are cleared, and every page that is not in the pool is as it was.
\<close>

definition torn :: "kstate \<Rightarrow> u64 \<Rightarrow> u64 list \<Rightarrow> u64 list \<Rightarrow> kstate \<Rightarrow> bool" where
  "torn s root ps is s' \<longleftrightarrow>
     (let fs = tables_at s root (concat (map paths_l4 is)) in
      pool s' (rev fs @ ps) \<and> same_rest s s' \<and> tlb_ops s' = tlb_ops s
      \<and> (\<forall>u j. page_aligned u \<longrightarrow> u \<notin> set fs \<longrightarrow> j < 512 \<longrightarrow> pte_at s' u j =
           (if u = root \<and> j \<in> set is \<and> pte_present (pte_at s root j)
            then (pte_at s root j)\<lparr>pte_present := False\<rparr> else pte_at s u j)))"

lemma torn_frames:
  assumes ok: "space_ok s root ps" and "is": "set is \<subseteq> set (indices 256)"
    and t: "t \<in> set (tables_at s root (concat (map paths_l4 is)))"
  shows "frame s t" "t \<noteq> root" "t \<notin> set ps"
proof -
  obtain i js where js: "i \<in> set is" "js \<in> set (paths_l4 i)" "table s root js = Some t"
    using t by (auto simp: set_tables_at)
  then have up: "upath js" "js \<noteq> []" using upath_paths "is" by blast+
  show "frame s t" "t \<notin> set ps" using space_okD(6,9) [OF ok] up js(3) by blast+
  show "t \<noteq> root" using space_okD(5) [OF ok up(1), of "[]"] up js(3) by auto
qed

lemma torn_step:
  assumes ok: "space_ok s root ps" and "is": "distinct (is @ [i])" "set (is @ [i]) \<subseteq> set (indices 256)"
    and torn: "torn s root ps is s'"
  shows "torn s root ps (is @ [i]) (unmap_l4_entry (root + hhdm s) i s')"
proof -
  let ?fs = "tables_at s root (concat (map paths_l4 is))" and ?gs = "tables_at s root (paths_l4 i)"
  have hh: "hhdm s' = hhdm s" and pool': "pool s' (rev ?fs @ ps)"
    and rest': "same_rest s s'" "tlb_ops s' = tlb_ops s"
    and pte': "\<And>u j. page_aligned u \<Longrightarrow> u \<notin> set ?fs \<Longrightarrow> j < 512 \<Longrightarrow> pte_at s' u j =
      (if u = root \<and> j \<in> set is \<and> pte_present (pte_at s root j)
       then (pte_at s root j)\<lparr>pte_present := False\<rparr> else pte_at s u j)"
    using torn by (simp_all add: torn_def Let_def same_rest_def)
  have i: "i < 256" "i < 512" using "is"(2) indices_less [of 256 i] by auto
  have root: "page_aligned root" and h: "page_aligned (hhdm s')" using space_okD(2,4) [OF ok] hh by auto
  have all: "distinct (?fs @ ?gs)"
  proof -
    have "distinct (concat (map paths_l4 (is @ [i])))"
      using "is"(1) by (intro distinct_concat_map distinct_paths_l4)
        (auto simp: paths_l4_def paths_l3_def)
    moreover have "\<forall>js \<in> set (concat (map paths_l4 (is @ [i]))). upath js"
      using "is"(2) upath_paths(1) by fastforce
    ultimately have "distinct (tables_at s root (concat (map paths_l4 (is @ [i]))))"
      by (rule distinct_tables_at [OF ok])
    then show ?thesis by simp
  qed
  have fr: "frame s t \<and> t \<noteq> root \<and> t \<notin> set ps" if "t \<in> set (?fs @ ?gs)" for t
    using torn_frames [OF ok "is"(2), of t] that by simp
  have rootin: "root \<notin> set (?fs @ ?gs)" "root \<notin> set ps"
    using fr space_okD(6) [OF ok upath_Nil] by auto
  have rootfs: "root \<notin> set ?fs" using rootin(1) by simp
  have "i \<notin> set is" using "is"(1) by simp
  with pte' [OF root rootfs i(2)] have e: "pte_at s' root i = pte_at s root i" by simp
  have gs: "?gs = (case table s root [i] of None \<Rightarrow> [] | Some t \<Rightarrow> subtree s t (indices 512) @ [t])"
    by (rule tables_l4 [OF ok i(1)])
  show ?thesis
  proof (cases "pte_present (pte_at s root i)")
    case False
    then have none: "unmap_l4_entry (root + hhdm s) i s' = s'" "?gs = []"
      using e gs by (simp_all add: unmap_l4_entry_def pte_at_def hh)
    then show ?thesis using torn False by (auto simp: torn_def Let_def)
  next
    case True
    define t where "t = pte_frame (pte_at s root i)"
    have gs': "?gs = subtree s t (indices 512) @ [t]" using gs True by (simp add: t_def)
    have sub: "subtree s' t (indices 512) = subtree s t (indices 512)"
    proof (rule subtree_cong)
      fix j assume "j \<in> set (indices 512)"
      then have "j < 512" using indices_less(2) [of 512] by auto
      then show "pte_at s' t j = pte_at s t j"
        using pte' [of t j] fr [of t] all by (auto simp: gs' t_def)
    next
      fix u j assume u: "u \<in> set (subtree s t (indices 512))" "j < (512 :: u64)"
      then show "pte_at s' u j = pte_at s u j"
        using pte' [of u j] fr [of u] all subtree_aligned [OF u(1)] by (auto simp: gs')
    qed
    have te: "pte_frame (pte_at s' root i) = t" "pte_present (pte_at s' root i)"
      using e True by (simp_all add: t_def)
    have tt: "page_aligned t" "t \<noteq> root" using fr [of t] by (simp_all add: gs' frame_def)
    let ?c = "clear_entry root i s'"
    have step: "unmap_l4_entry (root + hhdm s) i s' = fold pmem_free ?gs ?c"
      unfolding gs' sub [symmetric] hh [symmetric]
      by (rule unmap_l4_link [OF h root i(2)])
        (use te tt all rootin in \<open>auto simp: gs' sub\<close>)
    have poolc: "pool ?c (rev ?fs @ ps)"
      by (rule pool_clear [OF pool' root _ i(2)]) (use rootin in auto)
    have "frame ?c = frame s" by (rule frame_cong) (simp add: hh)
    then have "pool (fold pmem_free ?gs ?c) (rev ?gs @ rev ?fs @ ps)"
      using fr all by (intro pm.free_all [OF poolc]) auto
    moreover have "same_rest s (fold pmem_free ?gs ?c) \<and> tlb_ops (fold pmem_free ?gs ?c) = tlb_ops s"
      using free_all_rest [of ?c ?gs] rest' same_rest_trans by (metis clear_entry_rest(2,3))
    moreover have "pte_at (fold pmem_free ?gs ?c) u j =
        (if u = root \<and> j \<in> set (is @ [i]) \<and> pte_present (pte_at s root j)
         then (pte_at s root j)\<lparr>pte_present := False\<rparr> else pte_at s u j)"
      if u: "page_aligned u" "u \<notin> set (?fs @ ?gs)" and j: "j < 512" for u j
    proof -
      have "pte_at (fold pmem_free ?gs ?c) u j = pte_at ?c u j"
        using h u j fr by (intro pte_at_free_all) (auto simp: frame_def)
      also have "\<dots> = (if u = root \<and> j = i then (pte_at s' root i)\<lparr>pte_present := False\<rparr> else pte_at s' u j)"
        by (rule pte_at_clear [OF h root u(1) i(2) j])
      finally show ?thesis using pte' [OF u(1) _ j] u(2) e True by auto
    qed
    ultimately show ?thesis by (simp add: torn_def Let_def step)
  qed
qed

lemma torn_all:
  assumes ok: "space_ok s root ps" and "is": "distinct is" "set is \<subseteq> set (indices 256)"
  shows "torn s root ps is (fold (unmap_l4_entry (root + hhdm s)) is s)"
  using "is"
proof (induction "is" rule: rev_induct)
  case Nil
  then show ?case using space_okD(1) [OF ok] by (simp add: torn_def)
next
  case (snoc i "is")
  then show ?case using torn_step [OF ok, of "is" i] by simp
qed

lemma torn_empty:
  assumes ok: "space_ok s root ps" and torn: "torn s root ps (indices 256) s'"
  shows "space_ok s' root (rev (tables_at s root table_paths) @ ps)"
    and "upath is \<Longrightarrow> is \<noteq> [] \<Longrightarrow> table s' root is = None"
proof -
  let ?fs = "tables_at s root table_paths"
  have pool': "pool s' (rev ?fs @ ps)" using torn by (simp add: torn_def table_paths_def Let_def)
  have root: "page_aligned root" "root \<notin> set ?fs"
    using space_okD(2) [OF ok] torn_frames(2) [OF ok, of "indices 256" root]
    by (auto simp: table_paths_def)
  have pte': "pte_at s' root i = (if pte_present (pte_at s root i)
      then (pte_at s root i)\<lparr>pte_present := False\<rparr> else pte_at s root i)" if "i < 256" for i
  proof -
    have "i \<in> set (indices 256)" using that by (intro in_indices) (simp add: word_less_nat_alt)
    moreover have "i < 512" using that by unat_arith
    ultimately show ?thesis using torn root by (simp add: torn_def table_paths_def Let_def)
  qed
  show none: "table s' root is = None" if "upath is" "is \<noteq> []" for "is"
    using that pte' by (cases "is") (auto simp: upath_def)
  show "space_ok s' root (rev ?fs @ ps)"
    unfolding space_ok_def
  proof (intro conjI allI impI)
    fix "is" js t
    assume a: "upath is" "upath js" "table s' root is = Some t" "table s' root js = Some t"
    then have "is = []" "js = []" using none by force+
    then show "is = js" by simp
  next
    fix "is" t assume a: "upath is" "table s' root is = Some t"
    then have "is = []" using none by force
    then show "t \<notin> set (rev ?fs @ ps)" using a root space_okD(6) [OF ok upath_Nil] by auto
  next
    fix "is" t assume "upath is" "is \<noteq> []" "table s' root is = Some t"
    then show "frame s' t" using none by force
  next
    fix "is" t i
    assume a: "upath (is @ [i])" "length is \<le> 2" "table s' root is = Some t"
    then have "is = []" using none upath_snocD by force
    then have "t = root" "i < 256" "plain (pte_at s root i)"
      using a space_okD(7) [OF ok, of "[]" i root] by (auto simp: upath_def)
    then show "plain (pte_at s' t i)" using pte' by (auto simp: plain_def)
  qed (use pool' root in auto)
qed

lemma space_ok_pool_cong:
  assumes "space_ok s root ps" "mem s' = mem s" "hhdm s' = hhdm s" "free_list s' = free_list s"
  shows "space_ok s' root ps"
proof -
  have pte: "pte_at s' = pte_at s" using assms(2,3) by (intro ext) (simp add: pte_at_def)
  have "table s' t is = table s t is" for t "is"
    by (induction "is" arbitrary: t) (simp_all add: pte)
  moreover have "pool s' ps" by (rule pool_cong [OF space_okD(1) [OF assms(1)]]) (use assms in auto)
  ultimately show ?thesis
    using assms(1) by (simp add: space_ok_def pte frame_cong [OF assms(3)])
qed

lemma unmap_lower_half_ok:
  assumes "space_ok s root ps"
  shows "space_ok (unmap_lower_half root s) root (rev (tables_at s root table_paths) @ ps)"
proof -
  define s1 where "s1 = fold (unmap_l4_entry (root + hhdm s)) (indices 256) s"
  have "torn s root ps (indices 256) s1"
    unfolding s1_def by (rule torn_all [OF assms distinct_indices subset_refl]) simp
  from torn_empty(1) [OF assms this] show ?thesis
    by (rule space_ok_pool_cong)
      (simp_all add: unmap_lower_half_def s1_def ptov_def reset_v_heap_def write_cr3_def read_cr3_def Let_def)
qed

text \<open>
  C10: \<open>unmap_lower_half\<close> leaves no user address mapped, and the pool is exactly the old one with
  the page tables of the user half in front, last visited first: no table is lost or freed twice,
  and no mapped page is freed. The kernel half of the top-level table is untouched, the virtual
  heap pointer is reset and \<open>cr3\<close> is reloaded to flush the TLB.
\<close>

theorem unmap_lower_half_reclaims:
  assumes "space_ok s root ps"
  shows "space_ok (unmap_lower_half root s) root (rev (tables_at s root table_paths) @ ps)
    \<and> (\<forall>va < 2 ^ 47. walk (unmap_lower_half root s) root va = None)
    \<and> (\<forall>t. t \<in> set (tables_at s root table_paths) \<longleftrightarrow>
         (\<exists>is. upath is \<and> is \<noteq> [] \<and> length is \<le> 3 \<and> table s root is = Some t))
    \<and> (\<forall>i < 512. 256 \<le> i \<longrightarrow> pte_at (unmap_lower_half root s) root i = pte_at s root i)
    \<and> v_heap (unmap_lower_half root s) = 0x10000 \<and> cr3 (unmap_lower_half root s) = cr3 s
    \<and> tlb_ops (unmap_lower_half root s) = tlb_ops s @ [LoadCr3 (cr3 s)]"
proof -
  define s1 where "s1 = fold (unmap_l4_entry (root + hhdm s)) (indices 256) s"
  have torn: "torn s root ps (indices 256) s1"
    unfolding s1_def by (rule torn_all [OF assms distinct_indices subset_refl]) simp
  have s': "unmap_lower_half root s
      = s1\<lparr>v_heap := 0x10000, cr3 := cr3 s1, tlb_ops := tlb_ops s1 @ [LoadCr3 (cr3 s1)]\<rparr>"
    by (simp add: unmap_lower_half_def s1_def ptov_def reset_v_heap_def write_cr3_def read_cr3_def Let_def)
  note ok' = unmap_lower_half_ok [OF assms]
  have pte1: "pte_at (unmap_lower_half root s) t i = pte_at s1 t i" for t i
    by (simp add: s' pte_at_def)
  then have tab1: "table (unmap_lower_half root s) t is = table s1 t is" for t "is"
    by (induction "is" arbitrary: t) simp_all
  have "walk (unmap_lower_half root s) root va = None" if va: "va < 2 ^ 47" for va
  proof -
    have "table s1 root (path va) = None"
      by (rule torn_empty(2) [OF assms torn upath_path [OF va]]) (simp add: path_def)
    then show ?thesis
      using table_path_lookup [of "unmap_lower_half root s" root va]
      by (simp add: tab1 walk_lookup [OF ok' va])
  qed
  moreover have "pte_at (unmap_lower_half root s) root i = pte_at s root i" if i: "i < 512" "256 \<le> i" for i
  proof -
    have "i \<notin> set (indices 256)" using indices_less(1) [of 256 i] i(2) by auto
    moreover have "root \<notin> set (tables_at s root table_paths)"
      using torn_frames(2) [OF assms, of "indices 256" root] by (auto simp: table_paths_def)
    ultimately show ?thesis
      using torn i space_okD(2) [OF assms] by (simp add: torn_def Let_def table_paths_def pte1)
  qed
  moreover have "tlb_ops s1 = tlb_ops s \<and> cr3 s1 = cr3 s" using torn by (simp add: torn_def Let_def same_rest_def)
  ultimately show ?thesis
    using ok' by (auto simp: s' set_tables_at table_paths_iff)
qed

lemma unmap_lower_half_reclaims_witness:
  "\<exists>s k. vm_map 0x1000 0x400000 True False True sample = Inr (True, s) \<and> k < 4
    \<and> walk s 0x1000 0x400000 = Some (sample_frames ! k, user_ro)
    \<and> walk (unmap_lower_half 0x1000 s) 0x1000 0x400000 = None
    \<and> pool (unmap_lower_half 0x1000 s)
        (rev (tables_at s 0x1000 table_paths) @ drop (Suc k) sample_frames)"
proof -
  obtain s k where s: "vm_map 0x1000 0x400000 True False True sample = Inr (True, s)" "k < 4"
    "space_ok s 0x1000 (drop (Suc k) sample_frames)"
    "walk s 0x1000 0x400000 = Some (sample_frames ! k, user_ro)"
    by (rule sample_fresh)
  have "(0x400000 :: u64) < 2 ^ 47" by simp
  then have "space_ok (unmap_lower_half 0x1000 s) 0x1000
      (rev (tables_at s 0x1000 table_paths) @ drop (Suc k) sample_frames)
    \<and> walk (unmap_lower_half 0x1000 s) 0x1000 0x400000 = None"
    using unmap_lower_half_reclaims [OF s(3)] by blast
  with s space_okD(1) show ?thesis by blast
qed

end
