(* ===== verification/Port.thy ===== *)
theory Port
  imports Libmem
begin

text \<open>
  Port input and output of \<open>kernel/port.h\<close>. What the devices hold is outside the repository: a
  device is a function from the writes made so far and a port to the byte a read returns, an
  argument of every definition that reads. The writes are kept in order.
\<close>

type_synonym port_log = "(u16 \<times> u8) list"
type_synonym device = "port_log \<Rightarrow> u16 \<Rightarrow> u8"

definition outb :: "u16 \<Rightarrow> u8 \<Rightarrow> port_log \<Rightarrow> port_log" where
  "outb port v ports = ports @ [(port, v)]"

definition inb :: "device \<Rightarrow> u16 \<Rightarrow> port_log \<Rightarrow> u8" where
  "inb dev port ports = dev ports port"

definition io_wait :: "port_log \<Rightarrow> port_log" where
  "io_wait ports = outb 0x80 0 ports"

text \<open>The last byte written to a port.\<close>

definition written :: "port_log \<Rightarrow> u16 \<Rightarrow> u8 option" where
  "written ports port = map_of (rev ports) port"

lemma written_outb [simp]:
  "written (outb p v ports) q = (if p = q then Some v else written ports q)"
  by (simp add: written_def outb_def)

lemma written_io_wait [simp]: "q \<noteq> 0x80 \<Longrightarrow> written (io_wait ports) q = written ports q"
  by (simp add: io_wait_def)

end
