(* ===== verification/Term.thy ===== *)
theory Term
  imports Port
begin

text \<open>
  The VGA text terminal of \<open>kernel/term.c\<close>. The text buffer is device memory at
  \<open>ptov(0xB8000)\<close>, two bytes a cell: the character, then the colours in two four-bit fields
  (\<open>struct vga_entry\<close>). \<open>vmem\<close> is memory as this component sees it. The cursor is the pair
  \<open>term_row\<close>, \<open>term_col\<close>, two \<open>size_t\<close> that the guards keep from going below 0 and the invariant
  \<open>term_ok\<close> bounds by 25 and 80, so they are natural numbers here. \<open>displays t ls\<close> says that the
  screen is the last 25 of the lines \<open>ls\<close>; \<open>displays_putchar\<close> is the refinement.
\<close>

subsection \<open>The terminal\<close>

record term_t =
  vmem :: mem
  vterm :: u64
  term_col :: nat
  term_row :: nat
  ports :: port_log

abbreviation (input) VGA_WIDTH :: nat where "VGA_WIDTH \<equiv> 80"
abbreviation (input) VGA_HEIGHT :: nat where "VGA_HEIGHT \<equiv> 25"

text \<open>Assignments to \<open>term[i].c\<close>, \<open>term[i].fg\<close>, \<open>term[i].bg\<close>.\<close>

definition cell_addr :: "term_t \<Rightarrow> nat \<Rightarrow> u64" where
  "cell_addr t i = vterm t + of_nat (2 * i)"

definition set_c :: "nat \<Rightarrow> u8 \<Rightarrow> term_t \<Rightarrow> term_t" where
  "set_c i c t = t\<lparr>vmem := (vmem t)(cell_addr t i := c)\<rparr>"

definition set_fg :: "nat \<Rightarrow> u8 \<Rightarrow> term_t \<Rightarrow> term_t" where
  "set_fg i v t = t\<lparr>vmem := (vmem t)(cell_addr t i + 1 :=
     (vmem t (cell_addr t i + 1) AND 0xF0) OR (v AND 0x0F))\<rparr>"

definition set_bg :: "nat \<Rightarrow> u8 \<Rightarrow> term_t \<Rightarrow> term_t" where
  "set_bg i v t = t\<lparr>vmem := (vmem t)(cell_addr t i + 1 :=
     (vmem t (cell_addr t i + 1) AND 0x0F) OR push_bit 4 (v AND 0x0F))\<rparr>"

definition out :: "u16 \<Rightarrow> u8 \<Rightarrow> term_t \<Rightarrow> term_t" where
  "out p v t = t\<lparr>ports := outb p v (ports t)\<rparr>"

definition term_enable_cursor :: "device \<Rightarrow> term_t \<Rightarrow> term_t" where
  "term_enable_cursor dev t =
     (let t1 = out 0x3D4 0x0A t;
          t2 = out 0x3D5 ((inb dev 0x3D5 (ports t1) AND 0xC0) OR 13) t1;
          t3 = out 0x3D4 0x0B t2
      in out 0x3D5 ((inb dev 0x3D5 (ports t3) AND 0xE0) OR 15) t3)"

definition term_update_cursor :: "term_t \<Rightarrow> term_t" where
  "term_update_cursor t =
     (let pos = (of_nat (term_row t * VGA_WIDTH + term_col t) :: u16)
      in out 0x3D5 (ucast (drop_bit 8 pos AND 0xFF)) (out 0x3D4 0x0E
        (out 0x3D5 (ucast (pos AND 0xFF)) (out 0x3D4 0x0F t))))"

definition clear_cell :: "nat \<Rightarrow> term_t \<Rightarrow> term_t" where
  "clear_cell i t = set_fg i 15 (set_bg i 0 (set_c i (chr CHR '' '') t))"

definition term_clear :: "term_t \<Rightarrow> term_t" where
  "term_clear t =
     term_update_cursor ((fold clear_cell [0..<VGA_WIDTH * VGA_HEIGHT] t)\<lparr>term_col := 0, term_row := 0\<rparr>)"

text \<open>The loop body that clears the last row sets the foreground first.\<close>

definition clear_last :: "nat \<Rightarrow> term_t \<Rightarrow> term_t" where
  "clear_last i t =
     (let index = i + term_row t * VGA_WIDTH
      in set_bg index 0 (set_fg index 15 (set_c index (chr CHR '' '') t)))"

definition term_scroll :: "term_t \<Rightarrow> term_t" where
  "term_scroll t =
     (let t1 = t\<lparr>vmem := memcpy (vterm t) (cell_addr t VGA_WIDTH) (of_nat (2 * VGA_WIDTH * (VGA_HEIGHT - 1))) (vmem t)\<rparr>;
          t2 = t1\<lparr>term_row := term_row t1 - 1\<rparr>
      in fold clear_last [0..<VGA_WIDTH] t2)"

definition term_putchar :: "u8 \<Rightarrow> term_t \<Rightarrow> term_t" where
  "term_putchar c t =
     (if c = 0x0D then term_update_cursor (t\<lparr>term_col := 0\<rparr>)
      else if c = 0x08 then
        term_update_cursor
          (if 0 < term_col t
           then (let t1 = t\<lparr>term_col := term_col t - 1\<rparr>
                 in set_c (term_row t1 * VGA_WIDTH + term_col t1) (chr CHR '' '') t1)
           else t)
      else
        (let t1 = (if c = 0x0A then t\<lparr>term_col := 0, term_row := term_row t + 1\<rparr> else t);
             t2 = (if term_col t1 = VGA_WIDTH then t1\<lparr>term_col := 0, term_row := term_row t1 + 1\<rparr> else t1);
             t3 = (if term_row t2 = VGA_HEIGHT then term_scroll t2 else t2);
             t4 = (if c \<noteq> 0x0A
                   then (let index = term_col t3 + term_row t3 * VGA_WIDTH;
                             t' = set_bg index 0 (set_fg index 15 (set_c index c t3))
                         in t'\<lparr>term_col := term_col t' + 1\<rparr>)
                   else t3)
         in term_update_cursor t4))"

definition term_init :: "device \<Rightarrow> (u64 \<Rightarrow> u64) \<Rightarrow> term_t \<Rightarrow> term_t" where
  "term_init dev ptov t = term_clear (term_enable_cursor dev (t\<lparr>vterm := ptov 0xB8000\<rparr>))"

subsection \<open>What the cells hold\<close>

definition cell :: "term_t \<Rightarrow> nat \<Rightarrow> nat \<Rightarrow> u8" where
  "cell t r c = vmem t (cell_addr t (r * VGA_WIDTH + c))"

definition attr :: "term_t \<Rightarrow> nat \<Rightarrow> nat \<Rightarrow> u8" where
  "attr t r c = vmem t (cell_addr t (r * VGA_WIDTH + c) + 1)"

text \<open>\<open>off_screen t a\<close>: the address is not one of the 4000 bytes of the text buffer.\<close>

definition off_screen :: "term_t \<Rightarrow> u64 \<Rightarrow> bool" where
  "off_screen t a \<longleftrightarrow> 4000 \<le> a - vterm t"

lemma of_nat_small: "a < 5000 \<Longrightarrow> b < 5000 \<Longrightarrow> (of_nat a :: u64) = of_nat b \<longleftrightarrow> a = b"
  by (simp add: word_unat_eq_iff unat_of_nat)

lemma cell_addr_eq:
  assumes "i < 2000" "j < 2000"
  shows "cell_addr t i = cell_addr t j \<longleftrightarrow> i = j"
    and "cell_addr t i + 1 = cell_addr t j + 1 \<longleftrightarrow> i = j"
    and "cell_addr t i \<noteq> cell_addr t j + 1"
proof -
  have "(of_nat (2 * i) :: u64) = of_nat (2 * j) \<longleftrightarrow> i = j"
    using assms of_nat_small [of "2 * i" "2 * j"] by simp
  then show "cell_addr t i = cell_addr t j \<longleftrightarrow> i = j" "cell_addr t i + 1 = cell_addr t j + 1 \<longleftrightarrow> i = j"
    by (simp_all add: cell_addr_def)
  have "2 * i \<noteq> 2 * j + 1" by presburger
  then have "(of_nat (2 * i) :: u64) \<noteq> of_nat (2 * j + 1)"
    using assms of_nat_small [of "2 * i" "2 * j + 1"] by simp
  then show "cell_addr t i \<noteq> cell_addr t j + 1"
    by (simp add: cell_addr_def ac_simps)
qed

lemma cell_addr_on_screen:
  assumes "i < 2000"
  shows "\<not> off_screen t (cell_addr t i)" "\<not> off_screen t (cell_addr t i + 1)"
proof -
  have "unat (of_nat (2 * i) :: u64) = 2 * i" "unat (of_nat (2 * i + 1) :: u64) = 2 * i + 1"
    using assms by (simp_all only: unat_of_nat) simp_all
  then have "(of_nat (2 * i) :: u64) < 4000" "(of_nat (2 * i + 1) :: u64) < 4000"
    using assms by (simp_all only: word_less_nat_alt) simp_all
  moreover have "cell_addr t i - vterm t = of_nat (2 * i)" "cell_addr t i + 1 - vterm t = of_nat (2 * i + 1)"
    by (simp_all add: cell_addr_def)
  ultimately show "\<not> off_screen t (cell_addr t i)" "\<not> off_screen t (cell_addr t i + 1)"
    by (simp_all only: off_screen_def not_le)
qed

subsection \<open>Effect of the assignments\<close>

named_theorems term_simps "cells, cursor and frame after an assignment to the terminal"

lemma pos_less [simp]: "r < 25 \<Longrightarrow> c < 80 \<Longrightarrow> r * 80 + c < (2000 :: nat)"
  by linarith

lemma pos_eq: "c < 80 \<Longrightarrow> c' < 80 \<Longrightarrow> r * 80 + c = r' * 80 + c' \<longleftrightarrow> r = r' \<and> c = (c' :: nat)"
proof -
  assume c: "c < 80" "c' < 80"
  have "r = r'" if "r * 80 + c = r' * 80 + c'"
    using arg_cong [OF that, of "\<lambda>x. x div 80"] c by simp
  then show ?thesis by auto
qed

lemma cell_addr_vmem [simp]:
  "cell_addr (t\<lparr>vmem := m\<rparr>) i = cell_addr t i" "cell_addr (t\<lparr>term_row := a\<rparr>) i = cell_addr t i"
  "cell_addr (t\<lparr>term_col := a\<rparr>) i = cell_addr t i"
  by (simp_all add: cell_addr_def)

lemma assign_rest [simp, term_simps]:
  "vterm (set_c i v t) = vterm t" "vterm (set_fg i v t) = vterm t" "vterm (set_bg i v t) = vterm t"
  "term_row (set_c i v t) = term_row t" "term_row (set_fg i v t) = term_row t" "term_row (set_bg i v t) = term_row t"
  "term_col (set_c i v t) = term_col t" "term_col (set_fg i v t) = term_col t" "term_col (set_bg i v t) = term_col t"
  by (simp_all add: set_c_def set_fg_def set_bg_def)

lemma update_cursor_rest [simp, term_simps]:
  "vterm (term_update_cursor t) = vterm t" "term_row (term_update_cursor t) = term_row t"
  "term_col (term_update_cursor t) = term_col t" "vmem (term_update_cursor t) = vmem t"
  by (simp_all add: term_update_cursor_def out_def Let_def)

lemma cell_assign [simp, term_simps]:
  assumes "i < 2000" "r < 25" "c < 80"
  shows "cell (set_c i v t) r c = (if i = r * 80 + c then v else cell t r c)"
    and "cell (set_fg i v t) r c = cell t r c" and "cell (set_bg i v t) r c = cell t r c"
  using assms cell_addr_eq [OF pos_less [OF assms(2,3)] assms(1), of t]
  by (auto simp: cell_def set_c_def set_fg_def set_bg_def)

lemma attr_assign [simp, term_simps]:
  assumes "i < 2000" "r < 25" "c < 80"
  shows "attr (set_c i v t) r c = attr t r c"
    and "attr (set_fg i v t) r c =
      (if i = r * 80 + c then (attr t r c AND 0xF0) OR (v AND 0x0F) else attr t r c)"
    and "attr (set_bg i v t) r c =
      (if i = r * 80 + c then (attr t r c AND 0x0F) OR push_bit 4 (v AND 0x0F) else attr t r c)"
  using assms cell_addr_eq [OF pos_less [OF assms(2,3)] assms(1), of t]
    cell_addr_eq(3) [OF assms(1) pos_less [OF assms(2,3)], of t]
  by (auto simp: attr_def set_c_def set_fg_def set_bg_def)

lemma cell_cong [simp, term_simps]:
  "cell (t\<lparr>term_row := a\<rparr>) = cell t" "cell (t\<lparr>term_col := a\<rparr>) = cell t"
  "cell (term_update_cursor t) = cell t" "attr (t\<lparr>term_row := a\<rparr>) = attr t"
  "attr (t\<lparr>term_col := a\<rparr>) = attr t" "attr (term_update_cursor t) = attr t"
  by (simp_all add: fun_eq_iff cell_def attr_def cell_addr_def)

text \<open>Nothing outside the text buffer changes.\<close>

definition keeps :: "term_t \<Rightarrow> term_t \<Rightarrow> bool" where
  "keeps t t' \<longleftrightarrow> vterm t' = vterm t \<and> (\<forall>a. off_screen t a \<longrightarrow> vmem t' a = vmem t a)"

lemma keeps_refl [simp]: "keeps t t"
  by (simp add: keeps_def)

lemma keeps_trans: "keeps t t' \<Longrightarrow> keeps t' t'' \<Longrightarrow> keeps t t''"
  by (simp add: keeps_def off_screen_def)

lemma keeps_assign:
  assumes "i < 2000"
  shows "keeps t (set_c i v t)" "keeps t (set_fg i v t)" "keeps t (set_bg i v t)"
  using cell_addr_on_screen [OF assms, of t]
  by (auto simp: keeps_def set_c_def set_fg_def set_bg_def)

lemma keeps_cursor [simp]:
  "keeps t (t'\<lparr>term_row := a\<rparr>) = keeps t t'" "keeps t (t'\<lparr>term_col := a\<rparr>) = keeps t t'"
  "keeps t (term_update_cursor t') = keeps t t'"
  "keeps (t\<lparr>term_row := a\<rparr>) t' = keeps t t'" "keeps (t\<lparr>term_col := a\<rparr>) t' = keeps t t'"
  by (simp_all add: keeps_def off_screen_def)

subsection \<open>Clearing and scrolling\<close>

lemma clear_cell_effect:
  assumes "i < 2000" "r < 25" "c < 80"
  shows "cell (clear_cell i t) r c = (if i = r * 80 + c then 0x20 else cell t r c)"
    and "keeps t (clear_cell i t)"
    and "term_row (clear_cell i t) = term_row t" "term_col (clear_cell i t) = term_col t"
  using assms by (simp_all add: clear_cell_def) (blast intro: keeps_assign keeps_trans)

lemma clear_cells:
  assumes "n \<le> 2000"
  shows "keeps t (fold clear_cell [0..<n] t)
    \<and> (\<forall>r < 25. \<forall>c < 80. cell (fold clear_cell [0..<n] t) r c = (if r * 80 + c < n then 0x20 else cell t r c))"
  using assms
proof (induction n)
  case (Suc n)
  then have "keeps t (fold clear_cell [0..<Suc n] t)"
    using clear_cell_effect(2) [of n 0 0] keeps_trans by fastforce
  moreover have "cell (fold clear_cell [0..<Suc n] t) r c = (if r * 80 + c < Suc n then 0x20 else cell t r c)"
    if "r < 25" "c < 80" for r c
    using Suc that clear_cell_effect(1) [of n r c] by (auto simp: less_Suc_eq)
  ultimately show ?case by blast
qed simp

lemma clear_last_effect:
  assumes "i < 80" "term_row t = 24"
  shows "r < 25 \<Longrightarrow> c < 80 \<Longrightarrow> cell (clear_last i t) r c = (if r = 24 \<and> c = i then 0x20 else cell t r c)"
    and "keeps t (clear_last i t)"
    and "term_row (clear_last i t) = term_row t" "term_col (clear_last i t) = term_col t"
proof -
  have i: "i + 24 * 80 < 2000" using assms(1) by simp
  show "cell (clear_last i t) r c = (if r = 24 \<and> c = i then 0x20 else cell t r c)"
    if rc: "r < 25" "c < 80"
  proof -
    have eq: "i + 1920 = r * 80 + c \<longleftrightarrow> r = 24 \<and> c = i"
      using pos_eq [OF assms(1) rc(2), of 24 r] by auto
    show ?thesis using assms rc i by (auto simp: clear_last_def Let_def eq)
  qed
  have "keeps t (set_bg n 0 (set_fg n 15 (set_c n 0x20 t)))" if "n < 2000" for n
    using that by (blast intro: keeps_assign keeps_trans)
  then show "keeps t (clear_last i t)" using assms i by (simp add: clear_last_def Let_def)
qed (use assms in \<open>simp_all add: clear_last_def Let_def\<close>)

lemma clear_lasts:
  assumes "n \<le> 80" "term_row t = 24"
  shows "keeps t (fold clear_last [0..<n] t) \<and> term_row (fold clear_last [0..<n] t) = 24
    \<and> term_col (fold clear_last [0..<n] t) = term_col t
    \<and> (\<forall>r < 25. \<forall>c < 80. cell (fold clear_last [0..<n] t) r c =
         (if r = 24 \<and> c < n then 0x20 else cell t r c))"
  using assms
proof (induction n)
  case (Suc n)
  let ?t = "fold clear_last [0..<n] t"
  have IH: "keeps t ?t" "term_row ?t = 24" "term_col ?t = term_col t"
    "\<And>r c. r < 25 \<Longrightarrow> c < 80 \<Longrightarrow> cell ?t r c = (if r = 24 \<and> c < n then 0x20 else cell t r c)"
    using Suc by auto
  have n: "n < 80" using Suc.prems by simp
  have "keeps t (clear_last n ?t)"
    using IH(1) clear_last_effect(2) [OF n IH(2)] keeps_trans by blast
  then show ?case
    using clear_last_effect [OF n IH(2)] IH by (auto simp: less_Suc_eq)
qed simp

lemma copy_rows:
  fixes t :: term_t
  defines "t1 \<equiv> t\<lparr>vmem := memcpy (vterm t) (cell_addr t VGA_WIDTH) (of_nat (2 * VGA_WIDTH * (VGA_HEIGHT - 1))) (vmem t)\<rparr>"
  shows "keeps t t1"
    and "r < 25 \<Longrightarrow> c < 80 \<Longrightarrow> cell t1 r c = (if r < 24 then cell t (r + 1) c else cell t r c)"
proof -
  have "copies_cleanly (vterm t) (cell_addr t 80) 3840"
    by (simp add: copies_cleanly_def cell_addr_def)
  from memcpy_apply [OF this] have m: "vmem t1 a =
      (if a - vterm t < 3840 then vmem t (cell_addr t 80 + (a - vterm t)) else vmem t a)" for a
    by (simp add: t1_def)
  show "keeps t t1"
    unfolding keeps_def off_screen_def
  proof (intro conjI allI impI)
    fix a assume "4000 \<le> a - vterm t"
    then have "\<not> a - vterm t < 3840" by unat_arith
    then show "vmem t1 a = vmem t a" by (simp add: m)
  qed (simp add: t1_def)
  assume rc: "r < 25" "c < 80"
  let ?i = "r * 80 + c"
  have u: "unat (of_nat (2 * ?i) :: u64) = 2 * ?i" using rc by (simp only: unat_of_nat) simp
  have "(of_nat (2 * ?i) :: u64) < 3840 \<longleftrightarrow> 2 * ?i < 3840"
    by (simp only: word_less_nat_alt u) simp
  moreover have "2 * ?i < 3840 \<longleftrightarrow> r < 24"
    using rc by (cases "r < 24") auto
  moreover have "cell_addr t ?i - vterm t = of_nat (2 * ?i)" by (simp add: cell_addr_def)
  moreover have "cell_addr t 80 + of_nat (2 * ?i) = cell_addr t ((r + 1) * 80 + c)"
    by (simp add: cell_addr_def)
  moreover have "cell_addr t1 ?i = cell_addr t ?i" by (simp add: t1_def)
  ultimately show "cell t1 r c = (if r < 24 then cell t (r + 1) c else cell t r c)"
    by (simp only: cell_def m)
qed

lemma scroll_effect:
  assumes "term_row t = 25"
  shows "keeps t (term_scroll t)" "term_row (term_scroll t) = 24" "term_col (term_scroll t) = term_col t"
    and "r < 25 \<Longrightarrow> c < 80 \<Longrightarrow> cell (term_scroll t) r c = (if r < 24 then cell t (r + 1) c else 0x20)"
proof -
  define t1 where "t1 = t\<lparr>vmem := memcpy (vterm t) (cell_addr t VGA_WIDTH)
    (of_nat (2 * VGA_WIDTH * (VGA_HEIGHT - 1))) (vmem t)\<rparr>"
  define t2 where "t2 = t1\<lparr>term_row := 24\<rparr>"
  have scr: "term_scroll t = fold clear_last [0..<80] t2"
    using assms by (simp add: term_scroll_def t2_def t1_def Let_def)
  have c: "keeps t t2" "r < 25 \<Longrightarrow> c < 80 \<Longrightarrow> cell t2 r c = (if r < 24 then cell t (r + 1) c else cell t r c)"
      "term_row t2 = 24" "term_col t2 = term_col t"
    for r c using copy_rows(1) [of t] copy_rows(2) [of r c t] by (simp_all add: t2_def t1_def)
  have l: "keeps t2 (term_scroll t)" "term_row (term_scroll t) = 24" "term_col (term_scroll t) = term_col t2"
      "r < 25 \<Longrightarrow> c < 80 \<Longrightarrow> cell (term_scroll t) r c = (if r = 24 then 0x20 else cell t2 r c)" for r c
    using clear_lasts [of 80 t2] c(3) by (simp_all add: scr)
  show "keeps t (term_scroll t)" by (rule keeps_trans [OF c(1) l(1)])
  show "term_row (term_scroll t) = 24" "term_col (term_scroll t) = term_col t" using l c by simp_all
  show "cell (term_scroll t) r c = (if r < 24 then cell t (r + 1) c else 0x20)" if "r < 25" "c < 80"
  proof (cases "r < 24")
    case False
    then have "r = 24" using that(1) by simp
    then show ?thesis using l(4) [OF that] by simp
  qed (use l(4) [OF that] c(2) [OF that] in simp)
qed

subsection \<open>The cursor stays on the screen\<close>

definition term_ok :: "term_t \<Rightarrow> bool" where
  "term_ok t \<longleftrightarrow> term_row t < 25 \<and> term_col t \<le> 80"

text \<open>The position a printing character or a newline is handled at, after wrapping and scrolling.\<close>

definition next_line :: "u8 \<Rightarrow> term_t \<Rightarrow> term_t" where
  "next_line c t =
     (let t1 = (if c = 0x0A \<or> term_col t = 80 then t\<lparr>term_col := 0, term_row := term_row t + 1\<rparr> else t)
      in if term_row t1 = 25 then term_scroll t1 else t1)"

definition put_at :: "u8 \<Rightarrow> term_t \<Rightarrow> term_t" where
  "put_at c t = (let index = term_col t + term_row t * 80;
      t' = set_bg index 0 (set_fg index 15 (set_c index c t)) in t'\<lparr>term_col := term_col t' + 1\<rparr>)"

lemma putchar_print:
  assumes "c \<noteq> 0x0D" "c \<noteq> 0x08"
  shows "term_putchar c t = term_update_cursor (if c = 0x0A then next_line c t else put_at c (next_line c t))"
  using assms by (simp add: term_putchar_def next_line_def put_at_def Let_def)

lemma next_line_effect:
  assumes "term_ok t"
  shows "keeps t (next_line c t)" "term_row (next_line c t) < 25" "term_col (next_line c t) < 80"
    and "term_row (next_line c t) =
      (if c = 0x0A \<or> term_col t = 80 then min (term_row t + 1) 24 else term_row t)"
    and "term_col (next_line c t) = (if c = 0x0A \<or> term_col t = 80 then 0 else term_col t)"
    and "r < 25 \<Longrightarrow> k < 80 \<Longrightarrow> cell (next_line c t) r k =
      (if (c = 0x0A \<or> term_col t = 80) \<and> term_row t = 24 then if r < 24 then cell t (r + 1) k else 0x20
       else cell t r k)"
  using assms scroll_effect [of "t\<lparr>term_col := 0, term_row := term_row t + 1\<rparr>"]
  by (auto simp: next_line_def term_ok_def Let_def)

lemma put_at_effect:
  assumes "term_row t < 25" "term_col t < 80"
  shows "keeps t (put_at c t)" "term_row (put_at c t) = term_row t" "term_col (put_at c t) = term_col t + 1"
    and "r < 25 \<Longrightarrow> k < 80 \<Longrightarrow> cell (put_at c t) r k =
      (if r = term_row t \<and> k = term_col t then c else cell t r k)"
proof -
  have i: "term_col t + term_row t * 80 < 2000" using assms by linarith
  have "keeps t (set_bg n 0 (set_fg n 15 (set_c n c t)))" if "n < 2000" for n
    using that by (blast intro: keeps_assign keeps_trans)
  then show "keeps t (put_at c t)" using i by (simp add: put_at_def Let_def)
  show "cell (put_at c t) r k = (if r = term_row t \<and> k = term_col t then c else cell t r k)"
    if "r < 25" "k < 80"
    using i that assms pos_eq [of "term_col t" k "term_row t" r]
    by (auto simp: put_at_def Let_def add.commute)
qed (simp_all add: put_at_def Let_def)

subsection \<open>The screen as lines of text\<close>

text \<open>
  The lines printed so far, the last one still open. A full line is closed by the next printing
  character, a backspace removes the last character of the open line.
\<close>

definition type_char :: "u8 list list \<Rightarrow> u8 \<Rightarrow> u8 list list" where
  "type_char ls c =
     (if c = 0x08 then (if last ls = [] then ls else butlast ls @ [butlast (last ls)])
      else if c = 0x0A then ls @ [[]]
      else if length (last ls) = 80 then ls @ [[c]]
      else butlast ls @ [last ls @ [c]])"

text \<open>The character at row \<open>r\<close>, column \<open>k\<close> of a 25-line window on the end of \<open>ls\<close>.\<close>

definition line_char :: "u8 list list \<Rightarrow> nat \<Rightarrow> nat \<Rightarrow> u8" where
  "line_char ls i k = (if i < length ls \<and> k < length (ls ! i) then ls ! i ! k else 0x20)"

definition window :: "u8 list list \<Rightarrow> nat \<Rightarrow> nat \<Rightarrow> u8" where
  "window ls r k = line_char ls (r + (length ls - 25)) k"

definition displays :: "term_t \<Rightarrow> u8 list list \<Rightarrow> bool" where
  "displays t ls \<longleftrightarrow> ls \<noteq> [] \<and> (\<forall>l \<in> set ls. length l \<le> 80)
     \<and> term_row t = min (length ls - 1) 24 \<and> term_col t = length (last ls)
     \<and> (\<forall>r < 25. \<forall>k < 80. cell t r k = window ls r k)"

lemma displays_ok: "displays t ls \<Longrightarrow> term_ok t"
  by (auto simp: displays_def term_ok_def)

lemma line_char_append [simp]: "line_char (ls @ [[]]) i k = line_char ls i k"
  by (auto simp: line_char_def nth_append less_Suc_eq)

lemma window_append:
  assumes "r < 25"
  shows "window (ls @ [[]]) r k =
    (if length ls < 25 then window ls r k else if r < 24 then window ls (r + 1) k else 0x20)"
proof (cases "length ls < 25")
  case False
  then have eq: "r + (length (ls @ [[]]) - 25) = r + 1 + (length ls - 25)" by simp
  have "line_char ls (r + 1 + (length ls - 25)) k = 0x20" if "\<not> r < 24"
  proof -
    have "\<not> r + 1 + (length ls - 25) < length ls" using that False assms by simp
    then show ?thesis by (simp only: line_char_def) simp
  qed
  then show ?thesis using False unfolding window_def eq by simp
qed (simp add: window_def)

lemma window_last:
  assumes "ls \<noteq> []" "r < 25"
  shows "window (butlast ls @ [l]) r k =
    (if r = min (length ls - 1) 24 then if k < length l then l ! k else 0x20 else window ls r k)"
  using assms by (auto simp: window_def line_char_def nth_append nth_butlast min_def)

lemma displays_newline:
  assumes d: "displays t ls" and wrap: "c = 0x0A \<or> term_col t = 80"
  shows "displays (next_line c t) (ls @ [[]])"
proof -
  have ls: "ls \<noteq> []" "\<forall>l \<in> set ls. length l \<le> 80" "term_row t = min (length ls - 1) 24"
    "\<And>r k. r < 25 \<Longrightarrow> k < 80 \<Longrightarrow> cell t r k = window ls r k"
    using d by (auto simp: displays_def)
  note n = next_line_effect [OF displays_ok [OF d], where c = c]
  have "cell (next_line c t) r k = window (ls @ [[]]) r k" if "r < 25" "k < 80" for r k
    using n(6) [OF that] wrap window_append [OF that(1), of ls k] ls(3) that
      ls(4) [OF that] ls(4) [of "r + 1" k] by (auto simp: min_def split: if_splits)
  moreover have "min (min (length ls - 1) 24 + 1) 24 = min (length ls) 24"
    using ls(1) by (cases ls) auto
  ultimately show ?thesis using n(4,5) wrap ls by (auto simp: displays_def)
qed

lemma displays_put:
  assumes d: "displays t ls" and col: "term_col t < 80"
  shows "displays (put_at c t) (butlast ls @ [last ls @ [c]])"
proof -
  have ls: "ls \<noteq> []" "\<forall>l \<in> set ls. length l \<le> 80" "term_row t = min (length ls - 1) 24"
    "term_col t = length (last ls)"
    "\<And>r k. r < 25 \<Longrightarrow> k < 80 \<Longrightarrow> cell t r k = window ls r k"
    using d by (auto simp: displays_def)
  have row: "term_row t < 25" using ls(3) by simp
  note p = put_at_effect [OF row col, where c = c]
  have lastw: "window ls (term_row t) k = (if k < length (last ls) then last ls ! k else 0x20)" for k
    using window_last [OF ls(1) row, of "last ls" k] ls(1,3) by simp
  have "cell (put_at c t) r k = window (butlast ls @ [last ls @ [c]]) r k" if rk: "r < 25" "k < 80" for r k
    unfolding p(4) [OF rk] window_last [OF ls(1) rk(1)] ls(5) [OF rk]
    using ls(3,4) lastw [of k] by (auto simp: nth_append less_Suc_eq)
  moreover have "\<forall>l \<in> set (butlast ls @ [last ls @ [c]]). length l \<le> 80"
    using ls(2,4) col by (auto dest: in_set_butlastD)
  ultimately show ?thesis using p(2,3) ls by (simp add: displays_def)
qed

lemma displays_update_cursor [simp]: "displays (term_update_cursor t) ls = displays t ls"
  by (simp add: displays_def)

lemma displays_backspace:
  assumes d: "displays t ls"
  shows "displays (term_putchar 0x08 t) (type_char ls 0x08)"
proof (cases "term_col t")
  case 0
  then have "last ls = []" using d by (simp add: displays_def)
  then show ?thesis using d 0 by (simp add: term_putchar_def type_char_def)
next
  case (Suc n)
  have ls: "ls \<noteq> []" "\<forall>l \<in> set ls. length l \<le> 80" "term_row t = min (length ls - 1) 24"
    "term_col t = length (last ls)"
    "\<And>r k. r < 25 \<Longrightarrow> k < 80 \<Longrightarrow> cell t r k = window ls r k"
    using d by (auto simp: displays_def)
  have len: "length (last ls) = Suc n" "last ls \<noteq> []" using Suc ls(4) by auto
  have row: "term_row t < 25" using ls(3) by simp
  have "length (last ls) \<le> 80" using ls(1,2) by simp
  then have n: "n < 80" using len(1) by simp
  have pos: "term_row t * 80 + n < 2000" using n row by simp
  let ?t = "set_c (term_row t * 80 + n) 0x20 (t\<lparr>term_col := n\<rparr>)"
  have lastw: "window ls (term_row t) k = (if k < length (last ls) then last ls ! k else 0x20)" for k
    using window_last [OF ls(1) row, of "last ls" k] ls(1,3) by simp
  have "cell ?t r k = window (butlast ls @ [butlast (last ls)]) r k" if rk: "r < 25" "k < 80" for r k
    unfolding window_last [OF ls(1) rk(1)]
    using cell_assign(1) [OF pos rk, of "0x20" "t\<lparr>term_col := n\<rparr>"] pos_eq [OF n rk(2), of "term_row t" r]
      ls(3) ls(5) [OF rk] lastw [of k] len(1) by (auto simp: nth_butlast less_Suc_eq)
  moreover have "\<forall>l \<in> set (butlast ls @ [butlast (last ls)]). length l \<le> 80"
    using ls(2,4) len n by (auto dest: in_set_butlastD)
  ultimately have "displays ?t (butlast ls @ [butlast (last ls)])"
    using ls len n by (simp add: displays_def)
  then show ?thesis using Suc len by (simp add: term_putchar_def type_char_def Let_def)
qed

lemma displays_putchar:
  assumes d: "displays t ls" and c: "c \<noteq> 0x0D"
  shows "displays (term_putchar c t) (type_char ls c)"
proof (cases "c = 0x08")
  case True
  then show ?thesis using displays_backspace [OF d] by simp
next
  case False
  have len: "term_col t = length (last ls)" using d by (simp add: displays_def)
  have col: "term_col (next_line c t) < 80" by (rule next_line_effect [OF displays_ok [OF d]])
  consider (nl) "c = 0x0A" | (wrap) "c \<noteq> 0x0A" "term_col t = 80" | (plain) "c \<noteq> 0x0A" "term_col t \<noteq> 80"
    by blast
  then show ?thesis
  proof cases
    case nl
    then show ?thesis
      using displays_newline [OF d, of c] by (simp add: putchar_print type_char_def)
  next
    case wrap
    then show ?thesis
      using displays_put [OF displays_newline [OF d, of c] col, of c] c False len
      by (simp add: putchar_print type_char_def)
  next
    case plain
    then have "next_line c t = t" using displays_ok [OF d] by (simp add: next_line_def term_ok_def)
    then show ?thesis
      using displays_put [OF d, of c] plain col c False len by (simp add: putchar_print type_char_def)
  qed
qed

lemma displays_clear: "displays (term_clear t) [[]]"
  using clear_cells [of 2000 t] by (auto simp: term_clear_def displays_def window_def line_char_def nth_Cons')

lemma displays_text:
  "displays t ls \<Longrightarrow> 0x0D \<notin> set cs \<Longrightarrow> displays (fold term_putchar cs t) (foldl type_char ls cs)"
  by (induction cs arbitrary: t ls) (auto simp: displays_putchar)

subsection \<open>What stays as it is\<close>

lemma keeps_putchar:
  assumes "term_ok t"
  shows "keeps t (term_putchar c t) \<and> term_ok (term_putchar c t)"
proof -
  note n = next_line_effect [OF assms, where c = c]
  consider (cr) "c = 0x0D" | (bs) "c = 0x08" | (print) "c \<noteq> 0x0D" "c \<noteq> 0x08" by blast
  then show ?thesis
  proof cases
    case cr
    then show ?thesis using assms by (simp add: term_putchar_def term_ok_def)
  next
    case bs
    have "term_row t * 80 + (term_col t - 1) < 2000" if "0 < term_col t"
    proof -
      have "term_row t < 25" "term_col t \<le> 80" using assms by (simp_all add: term_ok_def)
      then show ?thesis using that by linarith
    qed
    then show ?thesis
      using bs assms keeps_assign(1) [of "term_row t * 80 + (term_col t - 1)" "t\<lparr>term_col := term_col t - 1\<rparr>"]
      by (auto simp: term_putchar_def term_ok_def Let_def)
  next
    case print
    have "keeps t (put_at c (next_line c t))"
      using n(1) put_at_effect(1) [OF n(2,3)] keeps_trans by blast
    then show ?thesis
      using n(1-3) put_at_effect(2,3) [OF n(2,3), of c] by (auto simp: putchar_print [OF print] term_ok_def)
  qed
qed

lemma ports_assign [simp]:
  "ports (set_c i v t) = ports t" "ports (set_fg i v t) = ports t" "ports (set_bg i v t) = ports t"
  by (simp_all add: set_c_def set_fg_def set_bg_def)

lemma ports_scroll [simp]: "ports (term_scroll t) = ports t"
proof -
  have "ports (fold clear_last is t) = ports t" for "is" t
    by (induction "is" arbitrary: t) (simp_all add: clear_last_def Let_def)
  then show ?thesis by (simp add: term_scroll_def Let_def)
qed

lemma putchar_cursor_last:
  "\<exists>u. term_putchar c t = term_update_cursor u \<and> ports u = ports t
     \<and> term_row u = term_row (term_putchar c t) \<and> term_col u = term_col (term_putchar c t)"
proof -
  have "ports (next_line c t) = ports t" "ports (put_at c t') = ports t'" for t'
    by (simp_all add: next_line_def put_at_def Let_def)
  then show ?thesis
    by (cases "c = 0x0D \<or> c = 0x08")
      (auto simp: putchar_print, auto simp: term_putchar_def Let_def)
qed

lemma cursor_position:
  assumes "n \<le> 2000"
  shows "unat (ucast ((of_nat n :: u16) AND 0xFF) :: u8)
    + 256 * unat (ucast (drop_bit 8 (of_nat n :: u16) AND 0xFF) :: u8) = n"
proof -
  have mask: "x AND 0xFF = take_bit 8 x" for x :: u16
    by (simp add: take_bit_eq_mask mask_eq_exp_minus_1)
  have n: "unat (of_nat n :: u16) = n" using assms by (simp add: unat_of_nat)
  have "unat (ucast (take_bit 8 x) :: u8) = unat x mod 256" for x :: u16
    by (simp add: unsigned_ucast_eq unsigned_take_bit_eq) (simp add: take_bit_eq_mod)
  moreover have "unat (drop_bit 8 (of_nat n :: u16)) = n div 256"
    using assms by (simp add: drop_bit_eq_div unat_div_distrib n)
  moreover have "n div 256 mod 256 = n div 256" using assms by (intro mod_less) simp
  ultimately show ?thesis by (simp add: mask n)
qed

subsection \<open>Properties\<close>

definition blank_term :: term_t where
  "blank_term = \<lparr>vmem = \<lambda>_. 0, vterm = 0xffff8000000b8000, term_col = 3, term_row = 7, ports = []\<rparr>"

text \<open>
  C11: on a cleared terminal, any text without carriage returns is shown as its last 25 lines: a
  line breaks at a newline or before its 81st character, a backspace deletes the last character of
  the open line and stops at its start, and the cursor is after the last character.
\<close>

theorem term_displays_text:
  assumes "0x0D \<notin> set cs"
  shows "displays (fold term_putchar cs (term_clear t)) (foldl type_char [[]] cs)"
  by (rule displays_text [OF displays_clear assms])

lemma term_displays_text_witness:
  "displays (fold term_putchar (str ''ab'' @ [0x0A] @ str ''cd'' @ [0x08] @ str ''e'') (term_clear blank_term))
     [str ''ab'', str ''ce'']"
proof -
  let ?cs = "str ''ab'' @ [0x0A] @ str ''cd'' @ [0x08] @ str ''e''"
  have "0x0D \<notin> set ?cs" by simp
  moreover have "foldl type_char [[]] ?cs = [str ''ab'', str ''ce'']"
    by (simp add: type_char_def)
  ultimately show ?thesis using term_displays_text [of ?cs blank_term] by simp
qed

text \<open>
  C12: whatever the character, printing it writes nothing outside the 4000 bytes of the text
  buffer, and leaves the cursor in one of the 25 rows and at most one column past the last.
\<close>

theorem term_putchar_bounds:
  assumes "term_ok t"
  shows "term_ok (term_putchar c t) \<and> vterm (term_putchar c t) = vterm t
    \<and> (\<forall>a. off_screen t a \<longrightarrow> vmem (term_putchar c t) a = vmem t a)"
  using keeps_putchar [OF assms] by (simp add: keeps_def)

lemma term_putchar_bounds_witness:
  "term_ok (term_putchar 0x0A (blank_term\<lparr>term_row := 24\<rparr>))
   \<and> vmem (term_putchar 0x0A (blank_term\<lparr>term_row := 24\<rparr>)) 0xffff8000000b8fa0 = 0"
proof -
  let ?t = "blank_term\<lparr>term_row := 24\<rparr>"
  have ok: "term_ok ?t" and off: "off_screen ?t 0xffff8000000b8fa0"
    by (simp_all add: term_ok_def blank_term_def off_screen_def)
  have "vmem ?t 0xffff8000000b8fa0 = 0" by (simp add: blank_term_def)
  with term_putchar_bounds [OF ok, of "0x0A"] off show ?thesis by simp
qed

text \<open>
  Every character printed programs the hardware cursor: the last four port writes send the
  low and the high byte of the new position to registers 15 and 14 of the CRT controller.
\<close>

theorem term_putchar_cursor:
  assumes "term_ok t"
  shows "\<exists>lo hi. ports (term_putchar c t) = ports t @ [(0x3D4, 0x0F), (0x3D5, lo), (0x3D4, 0x0E), (0x3D5, hi)]
    \<and> unat lo + 256 * unat hi = term_row (term_putchar c t) * VGA_WIDTH + term_col (term_putchar c t)"
proof -
  obtain u where u: "term_putchar c t = term_update_cursor u" "ports u = ports t"
    "term_row u = term_row (term_putchar c t)" "term_col u = term_col (term_putchar c t)"
    using putchar_cursor_last by blast
  define n where "n = term_row u * VGA_WIDTH + term_col u"
  have "term_ok (term_putchar c t)" using keeps_putchar [OF assms] by blast
  then have "n \<le> 2000" unfolding n_def u(3,4) by (simp add: term_ok_def)
  from cursor_position [OF this]
  have "unat (ucast ((of_nat n :: u16) AND 0xFF) :: u8)
    + 256 * unat (ucast (drop_bit 8 (of_nat n :: u16) AND 0xFF) :: u8) = n" .
  moreover have "ports (term_putchar c t) = ports t @ [(0x3D4, 0x0F), (0x3D5, ucast ((of_nat n :: u16) AND 0xFF)),
      (0x3D4, 0x0E), (0x3D5, ucast (drop_bit 8 (of_nat n :: u16) AND 0xFF))]"
    unfolding u(1) term_update_cursor_def out_def outb_def Let_def n_def [symmetric] by (simp add: u(2))
  ultimately show ?thesis unfolding n_def u(3,4) by blast
qed

lemma term_putchar_cursor_witness:
  "\<exists>lo hi. ports (term_putchar 0x61 blank_term) = [(0x3D4, 0x0F), (0x3D5, lo), (0x3D4, 0x0E), (0x3D5, hi)]
    \<and> unat lo + 256 * unat hi = term_row (term_putchar 0x61 blank_term) * VGA_WIDTH + term_col (term_putchar 0x61 blank_term)"
proof -
  have "term_ok blank_term" "ports blank_term = []" by (simp_all add: term_ok_def blank_term_def)
  with term_putchar_cursor [of blank_term "0x61"] show ?thesis by simp
qed

end
