(* ===== verification/Kprint.thy ===== *)
theory Kprint
  imports Term
begin

text \<open>
  Formatted output: \<open>kernel/kprint.c\<close>, and what it shares with its copy in \<open>stdlib/myio.c\<close>. The two
  files have the same functions over a different character output, so the definitions take it as
  the argument \<open>putc\<close>. A string argument is the list of its bytes (a missing terminator ends it
  too); \<open>buffer[21]\<close> is a list and an access outside it is \<open>Undefined\<close>. A variadic argument is a
  string or the 64-bit slot the calling convention passes it in; a conversion that reads an
  argument that is missing or of the other kind is \<open>Undefined\<close>.
\<close>

subsection \<open>Strings and numbers\<close>

primrec emit_s :: "(u8 \<Rightarrow> 's \<Rightarrow> 's) \<Rightarrow> u8 list \<Rightarrow> 's \<Rightarrow> 's" where
  "emit_s putc [] s = s"
| "emit_s putc (c # cs) s = (if c \<noteq> 0 then emit_s putc cs (putc c s) else s)"

definition dec_char :: "u64 \<Rightarrow> u8" where
  "dec_char d = ucast d + 48"

definition hex_char :: "u64 \<Rightarrow> u8" where
  "hex_char d =
     (if d = 10 then 0x41 else if d = 11 then 0x42 else if d = 12 then 0x43
      else if d = 13 then 0x44 else if d = 14 then 0x45 else if d = 15 then 0x46
      else ucast d + 48)"

text \<open>
  \<open>while (value > 0)\<close>: one character per digit, written downwards from \<open>buffer[curr]\<close>. The base is
  10 or 16 in the code; the bounds on it make the recursion total.
\<close>

lemma div_base_less:
  assumes "0 < value" "2 \<le> base" "base \<le> 16"
  shows "unat (value div of_nat base :: u64) = unat value div base"
    and "unat (value div of_nat base :: u64) < unat value"
proof -
  have "unat (of_nat base :: u64) = base" using assms(3) by (simp add: unat_of_nat)
  then show eq: "unat (value div of_nat base :: u64) = unat value div base"
    by (simp add: unat_div_distrib)
  have "0 < unat value" using assms(1) by (simp add: word_less_nat_alt)
  then show "unat (value div of_nat base :: u64) < unat value"
    unfolding eq using assms(2) by simp
qed

function digits_loop :: "nat \<Rightarrow> (u64 \<Rightarrow> u8) \<Rightarrow> u64 \<Rightarrow> int \<Rightarrow> u8 list \<Rightarrow> fault + u8 list" where
  "digits_loop base to_char value cur buf =
     (if 0 < value \<and> 2 \<le> base \<and> base \<le> 16
      then (let d = value mod of_nat base; value' = value div of_nat base; c = to_char d
            in if 0 \<le> cur \<and> cur < 21
               then digits_loop base to_char value' (cur - 1) (buf[nat cur := c])
               else Inl Undefined)
      else Inr buf)"
  by pat_completeness auto
termination
  by (relation "measure (\<lambda>(base, to_char, value, cur, buf). unat value)")
    (use div_base_less(2) in auto)

declare digits_loop.simps [simp del]

text \<open>\<open>while (*str == '\0') str++\<close> on the 21 bytes of the buffer.\<close>

primrec skip_nul :: "u8 list \<Rightarrow> fault + u8 list" where
  "skip_nul [] = Inl Undefined"
| "skip_nul (c # cs) = (if c = 0 then skip_nul cs else Inr (c # cs))"

definition emit_number :: "(u8 \<Rightarrow> 's \<Rightarrow> 's) \<Rightarrow> nat \<Rightarrow> (u64 \<Rightarrow> u8) \<Rightarrow> u64 \<Rightarrow> 's \<Rightarrow> fault + 's" where
  "emit_number putc base to_char value s =
     (if value = 0 then Inr (putc 0x30 s)
      else (case digits_loop base to_char value 19 (replicate 21 0) of
              Inl f \<Rightarrow> Inl f
            | Inr buf \<Rightarrow> (case skip_nul buf of Inl f \<Rightarrow> Inl f | Inr cs \<Rightarrow> Inr (emit_s putc cs s))))"

definition emit_d :: "(u8 \<Rightarrow> 's \<Rightarrow> 's) \<Rightarrow> u64 \<Rightarrow> 's \<Rightarrow> fault + 's" where
  "emit_d putc value s = emit_number putc 10 dec_char value s"

definition emit_x :: "(u8 \<Rightarrow> 's \<Rightarrow> 's) \<Rightarrow> u64 \<Rightarrow> 's \<Rightarrow> fault + 's" where
  "emit_x putc value s = emit_number putc 16 hex_char value s"

definition emit_p :: "(u8 \<Rightarrow> 's \<Rightarrow> 's) \<Rightarrow> u64 \<Rightarrow> 's \<Rightarrow> fault + 's" where
  "emit_p putc ptr s = emit_x putc ptr (emit_s putc (str ''0x'') s)"

subsection \<open>The format loop\<close>

datatype vararg = StrArg "u8 list" | WordArg u64

text \<open>
  \<open>va_arg(args, int)\<close> reads the low 32 bits, and the \<open>uint64_t\<close> parameter of the printing function
  sign-extends them. \<open>hex\<close> is what the file does with an \<open>int\<close> under \<open>%x\<close>.
\<close>

definition int_arg :: "u64 \<Rightarrow> u64" where
  "int_arg w = scast (ucast w :: u32)"

definition emit_conv :: "(u8 \<Rightarrow> 's \<Rightarrow> 's) \<Rightarrow> (u64 \<Rightarrow> u64) \<Rightarrow> u8 \<Rightarrow> vararg \<Rightarrow> 's \<Rightarrow> fault + 's" where
  "emit_conv putc hex c a s =
     (case a of
        StrArg cs \<Rightarrow> if c = chr CHR ''s'' then Inr (emit_s putc cs s) else Inl Undefined
      | WordArg w \<Rightarrow>
          if c = chr CHR ''d'' then emit_d putc (int_arg w) s
          else if c = chr CHR ''p'' then emit_p putc w s
          else if c = chr CHR ''x'' then emit_x putc (hex (int_arg w)) s
          else if c = chr CHR ''c'' then Inr (putc (ucast w) s)
          else Inl Undefined)"

definition conversions :: "u8 list" where
  "conversions = [chr CHR ''s'', chr CHR ''d'', chr CHR ''p'', chr CHR ''x'', chr CHR ''c'']"

function format_loop :: "(u8 \<Rightarrow> 's \<Rightarrow> 's) \<Rightarrow> (u64 \<Rightarrow> u64) \<Rightarrow> u8 list \<Rightarrow> bool \<Rightarrow> vararg list \<Rightarrow> 's \<Rightarrow> fault + 's" where
  "format_loop putc hex [] flag args s = Inr s"
| "format_loop putc hex (c # cs) flag args s =
     (if c = 0 then Inr s
      else if c \<noteq> 0x25 \<and> \<not> flag then format_loop putc hex cs flag args (putc c s)
      else if c = 0x25 \<and> \<not> flag then format_loop putc hex cs True args s
      else if c = 0x25 then format_loop putc hex cs False args (putc 0x25 s)
      else if c \<in> set conversions then
        (case args of
           [] \<Rightarrow> Inl Undefined
         | a # as \<Rightarrow>
             (case emit_conv putc hex c a s of
                Inl f \<Rightarrow> Inl f
              | Inr s' \<Rightarrow> format_loop putc hex cs False as s'))
      else format_loop putc hex (c # cs) False args s)"
  by pat_completeness auto
termination
  by (relation "measure (\<lambda>(putc, hex, cs, flag, args, s). 2 * length cs + (if flag then 1 else 0))") auto

subsection \<open>The functions of \<open>kprint.c\<close>\<close>

definition kprint_c :: "u8 \<Rightarrow> term_t \<Rightarrow> term_t" where
  "kprint_c c t = term_putchar c t"

definition kprint_s :: "u8 list \<Rightarrow> term_t \<Rightarrow> term_t" where
  "kprint_s cs t = emit_s kprint_c cs t"

definition kprint_d :: "u64 \<Rightarrow> term_t \<Rightarrow> fault + term_t" where
  "kprint_d value t = emit_d kprint_c value t"

definition kprint_x :: "u64 \<Rightarrow> term_t \<Rightarrow> fault + term_t" where
  "kprint_x value t = emit_x kprint_c value t"

definition kprint_xd :: "u16 \<Rightarrow> term_t \<Rightarrow> fault + term_t" where
  "kprint_xd v t = kprint_x (ucast v) t"

definition kprint_p :: "u64 \<Rightarrow> term_t \<Rightarrow> fault + term_t" where
  "kprint_p ptr t = emit_p kprint_c ptr t"

definition kprintf :: "u8 list \<Rightarrow> vararg list \<Rightarrow> term_t \<Rightarrow> fault + term_t" where
  "kprintf format args t = format_loop kprint_c (\<lambda>v. ucast (ucast v :: u16)) format False args t"

subsection \<open>Positional notation\<close>

fun digits :: "nat \<Rightarrow> nat \<Rightarrow> nat list" where
  "digits b n = (if b < 2 \<or> n = 0 then [] else digits b (n div b) @ [n mod b])"

declare digits.simps [simp del]

lemma digits_0 [simp]: "digits b 0 = []"
  by (simp add: digits.simps)

lemma digits_step: "2 \<le> b \<Longrightarrow> 0 < n \<Longrightarrow> digits b n = digits b (n div b) @ [n mod b]"
  by (subst digits.simps) auto

definition value_of :: "nat \<Rightarrow> nat list \<Rightarrow> nat" where
  "value_of b ds = foldl (\<lambda>a d. a * b + d) 0 ds"

lemma value_of_digits: "2 \<le> b \<Longrightarrow> value_of b (digits b n) = n"
proof (induction b n rule: digits.induct)
  case (1 b n)
  then show ?case
    by (cases "n = 0") (auto simp: value_of_def digits_step)
qed

lemma digits_less: "2 \<le> b \<Longrightarrow> d \<in> set (digits b n) \<Longrightarrow> d < b"
proof (induction b n rule: digits.induct)
  case (1 b n)
  then show ?case by (cases "n = 0") (auto simp: digits_step)
qed

lemma digits_hd: "2 \<le> b \<Longrightarrow> 0 < n \<Longrightarrow> digits b n \<noteq> [] \<and> hd (digits b n) \<noteq> 0"
proof (induction b n rule: digits.induct)
  case (1 b n)
  show ?case
  proof (cases "n < b")
    case True
    then show ?thesis using 1 by (simp add: digits_step)
  next
    case False
    then have "0 < n div b" using "1.prems" by (simp add: div_greater_zero_iff)
    moreover have "digits b n = digits b (n div b) @ [n mod b]" using 1 by (simp add: digits_step)
    ultimately show ?thesis using 1 by auto
  qed
qed

lemma length_digits: "2 \<le> b \<Longrightarrow> n < b ^ k \<Longrightarrow> length (digits b n) \<le> k"
proof (induction k arbitrary: n)
  case (Suc k)
  show ?case
  proof (cases "n = 0")
    case False
    have "n div b < b ^ k" using Suc.prems by (simp add: less_mult_imp_div_less mult.commute)
    then show ?thesis using Suc.IH [of "n div b"] Suc.prems False by (simp add: digits_step)
  qed simp
qed simp

subsection \<open>The buffer holds the digits\<close>

lemma replicate_Suc_append_same: "replicate (Suc j) x @ ys = replicate j x @ x # ys"
  by (induction j) auto

text \<open>With room for the digits, the loop writes them in front of what is already there.\<close>

lemma digits_loop_buffer:
  assumes base: "2 \<le> base" "base \<le> 16"
    and room: "length (digits base (unat value)) \<le> k" "k \<le> 21"
  shows "digits_loop base to_char value (int k - 1) (replicate k 0 @ suf) =
    Inr (replicate (k - length (digits base (unat value))) 0
      @ map (\<lambda>d. to_char (of_nat d)) (digits base (unat value)) @ suf)"
  using room
proof (induction "unat value" arbitrary: "value" k suf rule: less_induct)
  case less
  show ?case
  proof (cases "value = 0")
    case True
    then show ?thesis by (simp add: digits_loop.simps)
  next
    case False
    then have v: "0 < value" "0 < unat value" by (simp_all add: word_gt_0 unat_gt_0)
    note d = div_base_less [OF v(1) base]
    have step: "digits base (unat value) = digits base (unat (value div of_nat base)) @ [unat value mod base]"
      by (simp add: digits_step base v(2) d(1))
    then obtain j where k: "k = Suc j" using less.prems(1) by (cases k) auto
    have "unat (of_nat base :: u64) = base" using base by (simp add: unat_of_nat)
    moreover have "unat value mod base < 16" using base mod_less_divisor [of base "unat value"] by linarith
    ultimately have m: "value mod of_nat base = of_nat (unat value mod base)"
      by (simp add: word_unat_eq_iff unat_mod_distrib unat_of_nat)
    have upd: "(replicate k 0 @ suf)[j := to_char (value mod of_nat base)]
        = replicate j 0 @ to_char (of_nat (unat value mod base)) # suf"
      unfolding k m replicate_Suc_append_same by (simp add: list_update_append)
    have "digits_loop base to_char value (int k - 1) (replicate k 0 @ suf)
        = digits_loop base to_char (value div of_nat base) (int j - 1)
            (replicate j 0 @ to_char (of_nat (unat value mod base)) # suf)"
      using v base less.prems(2) upd by (subst digits_loop.simps) (simp add: k Let_def)
    also have "\<dots> = Inr (replicate (j - length (digits base (unat (value div of_nat base)))) 0
      @ map (\<lambda>d. to_char (of_nat d)) (digits base (unat (value div of_nat base)))
      @ to_char (of_nat (unat value mod base)) # suf)"
      by (rule less.hyps) (use d(2) step less.prems k in auto)
    finally show ?thesis by (simp add: step k)
  qed
qed

subsection \<open>What is printed\<close>

text \<open>A C string up to its terminator; numerals as text.\<close>

definition c_text :: "u8 list \<Rightarrow> u8 list" where
  "c_text cs = takeWhile (\<lambda>c. c \<noteq> 0) cs"

definition digit_char :: "nat \<Rightarrow> u8" where
  "digit_char d = str ''0123456789ABCDEF'' ! d"

definition numeral_text :: "nat \<Rightarrow> nat \<Rightarrow> u8 list" where
  "numeral_text b n = (if n = 0 then [0x30] else map digit_char (digits b n))"

lemma emit_s_text: "emit_s putc cs s = fold putc (c_text cs) s"
  by (induction cs arbitrary: s) (auto simp: c_text_def)

lemma hex_digit: "(d :: nat) < 16 \<longleftrightarrow> d \<in> {0, 1, 2, 3, 4, 5, 6, 7, 8, 9, 10, 11, 12, 13, 14, 15}"
  by (simp only: insert_iff empty_iff) presburger

lemma digit_char_nonzero: "d < 16 \<Longrightarrow> digit_char d \<noteq> 0"
  unfolding hex_digit by (auto simp: digit_char_def)

lemma hex_char_digit: "d < 16 \<Longrightarrow> hex_char (of_nat d) = digit_char d"
  unfolding hex_digit by (auto simp: hex_char_def digit_char_def)

lemma dec_char_digit: "d < 10 \<Longrightarrow> dec_char (of_nat d) = digit_char d"
  using hex_digit [of d] by (auto simp: dec_char_def digit_char_def)

lemma skip_nul_text: "cs \<noteq> [] \<Longrightarrow> hd cs \<noteq> 0 \<Longrightarrow> skip_nul (replicate n 0 @ cs) = Inr cs"
  by (induction n) (auto simp: neq_Nil_conv)

lemma emit_number_text:
  assumes base: "2 \<le> base" "base \<le> 16" and room: "unat v < base ^ 20"
    and chars: "\<And>d. d < base \<Longrightarrow> to_char (of_nat d) = digit_char d"
  shows "emit_number putc base to_char v s = Inr (fold putc (numeral_text base (unat v)) s)"
proof (cases "v = 0")
  case True
  then show ?thesis by (simp add: emit_number_def numeral_text_def)
next
  case False
  define ds where "ds = digits base (unat v)"
  let ?cs = "map digit_char ds"
  have len: "length ds \<le> 20" unfolding ds_def by (rule length_digits [OF base(1) room])
  have v: "0 < unat v" using False by (simp add: unat_gt_0)
  have eq: "map (\<lambda>d. to_char (of_nat d)) ds = ?cs"
    using digits_less [OF base(1)] chars by (auto simp: ds_def)
  have "digits_loop base to_char v (int 20 - 1) (replicate 20 0 @ [0]) = Inr (replicate (20 - length ds) 0 @ ?cs @ [0])"
    using digits_loop_buffer [OF base, of v 20 to_char "[0]"] len by (simp add: ds_def [symmetric] eq)
  moreover have "replicate 20 0 @ [0] = replicate 21 (0 :: u8)" by (simp add: replicate_append_same numeral_eq_Suc)
  ultimately have loop: "digits_loop base to_char v 19 (replicate 21 0) = Inr (replicate (20 - length ds) 0 @ ?cs @ [0])"
    by simp
  have nz: "\<forall>c \<in> set ?cs. c \<noteq> 0"
    using digits_less [OF base(1)] base(2) digit_char_nonzero by (fastforce simp: ds_def)
  have "ds \<noteq> []" using digits_hd [OF base(1) v] by (simp add: ds_def)
  then have "skip_nul (replicate (20 - length ds) 0 @ ?cs @ [0]) = Inr (?cs @ [0])"
    using nz by (intro skip_nul_text) (auto simp: neq_Nil_conv)
  moreover have "c_text (?cs @ [0]) = ?cs" 
    using nz unfolding c_text_def by (subst takeWhile_append2) auto
  ultimately show ?thesis
    using False v by (simp add: emit_number_def loop emit_s_text numeral_text_def ds_def)
qed

lemma emit_d_text: "emit_d putc v s = Inr (fold putc (numeral_text 10 (unat v)) s)"
proof -
  have "unat v < 10 ^ 20" by (rule less_le_trans [OF unsigned_less]) simp
  then show ?thesis unfolding emit_d_def by (intro emit_number_text) (auto simp: dec_char_digit)
qed

lemma emit_x_text: "emit_x putc v s = Inr (fold putc (numeral_text 16 (unat v)) s)"
proof -
  have "unat v < 16 ^ 20" by (rule less_le_trans [OF unsigned_less]) simp
  then show ?thesis unfolding emit_x_def by (intro emit_number_text) (auto simp: hex_char_digit)
qed

subsection \<open>What a format means\<close>

datatype piece = Literal u8 | Conv u8

text \<open>A \<open>%\<close> before a character that is no conversion is skipped, and so is one at the end.\<close>

fun pieces :: "u8 list \<Rightarrow> piece list" where
  "pieces [] = []"
| "pieces [c] = (if c = 0x25 then [] else [Literal c])"
| "pieces (c # d # cs) =
     (if c \<noteq> 0x25 then Literal c # pieces (d # cs)
      else (if d \<in> set conversions then Conv d else Literal d) # pieces cs)"

fun conv_text :: "(u64 \<Rightarrow> u64) \<Rightarrow> u8 \<Rightarrow> vararg \<Rightarrow> u8 list option" where
  "conv_text hex c (StrArg cs) = (if c = chr CHR ''s'' then Some (c_text cs) else None)"
| "conv_text hex c (WordArg w) =
     (if c = chr CHR ''d'' then Some (numeral_text 10 (unat (int_arg w)))
      else if c = chr CHR ''p'' then Some (str ''0x'' @ numeral_text 16 (unat w))
      else if c = chr CHR ''x'' then Some (numeral_text 16 (unat (hex (int_arg w))))
      else if c = chr CHR ''c'' then Some [ucast w] else None)"

fun render :: "(u64 \<Rightarrow> u64) \<Rightarrow> piece list \<Rightarrow> vararg list \<Rightarrow> u8 list option" where
  "render hex [] args = Some []"
| "render hex (Literal c # ps) args = map_option ((#) c) (render hex ps args)"
| "render hex (Conv c # ps) [] = None"
| "render hex (Conv c # ps) (a # args) =
     (case conv_text hex c a of None \<Rightarrow> None | Some t \<Rightarrow> map_option ((@) t) (render hex ps args))"

lemma emit_conv_text:
  "emit_conv putc hex c a s = (case conv_text hex c a of None \<Rightarrow> Inl Undefined | Some t \<Rightarrow> Inr (fold putc t s))"
  by (cases a) (simp_all add: emit_conv_def emit_s_text emit_d_text emit_x_text emit_p_def c_text_def)

lemma format_loop_conv:
  assumes "c \<in> set conversions"
  shows "format_loop putc hex (c # cs) True args s = (case args of [] \<Rightarrow> Inl Undefined
    | a # as \<Rightarrow> (case emit_conv putc hex c a s of Inl f \<Rightarrow> Inl f | Inr s' \<Rightarrow> format_loop putc hex cs False as s'))"
  using assms by (subst format_loop.simps) (auto simp: conversions_def)

lemma fold_map_option:
  "(case map_option ((@) t) x of None \<Rightarrow> e | Some u \<Rightarrow> Inr (fold putc u s))
    = (case x of None \<Rightarrow> e | Some u \<Rightarrow> Inr (fold putc u (fold putc t s)))"
  by (cases x) simp_all

lemma format_loop_text:
  "format_loop putc hex cs False args s = (case render hex (pieces (c_text cs)) args of
     None \<Rightarrow> Inl Undefined | Some t \<Rightarrow> Inr (fold putc t s))"
proof (induction "length cs" arbitrary: cs args s rule: less_induct)
  case less
  show ?case
  proof (cases cs)
    case Nil
    then show ?thesis by (simp add: c_text_def)
  next
    case (Cons c ds)
    consider (nul) "c = 0" | (lit) "c \<noteq> 0" "c \<noteq> 0x25" | (pct) "c = 0x25" by blast
    then show ?thesis
    proof cases
      case nul
      then show ?thesis by (simp add: Cons c_text_def)
    next
      case lit
      then have "pieces (c_text cs) = Literal c # pieces (c_text ds)"
        by (cases "c_text ds") (simp_all add: Cons c_text_def)
      moreover have "format_loop putc hex cs False args s = format_loop putc hex ds False args (putc c s)"
        using lit by (simp add: Cons)
      ultimately show ?thesis
        using less.hyps [of ds args "putc c s"] by (simp add: Cons split: option.splits)
    next
      case pct
      have opn: "format_loop putc hex cs False args s = format_loop putc hex ds True args s"
        using pct by (simp add: Cons)
      show ?thesis
      proof (cases ds)
        case Nil
        then show ?thesis using opn pct by (simp add: Cons c_text_def)
      next
        case (Cons d es)
        note ds = Cons
        have short: "length es < length cs" by (simp add: \<open>cs = c # ds\<close> ds)
        consider (nul') "d = 0" | (conv) "d \<in> set conversions" | (pct') "d = 0x25"
          | (other) "d \<noteq> 0" "d \<notin> set conversions" "d \<noteq> 0x25" by blast
        then show ?thesis
        proof cases
          case nul'
          then show ?thesis using opn pct by (simp add: \<open>cs = c # ds\<close> ds c_text_def)
        next
          case conv
          then have "d \<noteq> 0" by (auto simp: conversions_def)
          then have pc: "pieces (c_text cs) = Conv d # pieces (c_text es)"
            using conv pct by (simp add: \<open>cs = c # ds\<close> ds c_text_def)
          show ?thesis
            unfolding pc opn [unfolded ds format_loop_conv [OF conv]] less.hyps [OF short]
            by (cases args) (simp_all add: emit_conv_text fold_map_option split: option.split)
        next
          case pct'
          then have "pieces (c_text cs) = Literal d # pieces (c_text es)"
            using pct by (simp add: \<open>cs = c # ds\<close> ds c_text_def conversions_def)
          then show ?thesis
            using opn pct' less.hyps [OF short] by (simp add: ds split: option.splits)
        next
          case other
          then have "pieces (c_text cs) = Literal d # pieces (c_text es)"
            using pct by (simp add: \<open>cs = c # ds\<close> ds c_text_def)
          then show ?thesis
            using opn other less.hyps [OF short] by (simp add: ds split: option.splits)
        qed
      qed
    qed
  qed
qed

subsection \<open>Properties\<close>

lemma kprint_c_putchar: "kprint_c = term_putchar"
  by (simp add: fun_eq_iff kprint_c_def)

text \<open>The text a call of \<open>kprintf\<close> puts on the terminal, and how it is read off the format.\<close>

definition ktext :: "u8 list \<Rightarrow> vararg list \<Rightarrow> u8 list option" where
  "ktext format args = render (\<lambda>v. ucast (ucast v :: u16)) (pieces (c_text format)) args"

lemma kprintf_text:
  "kprintf format args t =
     (case ktext format args of None \<Rightarrow> Inl Undefined | Some cs \<Rightarrow> Inr (fold term_putchar cs t))"
  by (simp add: kprintf_def ktext_def format_loop_text kprint_c_putchar)

definition no_format :: "u8 list \<Rightarrow> bool" where
  "no_format cs \<longleftrightarrow> list_all (\<lambda>c. c \<noteq> 0 \<and> c \<noteq> 0x25) cs"

lemma no_format_simps [simp]:
  "no_format []" "no_format (c # cs) \<longleftrightarrow> c \<noteq> 0 \<and> c \<noteq> 0x25 \<and> no_format cs" "no_format (cs @ ds) \<longleftrightarrow> no_format cs \<and> no_format ds"
  by (simp_all add: no_format_def)

lemma pieces_literal: "c \<noteq> 0x25 \<Longrightarrow> pieces (c # cs) = Literal c # pieces cs"
  by (cases cs) simp_all

lemma ktext_Nil: "ktext [] args = Some []"
  by (simp add: ktext_def c_text_def)

lemma ktext_Cons: "c \<noteq> 0 \<Longrightarrow> c \<noteq> 0x25 \<Longrightarrow> ktext (c # cs) args = map_option ((#) c) (ktext cs args)"
  by (simp add: ktext_def c_text_def pieces_literal)

lemma ktext_append: "no_format cs \<Longrightarrow> ktext (cs @ ds) args = map_option ((@) cs) (ktext ds args)"
  by (cases "ktext ds args") (induction cs, simp_all add: ktext_Cons)+

lemma ktext_literal: "no_format cs \<Longrightarrow> ktext cs args = Some cs"
  using ktext_append [of cs "[]"] by (simp add: ktext_Nil)

lemma ktext_conv:
  "d \<in> set conversions \<Longrightarrow> ktext (0x25 # d # cs) (a # args) =
     (case conv_text (\<lambda>v. ucast (ucast v :: u16)) d a of None \<Rightarrow> None
      | Some t \<Rightarrow> map_option ((@) t) (ktext cs args))"
  by (auto simp: ktext_def c_text_def conversions_def split: option.split)

text \<open>Several calls one after the other.\<close>

primrec prints :: "(u8 list \<times> vararg list) list \<Rightarrow> term_t \<Rightarrow> fault + term_t" where
  "prints [] t = Inr t"
| "prints (c # cs) t = bindf (kprintf (fst c) (snd c) t) (prints cs)"

primrec ktexts :: "(u8 list \<times> vararg list) list \<Rightarrow> u8 list option" where
  "ktexts [] = Some []"
| "ktexts (c # cs) = (case ktext (fst c) (snd c) of None \<Rightarrow> None | Some u \<Rightarrow> map_option ((@) u) (ktexts cs))"

lemma prints_text:
  "prints cs t = (case ktexts cs of None \<Rightarrow> Inl Undefined | Some u \<Rightarrow> Inr (fold term_putchar u t))"
  by (induction cs arbitrary: t) (auto simp: kprintf_text split: option.split)

lemma ktexts_append:
  "ktexts (cs @ ds) = (case ktexts cs of None \<Rightarrow> None | Some u \<Rightarrow> map_option ((@) u) (ktexts ds))"
  by (cases "ktexts ds") (induction cs, auto split: option.splits)+

text \<open>A line of text in the source: the characters of the literal and a newline.\<close>

abbreviation line :: "string \<Rightarrow> u8 list" where
  "line s \<equiv> str s @ [0x0A]"

text \<open>
  \<open>kprint_d\<close> and \<open>kprint_x\<close> print the decimal and the hexadecimal numeral of any 64-bit value,
  without leading zeros; the at most 20 digits never leave the 21-byte buffer.
\<close>

theorem kprint_numerals:
  "kprint_d v t = Inr (fold term_putchar (numeral_text 10 (unat v)) t)
   \<and> kprint_x v t = Inr (fold term_putchar (numeral_text 16 (unat v)) t)
   \<and> value_of 10 (digits 10 (unat v)) = unat v \<and> value_of 16 (digits 16 (unat v)) = unat v
   \<and> length (digits 10 (unat v)) \<le> 20 \<and> length (digits 16 (unat v)) \<le> 16
   \<and> ((hd (digits 10 (unat v)) \<noteq> 0 \<and> hd (digits 16 (unat v)) \<noteq> 0) \<or> v = 0)"
proof -
  have v: "unat v < 2 ^ 64" by (rule less_le_trans [OF unsigned_less]) simp
  have "length (digits 10 (unat v)) \<le> 20" "length (digits 16 (unat v)) \<le> 16"
    by (rule length_digits, simp, rule less_le_trans [OF v], simp)+
  then show ?thesis
    using digits_hd [of 10 "unat v"] digits_hd [of 16 "unat v"]
    by (auto simp: kprint_d_def kprint_x_def emit_d_text emit_x_text kprint_c_putchar value_of_digits unat_gt_0)
qed

text \<open>
  C21: \<open>kprintf\<close> prints the rendering of its format: the literal characters, the conversions of the
  arguments in order, and nothing for a \<open>%\<close> that no conversion follows; the only formats it goes
  wrong on are those that ask for an argument that was not passed or is of the wrong kind.
\<close>

theorem kprintf_renders:
  "kprintf format args t =
     (case render (\<lambda>v. ucast (ucast v :: u16)) (pieces (c_text format)) args of
        None \<Rightarrow> Inl Undefined
      | Some cs \<Rightarrow> Inr (fold term_putchar cs t))"
  by (simp add: kprintf_text ktext_def)

lemma int_arg_ucast: "int_arg (ucast x) = scast (x :: u32)"
  unfolding int_arg_def by (rule arg_cong [where f = scast]) (rule bit_word_eqI, auto simp: bits)

lemma unat_int_arg_negative:
  assumes "sint (x :: u32) < 0"
  shows "unat (int_arg (ucast x)) = nat (2 ^ 64 + sint x)"
proof -
  have lo: "- (2 ^ 31) \<le> sint x" using sint_greater_eq [of x] by simp
  have "uint (scast x :: u64) = sint x mod 2 ^ 64"
    unfolding scast_eq uint_word_of_int by simp
  also have "\<dots> = (sint x + 2 ^ 64) mod 2 ^ 64" by simp
  also have "\<dots> = sint x + 2 ^ 64" using lo assms by (intro mod_pos_pos_trivial) simp_all
  finally have "nat (uint (scast x :: u64)) = nat (2 ^ 64 + sint x)" by (simp add: add.commute)
  then show ?thesis unfolding int_arg_ucast nat_uint_eq .
qed

lemma unat_low16: "unat (ucast (ucast (int_arg w) :: u16) :: u64) = unat w mod 2 ^ 16"
proof -
  have "ucast (int_arg w) = (ucast w :: u16)"
    by (rule bit_word_eqI) (auto simp: bits int_arg_def)
  then show ?thesis by (simp add: unsigned_ucast_eq take_bit_eq_mod unat_mod_distrib)
qed

lemma unat_int_arg:
  "unat (int_arg (ucast (x :: u32))) = (if 0 \<le> sint x then nat (sint x) else nat (2 ^ 64 + sint x))"
proof (cases "0 \<le> sint x")
  case True
  have "uint (scast x :: u64) = sint x mod 2 ^ 64" unfolding scast_eq uint_word_of_int by simp
  moreover have "sint x < 2 ^ 31" using sint_less [of x] by simp
  ultimately have "uint (scast x :: u64) = sint x" using True by simp
  then show ?thesis using True unfolding int_arg_ucast nat_uint_eq [symmetric] by simp
qed (simp add: unat_int_arg_negative)

text \<open>
  C22: whatever literal text stands around them, \<open>%d\<close> prints an \<open>int\<close> that is not negative in decimal and a
  negative one as the 64-bit number that it sign-extends to, and \<open>%x\<close> prints only the lowest 16 bits of its
  argument, in hexadecimal.
\<close>

theorem kprintf_int_and_hex:
  assumes "no_format pre" "no_format mid" "no_format post"
  shows "kprintf (pre @ str ''%d'' @ mid @ str ''%x'' @ post) [WordArg (ucast (x :: u32)), WordArg w] t =
    Inr (fold term_putchar (pre @ numeral_text 10 (if 0 \<le> sint x then nat (sint x) else nat (2 ^ 64 + sint x))
      @ mid @ numeral_text 16 (unat w mod 2 ^ 16) @ post) t)"
  using assms by (simp add: kprintf_text ktext_append ktext_conv ktext_literal conversions_def unat_int_arg unat_low16)

lemma kprintf_int_and_hex_witness:
  "kprintf (str ''%d %x'') [WordArg (ucast (- 1 :: u32)), WordArg 0x12345] blank_term =
      Inr (fold term_putchar (numeral_text 10 (2 ^ 64 - 1) @ [0x20] @ numeral_text 16 0x2345) blank_term)
    \<and> kprintf (str ''%d %x'') [WordArg (ucast (2147483647 :: u32)), WordArg 0] blank_term =
      Inr (fold term_putchar (numeral_text 10 2147483647 @ [0x20] @ numeral_text 16 0) blank_term)"
  using kprintf_int_and_hex [of "[]" "[0x20]" "[]" "- 1" "0x12345" blank_term]
    kprintf_int_and_hex [of "[]" "[0x20]" "[]" 2147483647 0 blank_term] by simp

end
