(* ===== verification/Pic.thy ===== *)
theory Pic
  imports Port
begin

text \<open>
  \<open>kernel/pic.c\<close>: the keyboard state and its ring buffer (\<open>shift\<close>, \<open>is_shift\<close>, \<open>write_char\<close>,
  \<open>kgetc\<close>), and the interrupt controllers (\<open>pic_init\<close>, \<open>pic_mask_irq\<close>, \<open>pic_unmask_irq\<close>).

  The heads are C \<open>int\<close>s that stay between 0 and 500, natural numbers here; an access outside
  the 500-character buffer is \<open>Undefined\<close>. \<open>chars\<close> abstracts the ring to the list of characters
  waiting in it, and the locale \<open>char_queue\<close> is the bounded queue its clients rely on.
\<close>

subsection \<open>Keyboard state\<close>

abbreviation (input) BUFFER_LEN :: nat where "BUFFER_LEN \<equiv> 500"

record kbd_t =
  buffer :: "u8 list"
  readhead :: nat
  writehead :: nat
  shiftl :: bool
  shiftr :: bool
  avail :: u16

definition kbd_boot :: kbd_t where
  "kbd_boot = \<lparr>buffer = replicate BUFFER_LEN 0, readhead = 0, writehead = 0,
     shiftl = False, shiftr = False, avail = 0\<rparr>"

definition shift :: "u8 \<Rightarrow> kbd_t \<Rightarrow> bool \<times> kbd_t" where
  "shift inp k =
     (if inp = 0x2A then (True, k\<lparr>shiftl := True\<rparr>)
      else if inp = 0x36 then (True, k\<lparr>shiftr := True\<rparr>)
      else if inp = 0xAA then (True, k\<lparr>shiftl := False\<rparr>)
      else if inp = 0xB6 then (True, k\<lparr>shiftr := False\<rparr>)
      else (False, k))"

definition is_shift :: "kbd_t \<Rightarrow> bool" where
  "is_shift k \<longleftrightarrow> shiftl k \<or> shiftr k"

definition write_char :: "u8 \<Rightarrow> kbd_t \<Rightarrow> fault + kbd_t" where
  "write_char c k =
     (if readhead k = writehead k \<and> avail k \<noteq> 0 then Inr k
      else if writehead k < BUFFER_LEN
      then (let k1 = k\<lparr>buffer := (buffer k)[writehead k := c], writehead := writehead k + 1\<rparr>;
                k2 = k1\<lparr>avail := avail k1 + 1\<rparr>
            in Inr (k2\<lparr>writehead := writehead k2 mod BUFFER_LEN\<rparr>))
      else Inl Undefined)"

text \<open>\<open>kgetc\<close> once \<open>avail\<close> is not 0, and no interrupt in between.\<close>

definition kgetc_body :: "kbd_t \<Rightarrow> fault + (u8 \<times> kbd_t)" where
  "kgetc_body k =
     (if readhead k < BUFFER_LEN
      then (let c = buffer k ! readhead k;
                k1 = k\<lparr>buffer := (buffer k)[readhead k := 0], readhead := readhead k + 1\<rparr>;
                k2 = k1\<lparr>readhead := readhead k1 mod BUFFER_LEN\<rparr>
            in Inr (c, k2\<lparr>avail := avail k2 - 1\<rparr>))
      else Inl Undefined)"

subsection \<open>The ring as a queue\<close>

definition chars :: "kbd_t \<Rightarrow> u8 list" where
  "chars k = map (\<lambda>i. buffer k ! ((readhead k + i) mod BUFFER_LEN)) [0..<unat (avail k)]"

definition kbd_ok :: "kbd_t \<Rightarrow> bool" where
  "kbd_ok k \<longleftrightarrow> length (buffer k) = BUFFER_LEN \<and> readhead k < BUFFER_LEN
     \<and> unat (avail k) \<le> BUFFER_LEN \<and> writehead k = (readhead k + unat (avail k)) mod BUFFER_LEN"

text \<open>Several characters put in, or taken out, one after the other.\<close>

primrec put_all :: "('c \<Rightarrow> 'q \<Rightarrow> 'e + 'q) \<Rightarrow> 'c list \<Rightarrow> 'q \<Rightarrow> 'e + 'q" where
  "put_all put [] q = Inr q"
| "put_all put (c # cs) q = (case put c q of Inl e \<Rightarrow> Inl e | Inr q' \<Rightarrow> put_all put cs q')"

primrec get_many :: "('q \<Rightarrow> 'e + ('c \<times> 'q)) \<Rightarrow> nat \<Rightarrow> 'q \<Rightarrow> 'e + ('c list \<times> 'q)" where
  "get_many get 0 q = Inr ([], q)"
| "get_many get (Suc n) q = (case get q of Inl e \<Rightarrow> Inl e
     | Inr (c, q1) \<Rightarrow> (case get_many get n q1 of Inl e \<Rightarrow> Inl e | Inr (cs, q2) \<Rightarrow> Inr (c # cs, q2)))"

locale char_queue =
  fixes put :: "'c \<Rightarrow> 'q \<Rightarrow> 'e + 'q"
    and get :: "'q \<Rightarrow> 'e + ('c \<times> 'q)"
    and content :: "'q \<Rightarrow> 'c list"
    and ok :: "'q \<Rightarrow> bool"
    and capacity :: nat
  assumes put_ok: "ok q \<Longrightarrow> \<exists>q'. put c q = Inr q' \<and> ok q'
      \<and> content q' = (if length (content q) < capacity then content q @ [c] else content q)"
    and get_ok: "ok q \<Longrightarrow> content q = c # cs \<Longrightarrow> \<exists>q'. get q = Inr (c, q') \<and> ok q' \<and> content q' = cs"
    and content_bound: "ok q \<Longrightarrow> length (content q) \<le> capacity"
begin

lemma put_all_ok:
  assumes "ok q"
  shows "\<exists>q'. put_all put cs q = Inr q' \<and> ok q' \<and> content q' = take capacity (content q @ cs)"
  using assms
proof (induction cs arbitrary: q)
  case Nil
  then show ?case using content_bound [OF Nil] by simp
next
  case (Cons c cs)
  obtain q1 where q1: "put c q = Inr q1" "ok q1"
    "content q1 = (if length (content q) < capacity then content q @ [c] else content q)"
    using put_ok [OF Cons.prems] by blast
  obtain q2 where "put_all put cs q1 = Inr q2" "ok q2" "content q2 = take capacity (content q1 @ cs)"
    using Cons.IH [OF q1(2)] by blast
  then show ?case using q1 content_bound [OF Cons.prems] by (auto simp: take_Cons')
qed

lemma get_many_ok:
  assumes "ok q" "content q = cs @ ds"
  shows "\<exists>q'. get_many get (length cs) q = Inr (cs, q') \<and> ok q' \<and> content q' = ds"
  using assms
proof (induction cs arbitrary: q)
  case (Cons c cs)
  obtain q1 where q1: "get q = Inr (c, q1)" "ok q1" "content q1 = cs @ ds"
    using get_ok [OF Cons.prems(1), of c "cs @ ds"] Cons.prems(2) by auto
  then show ?case using Cons.IH [OF q1(2,3)] by auto
qed simp

text \<open>First in, first out, and what does not fit is dropped.\<close>

lemma fifo:
  assumes "ok q" "content q = []" "length cs \<le> capacity"
  shows "\<exists>q1 q2. put_all put cs q = Inr q1 \<and> get_many get (length cs) q1 = Inr (cs, q2) \<and> content q2 = []"
proof -
  obtain q1 where "put_all put cs q = Inr q1" "ok q1" "content q1 = cs"
    using put_all_ok [OF assms(1), of cs] assms(2,3) by auto
  with get_many_ok [of q1 cs "[]"] show ?thesis by auto
qed

end

lemma length_chars [simp]: "length (chars k) = unat (avail k)"
  by (simp add: chars_def)

lemma ring_index_eq:
  fixes r i j n :: nat
  assumes "i < n" "j < n"
  shows "(r + i) mod n = (r + j) mod n \<longleftrightarrow> i = j"
proof -
  have "i = j" if "i < n" "j < n" "i \<le> j" "(r + i) mod n = (r + j) mod n" for i j
  proof -
    have "n dvd (r + j) - (r + i)" using that mod_eq_dvd_iff_nat [of "r + i" "r + j" n] by simp
    then have "n dvd j - i" by simp
    then show "i = j" using that by (metis diff_is_0_eq' dvd_imp_le le_antisym less_imp_diff_less not_less zero_less_diff)
  qed
  from this [of i j] this [of j i] show ?thesis using assms by (metis nat_le_linear)
qed

lemma ring_full:
  assumes "kbd_ok k"
  shows "readhead k = writehead k \<and> avail k \<noteq> 0 \<longleftrightarrow> unat (avail k) = BUFFER_LEN"
proof -
  have k: "readhead k < 500" "unat (avail k) \<le> 500" "writehead k = (readhead k + unat (avail k)) mod 500"
    using assms by (simp_all add: kbd_ok_def)
  have "readhead k = writehead k \<longleftrightarrow> unat (avail k) = 0" if "unat (avail k) < 500"
    using ring_index_eq [of 0 500 "unat (avail k)" "readhead k"] that k by auto
  moreover have "avail k = 0 \<longleftrightarrow> unat (avail k) = 0" by (simp add: unat_eq_0)
  moreover have "readhead k = writehead k" if "unat (avail k) = 500" using that k by simp
  ultimately show ?thesis using k(2) by (metis le_neq_implies_less zero_neq_numeral)
qed

lemma write_char_chars:
  assumes ok: "kbd_ok k"
  shows "\<exists>k'. write_char c k = Inr k' \<and> kbd_ok k'
    \<and> chars k' = (if length (chars k) < BUFFER_LEN then chars k @ [c] else chars k)"
proof (cases "unat (avail k) = 500")
  case True
  then show ?thesis using ok ring_full [OF ok] by (simp add: write_char_def)
next
  case False
  have k: "length (buffer k) = 500" "readhead k < 500" "unat (avail k) < 500"
    "writehead k = (readhead k + unat (avail k)) mod 500"
    using ok False by (simp_all add: kbd_ok_def)
  have a: "unat (avail k + 1) = Suc (unat (avail k))"
    using k(3) by (simp add: unat_word_ariths)
  let ?k = "k\<lparr>buffer := (buffer k)[writehead k := c], avail := avail k + 1,
    writehead := (writehead k + 1) mod 500\<rparr>"
  have w: "write_char c k = Inr ?k"
    using False ring_full [OF ok] k(2,3) by (auto simp: write_char_def Let_def k(4))
  have "kbd_ok ?k" using k a by (simp add: kbd_ok_def mod_Suc_eq)
  moreover have "chars ?k = chars k @ [c]"
  proof -
    have "writehead k \<noteq> (readhead k + i) mod 500" if "i < unat (avail k)" for i
      using ring_index_eq [of i 500 "unat (avail k)" "readhead k"] that k(3) by (simp add: k(4))
    moreover have "writehead k < 500" using k(4) by simp
    ultimately show ?thesis using k by (simp add: chars_def a)
  qed
  ultimately show ?thesis using w k(3) by auto
qed

lemma kgetc_body_chars:
  assumes ok: "kbd_ok k" and cs: "chars k = c # cs"
  shows "\<exists>k'. kgetc_body k = Inr (c, k') \<and> kbd_ok k' \<and> chars k' = cs"
proof -
  have k: "length (buffer k) = 500" "readhead k < 500" "unat (avail k) \<le> 500"
    "writehead k = (readhead k + unat (avail k)) mod 500"
    using ok by (simp_all add: kbd_ok_def)
  have n: "unat (avail k) = Suc (length cs)" using arg_cong [OF cs, of length] by simp
  then have a: "unat (avail k - 1) = length cs" by unat_arith
  let ?k = "k\<lparr>buffer := (buffer k)[readhead k := 0], avail := avail k - 1,
    readhead := (readhead k + 1) mod 500\<rparr>"
  have "c = buffer k ! readhead k"
    using arg_cong [OF cs, of "\<lambda>xs. xs ! 0"] k(2) n by (simp add: chars_def del: upt_Suc)
  then have "kgetc_body k = Inr (c, ?k)" using k by (simp add: kgetc_body_def Let_def)
  moreover have "kbd_ok ?k" using k n a by (simp add: kbd_ok_def mod_simps)
  moreover have "chars ?k = cs"
  proof (rule nth_equalityI)
    fix i assume "i < length (chars ?k)"
    then have i: "i < length cs" by (simp add: a)
    have "cs ! i = chars k ! Suc i" by (simp add: cs)
    also have "\<dots> = buffer k ! ((readhead k + Suc i) mod 500)"
      using i n by (simp add: chars_def del: upt_Suc)
    also have "(readhead k + Suc i) mod 500 \<noteq> readhead k"
      using ring_index_eq [of 0 500 "Suc i" "readhead k"] k(2,3) i n by auto
    then have "buffer k ! ((readhead k + Suc i) mod 500)
        = (buffer k)[readhead k := 0] ! ((readhead k + Suc i) mod 500)" by simp
    finally show "chars ?k ! i = cs ! i" using i a by (simp add: chars_def mod_simps)
  qed (simp add: a)
  ultimately show ?thesis by blast
qed

interpretation kq: char_queue write_char kgetc_body chars kbd_ok BUFFER_LEN
proof unfold_locales
  show "length (chars k) \<le> BUFFER_LEN" if "kbd_ok k" for k using that by (simp add: kbd_ok_def)
qed (simp_all only: write_char_chars kgetc_body_chars)

subsection \<open>\<open>kgetc\<close> and the keyboard interrupt, step by step\<close>

text \<open>
  \<open>kgetc\<close> runs with interrupts enabled, so \<open>write_char\<close>, which the interrupt handler runs to its
  end, can come between any two of its accesses. Each statement is a step, and \<open>avail--\<close> is two:
  \<open>avail\<close> is volatile, it is read and then written.
\<close>

datatype kpc = Wait | Fetch | Clear u8 | Wrap u8 | Load u8 | Store u8 u16 | Return u8

inductive kgetc_step :: "kpc \<Rightarrow> kbd_t \<Rightarrow> kpc \<Rightarrow> kbd_t \<Rightarrow> bool" where
  ready: "avail k \<noteq> 0 \<Longrightarrow> kgetc_step Wait k Fetch k"
| spin: "avail k = 0 \<Longrightarrow> kgetc_step Wait k Wait k"
| fetch: "readhead k < BUFFER_LEN \<Longrightarrow> kgetc_step Fetch k (Clear (buffer k ! readhead k)) k"
| clear: "readhead k < BUFFER_LEN \<Longrightarrow>
    kgetc_step (Clear c) k (Wrap c) (k\<lparr>buffer := (buffer k)[readhead k := 0], readhead := readhead k + 1\<rparr>)"
| wrap: "kgetc_step (Wrap c) k (Load c) (k\<lparr>readhead := readhead k mod BUFFER_LEN\<rparr>)"
| load: "kgetc_step (Load c) k (Store c (avail k)) k"
| store: "kgetc_step (Store c a) k (Return c) (k\<lparr>avail := a - 1\<rparr>)"

text \<open>The reader calls \<open>kgetc\<close> again and again; a key arrives at any point.\<close>

inductive kbd_step :: "kpc \<times> kbd_t \<Rightarrow> kpc \<times> kbd_t \<Rightarrow> bool" where
  reader: "kgetc_step pc k pc' k' \<Longrightarrow> kbd_step (pc, k) (pc', k')"
| again: "kbd_step (Return c, k) (Wait, k)"
| key: "write_char c k = Inr k' \<Longrightarrow> kbd_step (pc, k) (pc, k')"

inductive kbd_reach :: "kpc \<times> kbd_t \<Rightarrow> bool" where
  boot: "kbd_reach (Wait, kbd_boot)"
| step: "kbd_reach s \<Longrightarrow> kbd_step s s' \<Longrightarrow> kbd_reach s'"

inductive_cases kgetc_stepE: "kgetc_step pc k pc' k'"
inductive_cases kbd_stepE: "kbd_step s s'"

definition in_bounds :: "kpc \<times> kbd_t \<Rightarrow> bool" where
  "in_bounds s \<longleftrightarrow> length (buffer (snd s)) = BUFFER_LEN \<and> writehead (snd s) < BUFFER_LEN
     \<and> readhead (snd s) \<le> BUFFER_LEN \<and> ((\<forall>c. fst s \<noteq> Wrap c) \<longrightarrow> readhead (snd s) < BUFFER_LEN)"

lemma write_char_in_bounds:
  assumes "write_char c k = Inr k'" "in_bounds (pc, k)"
  shows "in_bounds (pc, k')"
  using assms by (auto simp: in_bounds_def write_char_def Let_def split: if_splits)

lemma kgetc_step_in_bounds:
  assumes "kgetc_step pc k pc' k'" "in_bounds (pc, k)"
  shows "in_bounds (pc', k')"
  using assms by (cases rule: kgetc_step.cases) (auto simp: in_bounds_def)

lemma reach_in_bounds: "kbd_reach s \<Longrightarrow> in_bounds s"
proof (induction rule: kbd_reach.induct)
  case boot
  then show ?case by (simp add: in_bounds_def kbd_boot_def)
next
  case (step s s')
  from step.hyps(2) show ?case
  proof (cases rule: kbd_step.cases)
    case (reader pc k pc' k')
    then show ?thesis using kgetc_step_in_bounds step.IH by simp
  next
    case (again c k)
    then show ?thesis using step.IH by (simp add: in_bounds_def)
  next
    case (key c k k' pc)
    then show ?thesis using write_char_in_bounds step.IH by simp
  qed
qed

text \<open>
  The runs in which no key arrives between the update of \<open>readhead\<close> and that of \<open>avail\<close>, with the
  characters accepted and the characters returned so far.
\<close>

definition updating :: "kpc \<Rightarrow> bool" where
  "updating pc \<longleftrightarrow> (\<exists>c. pc = Wrap c \<or> pc = Load c \<or> (\<exists>a. pc = Store c a))"

inductive quiet_run :: "kpc \<Rightarrow> kbd_t \<Rightarrow> u8 list \<Rightarrow> u8 list \<Rightarrow> bool" where
  quiet_boot: "quiet_run Wait kbd_boot [] []"
| quiet_reader: "quiet_run pc k acc ret \<Longrightarrow> kgetc_step pc k pc' k' \<Longrightarrow> quiet_run pc' k' acc ret"
| quiet_again: "quiet_run (Return c) k acc ret \<Longrightarrow> quiet_run Wait k acc (ret @ [c])"
| quiet_key: "quiet_run pc k acc ret \<Longrightarrow> \<not> updating pc \<Longrightarrow> write_char c k = Inr k' \<Longrightarrow>
    quiet_run pc k' (if unat (avail k) < BUFFER_LEN then acc @ [c] else acc) ret"

text \<open>What holds of the ring at each point of \<open>kgetc\<close>; \<open>taken k c\<close> is the state of \<open>k\<close> after the
  first of its updates.\<close>

definition taken :: "kbd_t \<Rightarrow> kbd_t" where
  "taken k = k\<lparr>buffer := (buffer k)[readhead k := 0], readhead := readhead k + 1\<rparr>"

fun ring_inv :: "kpc \<Rightarrow> kbd_t \<Rightarrow> u8 list \<Rightarrow> u8 list \<Rightarrow> bool" where
  "ring_inv Wait k acc ret \<longleftrightarrow> kbd_ok k \<and> acc = ret @ chars k"
| "ring_inv Fetch k acc ret \<longleftrightarrow> kbd_ok k \<and> acc = ret @ chars k \<and> chars k \<noteq> []"
| "ring_inv (Clear c) k acc ret \<longleftrightarrow> kbd_ok k \<and> acc = ret @ chars k \<and> chars k \<noteq> [] \<and> hd (chars k) = c"
| "ring_inv (Wrap c) k acc ret \<longleftrightarrow> (\<exists>k0. kbd_ok k0 \<and> acc = ret @ chars k0 \<and> chars k0 \<noteq> []
     \<and> hd (chars k0) = c \<and> k = taken k0)"
| "ring_inv (Load c) k acc ret \<longleftrightarrow> (\<exists>k0. kbd_ok k0 \<and> acc = ret @ chars k0 \<and> chars k0 \<noteq> []
     \<and> hd (chars k0) = c \<and> k = (taken k0)\<lparr>readhead := (readhead k0 + 1) mod BUFFER_LEN\<rparr>)"
| "ring_inv (Store c a) k acc ret \<longleftrightarrow> (\<exists>k0. kbd_ok k0 \<and> acc = ret @ chars k0 \<and> chars k0 \<noteq> []
     \<and> hd (chars k0) = c \<and> k = (taken k0)\<lparr>readhead := (readhead k0 + 1) mod BUFFER_LEN\<rparr> \<and> a = avail k0)"
| "ring_inv (Return c) k acc ret \<longleftrightarrow> kbd_ok k \<and> acc = ret @ c # chars k"

lemma kbd_boot_ok: "kbd_ok kbd_boot" "chars kbd_boot = []"
  by (simp_all add: kbd_ok_def kbd_boot_def chars_def)

lemma hd_chars:
  assumes "kbd_ok k" "chars k \<noteq> []"
  shows "hd (chars k) = buffer k ! readhead k"
proof -
  have "0 < unat (avail k)" using assms(2) length_chars [of k] by (metis length_greater_0_conv)
  moreover have "readhead k < 500" using assms(1) by (simp add: kbd_ok_def)
  ultimately show ?thesis using assms(2) by (simp add: chars_def hd_map)
qed

lemma chars_nonempty: "chars k \<noteq> [] \<longleftrightarrow> avail k \<noteq> 0"
  by (metis length_chars length_0_conv unat_eq_0)

lemma kgetc_step_ring:
  assumes "kgetc_step pc k pc' k'" "ring_inv pc k acc ret"
  shows "ring_inv pc' k' acc ret"
  using assms
proof (cases rule: kgetc_step.cases)
  case (store c a)
  then obtain k0 where k0: "kbd_ok k0" "acc = ret @ chars k0" "chars k0 = c # tl (chars k0)"
    "k = (taken k0)\<lparr>readhead := (readhead k0 + 1) mod BUFFER_LEN\<rparr>" "a = avail k0"
    using assms(2) by (auto simp: neq_Nil_conv)
  obtain k1 where k1: "kgetc_body k0 = Inr (c, k1)" "kbd_ok k1" "chars k1 = tl (chars k0)"
    using kgetc_body_chars [OF k0(1,3)] by blast
  then have "k1 = k'" using store k0(4,5) by (auto simp: kgetc_body_def taken_def Let_def split: if_splits)
  then show ?thesis using store k0 k1 by simp
qed (auto simp: chars_nonempty hd_chars taken_def)

lemma quiet_run_ring: "quiet_run pc k acc ret \<Longrightarrow> ring_inv pc k acc ret"
proof (induction rule: quiet_run.induct)
  case quiet_boot
  then show ?case by (simp add: kbd_boot_ok)
next
  case (quiet_reader pc k acc ret pc' k')
  then show ?case using kgetc_step_ring by blast
next
  case (quiet_again c k acc ret)
  then show ?case by simp
next
  case (quiet_key pc k acc ret c k')
  have "kbd_ok k" using quiet_key.IH quiet_key.hyps(2) by (cases pc) (auto simp: updating_def)
  from write_char_chars [OF this, of c] quiet_key.hyps(3)
  have "kbd_ok k'" "chars k' = (if unat (avail k) < BUFFER_LEN then chars k @ [c] else chars k)" by auto
  then show ?case using quiet_key.IH quiet_key.hyps(2) by (cases pc) (auto simp: updating_def)
qed

lemma reach_reader: "kbd_reach (pc, k) \<Longrightarrow> kgetc_step pc k pc' k' \<Longrightarrow> kbd_reach (pc', k')"
  by (rule kbd_reach.step [OF _ kbd_step.reader])

lemma reach_key: "kbd_reach (pc, k) \<Longrightarrow> write_char c k = Inr k' \<Longrightarrow> kbd_reach (pc, k')"
  by (rule kbd_reach.step [OF _ kbd_step.key])

text \<open>A read up to the update of \<open>avail\<close>.\<close>

definition unaccounted :: "kbd_t \<Rightarrow> kbd_t" where
  "unaccounted k = (taken k)\<lparr>readhead := (readhead k + 1) mod BUFFER_LEN\<rparr>"

lemma reach_unaccounted:
  assumes "kbd_reach (Wait, k)" "avail k \<noteq> 0"
  shows "kbd_reach (Load (buffer k ! readhead k), unaccounted k)"
proof -
  have r: "readhead k < 500" using reach_in_bounds [OF assms(1)] by (simp add: in_bounds_def)
  have "kbd_reach (Fetch, k)" by (rule reach_reader [OF assms(1)]) (rule kgetc_step.ready, rule assms(2))
  then have "kbd_reach (Clear (buffer k ! readhead k), k)"
    by (rule reach_reader) (rule kgetc_step.fetch, rule r)
  then have "kbd_reach (Wrap (buffer k ! readhead k), taken k)"
    unfolding taken_def by (rule reach_reader) (rule kgetc_step.clear, rule r)
  from reach_reader [OF this kgetc_step.wrap] show ?thesis
    by (simp add: unaccounted_def taken_def)
qed

text \<open>The keyboard after one and after two keys.\<close>

definition one_key :: kbd_t where
  "one_key = kbd_boot\<lparr>buffer := (replicate 500 0)[0 := 0x61], avail := 1, writehead := 1\<rparr>"

definition two_keys :: kbd_t where
  "two_keys = kbd_boot\<lparr>buffer := (replicate 500 0)[0 := 0x61, 1 := 0x62], avail := 2, writehead := 2\<rparr>"

lemma write_keys:
  "write_char 0x61 kbd_boot = Inr one_key" "write_char 0x62 one_key = Inr two_keys"
  by (simp_all add: write_char_def kbd_boot_def one_key_def two_keys_def)

lemma reach_keys: "kbd_reach (Wait, one_key)" "kbd_reach (Wait, two_keys)"
proof -
  show one: "kbd_reach (Wait, one_key)" by (rule reach_key [OF kbd_reach.boot write_keys(1)])
  show "kbd_reach (Wait, two_keys)" by (rule reach_key [OF one write_keys(2)])
qed

subsection \<open>The interrupt controllers\<close>

abbreviation (input) PIC1_COMMAND :: u16 where "PIC1_COMMAND \<equiv> 0x20"
abbreviation (input) PIC1_DATA :: u16 where "PIC1_DATA \<equiv> 0x21"
abbreviation (input) PIC2_COMMAND :: u16 where "PIC2_COMMAND \<equiv> 0xA0"
abbreviation (input) PIC2_DATA :: u16 where "PIC2_DATA \<equiv> 0xA1"
abbreviation (input) PIC_EOI :: u8 where "PIC_EOI \<equiv> 0x20"

text \<open>The writes of \<open>pic_init\<close>; the flag says that interrupts are enabled (\<open>sti\<close>) at the end.\<close>

definition pic_init :: "port_log \<Rightarrow> port_log \<times> bool" where
  "pic_init p =
     (let p = io_wait (outb PIC1_COMMAND (0x10 OR 0x01) p);
          p = io_wait (outb PIC2_COMMAND (0x10 OR 0x01) p);
          p = io_wait (outb PIC1_DATA 0x20 p);
          p = io_wait (outb PIC2_DATA 0x28 p);
          p = io_wait (outb PIC1_DATA 0x04 p);
          p = io_wait (outb PIC2_DATA 0x02 p);
          p = io_wait (outb PIC1_DATA 0x01 p);
          p = io_wait (outb PIC2_DATA 0x01 p);
          p = outb PIC1_DATA 0xFF p;
          p = outb PIC2_DATA 0xFF p
      in (p, True))"

definition pic_mask_irq :: "device \<Rightarrow> u8 \<Rightarrow> port_log \<Rightarrow> port_log" where
  "pic_mask_irq dev num p =
     (if num < 8
      then (let m = inb dev PIC1_DATA p OR push_bit (unat num) 1 in outb PIC1_DATA m p)
      else if num < 16
      then (let m = inb dev PIC2_DATA p OR push_bit (unat (num - 8)) 1 in outb PIC2_DATA m p)
      else p)"

definition pic_unmask_irq :: "device \<Rightarrow> u8 \<Rightarrow> port_log \<Rightarrow> port_log" where
  "pic_unmask_irq dev num p =
     (if num < 8
      then (let m = inb dev PIC1_DATA p AND NOT (push_bit (unat num) 1) in outb PIC1_DATA m p)
      else if num < 16
      then (let m = inb dev PIC2_DATA p AND NOT (push_bit (unat (num - 8)) 1) in outb PIC2_DATA m p)
      else p)"

text \<open>
  After initialisation a read of a data port returns the mask last written to it (8259A data
  sheet: the IMR is read through the data port).
\<close>

definition reads_mask :: "device \<Rightarrow> bool" where
  "reads_mask dev \<longleftrightarrow> (\<forall>p q v. q \<in> {PIC1_DATA, PIC2_DATA} \<longrightarrow> written p q = Some v \<longrightarrow> dev p q = v)"

definition imr_device :: device where
  "imr_device p q = (case written p q of None \<Rightarrow> 0 | Some v \<Rightarrow> v)"

text \<open>Whether IRQ \<open>n\<close> is blocked by the masks last written.\<close>

definition masked :: "port_log \<Rightarrow> nat \<Rightarrow> bool" where
  "masked p n \<longleftrightarrow> (case written p (if n < 8 then PIC1_DATA else PIC2_DATA) of
     None \<Rightarrow> False | Some m \<Rightarrow> bit m (n mod 8))"

lemma masked_init: "n < 16 \<Longrightarrow> masked (fst (pic_init p)) n"
proof -
  have "bit (0xFF :: u8) k" if "k < 8" for k
  proof -
    have "(0xFF :: u8) = mask 8" by (simp add: mask_eq_exp_minus_1)
    then show ?thesis using that by (simp only: bit_mask_iff) simp
  qed
  then show ?thesis by (simp add: masked_def pic_init_def Let_def io_wait_def)
qed

lemma masked_update:
  assumes dev: "reads_mask dev" and ini: "written p PIC1_DATA \<noteq> None" "written p PIC2_DATA \<noteq> None"
    and num: "num < 16" and n: "n < 16"
  shows "masked (pic_unmask_irq dev num p) n \<longleftrightarrow> masked p n \<and> n \<noteq> unat num"
    and "masked (pic_mask_irq dev num p) n \<longleftrightarrow> masked p n \<or> n = unat num"
proof -
  obtain m1 m2 where m: "written p PIC1_DATA = Some m1" "written p PIC2_DATA = Some m2"
    using ini by auto
  then have d: "inb dev PIC1_DATA p = m1" "inb dev PIC2_DATA p = m2"
    using dev by (auto simp: reads_mask_def inb_def)
  have b: "bit (push_bit k 1 :: u8) j \<longleftrightarrow> j = k" if "j < 8" "k < 8" for j k
    using that by (auto simp: bits)
  have s: "unat (num - 8) = unat num - 8" if "\<not> num < 8"
    using that by unat_arith
  have lo: "num < 8 \<longleftrightarrow> unat num < 8" by (simp add: word_less_nat_alt)
  have hi: "unat num < 16" using num by (simp add: word_less_nat_alt)
  have n8: "n mod 8 < 8" "n mod 8 = (if n < 8 then n else n - 8)" using n by (simp_all add: mod_if)
  show "masked (pic_unmask_irq dev num p) n \<longleftrightarrow> masked p n \<and> n \<noteq> unat num"
    using num n hi m d b [OF n8(1)] s lo n8
    by (auto simp: masked_def pic_unmask_irq_def Let_def bit_and_iff bit_not_iff split: if_splits)
  show "masked (pic_mask_irq dev num p) n \<longleftrightarrow> masked p n \<or> n = unat num"
    using num n hi m d b [OF n8(1)] s lo n8
    by (auto simp: masked_def pic_mask_irq_def Let_def bit_or_iff split: if_splits)
qed

subsection \<open>Properties\<close>

text \<open>
  C14: the ring is a first-in, first-out queue of 500 characters: after any characters have been
  written to an empty ring, reading returns the first 500 of them in order and leaves it empty.
\<close>

theorem keyboard_fifo:
  assumes "kbd_ok k" "chars k = []"
  shows "\<exists>k1 k2. put_all write_char cs k = Inr k1
    \<and> get_many kgetc_body (length (take BUFFER_LEN cs)) k1 = Inr (take BUFFER_LEN cs, k2) \<and> chars k2 = []"
proof -
  obtain k1 where k1: "put_all write_char cs k = Inr k1" "kbd_ok k1" "chars k1 = take BUFFER_LEN cs"
    using kq.put_all_ok [OF assms(1), of cs] assms(2) by auto
  then show ?thesis using kq.get_many_ok [OF k1(2), of "take BUFFER_LEN cs" "[]"] by auto
qed

lemma keyboard_fifo_witness:
  "\<exists>k1 k2. put_all write_char [0x61, 0x62] kbd_boot = Inr k1
     \<and> get_many kgetc_body 2 k1 = Inr ([0x61, 0x62], k2) \<and> chars k2 = []"
  using keyboard_fifo [OF kbd_boot_ok, of "[0x61, 0x62]"] by (simp add: numeral_2_eq_2)

text \<open>
  C15: however keyboard interrupts interleave with the steps of \<open>kgetc\<close>, every access to the
  buffer is inside it: \<open>write_char\<close> is always defined, and so is the next step of the reader, whose
  fetch and clear steps need \<open>readhead\<close> to be in range.
\<close>

theorem keyboard_in_bounds:
  assumes "kbd_reach (pc, k)"
  shows "(\<exists>k'. write_char c k = Inr k') \<and> writehead k < BUFFER_LEN
    \<and> ((\<exists>d. pc = Return d) \<or> (\<exists>pc' k'. kgetc_step pc k pc' k'))"
proof -
  have inb: "in_bounds (pc, k)" by (rule reach_in_bounds [OF assms])
  have "(\<exists>d. pc = Return d) \<or> (\<exists>pc' k'. kgetc_step pc k pc' k')"
    using inb by (cases pc; cases "avail k = 0") (auto simp: in_bounds_def intro: kgetc_step.intros)
  then show ?thesis using inb by (auto simp: in_bounds_def write_char_def Let_def)
qed

lemma keyboard_in_bounds_witness: "\<exists>k'. write_char 0x63 two_keys = Inr k'"
  using keyboard_in_bounds [OF reach_keys(2), of "0x63"] by blast

text \<open>
  C16: in every run in which no key arrives between the update of \<open>readhead\<close> and that of \<open>avail\<close>,
  the characters \<open>kgetc\<close> has returned are a prefix of those accepted: none is lost, repeated or
  reordered, and what is waiting in the ring is the rest.
\<close>

theorem kgetc_quiet_fifo:
  assumes "quiet_run Wait k acc ret"
  shows "acc = ret @ chars k \<and> length (chars k) = unat (avail k)"
  using quiet_run_ring [OF assms] by simp

lemma kgetc_quiet_fifo_witness:
  "quiet_run Wait one_key [0x61] [] \<and> chars one_key = [0x61]"
proof -
  have "quiet_run Wait one_key [0x61] []"
    using quiet_run.quiet_key [OF quiet_run.quiet_boot _ write_keys(1)] by (simp add: updating_def kbd_boot_def)
  with kgetc_quiet_fifo [OF this] show ?thesis by simp
qed

lemma drops_key:
  "kbd_reach (Load 0x61, unaccounted one_key) \<and> write_char c (unaccounted one_key) = Inr (unaccounted one_key)
    \<and> kgetc_step (Store 0x61 1) (unaccounted one_key) (Return 0x61) ((unaccounted one_key)\<lparr>avail := 0\<rparr>)
    \<and> chars ((unaccounted one_key)\<lparr>avail := 0\<rparr>) = []"
proof -
  have "buffer one_key ! readhead one_key = 0x61" by (simp add: one_key_def kbd_boot_def)
  then have "kbd_reach (Load 0x61, unaccounted one_key)"
    using reach_unaccounted [OF reach_keys(1)] by (simp add: one_key_def)
  moreover have "kgetc_step (Store 0x61 1) (unaccounted one_key) (Return 0x61)
      ((unaccounted one_key)\<lparr>avail := 1 - 1\<rparr>)" by (rule kgetc_step.store)
  ultimately show ?thesis
    by (simp add: write_char_def unaccounted_def taken_def one_key_def kbd_boot_def chars_def)
qed

lemma loses_count:
  "\<exists>k. kbd_reach (Return 0x61, k) \<and> avail k = 1 \<and> readhead k = 1 \<and> writehead k = 3
     \<and> buffer k ! 1 = 0x62 \<and> buffer k ! 2 = 0x63"
proof -
  let ?u = "unaccounted two_keys"
  let ?k = "?u\<lparr>buffer := (buffer ?u)[2 := 0x63], avail := 3, writehead := 3\<rparr>"
  have "buffer two_keys ! readhead two_keys = 0x61" by (simp add: two_keys_def kbd_boot_def)
  then have "kbd_reach (Load 0x61, ?u)"
    using reach_unaccounted [OF reach_keys(2)] by (simp add: two_keys_def)
  from reach_reader [OF this kgetc_step.load] have "kbd_reach (Store 0x61 2, ?u)"
    by (simp add: unaccounted_def taken_def two_keys_def)
  moreover have "write_char 0x63 ?u = Inr ?k"
    by (simp add: write_char_def unaccounted_def taken_def two_keys_def kbd_boot_def)
  ultimately have "kbd_reach (Store 0x61 2, ?k)" by (rule reach_key)
  from reach_reader [OF this kgetc_step.store]
  have "kbd_reach (Return 0x61, ?k\<lparr>avail := 1\<rparr>)" by simp
  moreover have "avail (?k\<lparr>avail := 1\<rparr>) = 1" "readhead (?k\<lparr>avail := 1\<rparr>) = 1" "writehead (?k\<lparr>avail := 1\<rparr>) = 3"
    "buffer (?k\<lparr>avail := 1\<rparr>) ! 1 = 0x62" "buffer (?k\<lparr>avail := 1\<rparr>) ! 2 = 0x63"
    by (simp_all add: unaccounted_def taken_def two_keys_def kbd_boot_def)
  ultimately show ?thesis by blast
qed

text \<open>
  C17: without that restriction keys are lost. A key can be dropped although the ring has 499 free
  places: when the only character has been taken out but is still counted, \<open>readhead\<close> equals
  \<open>writehead\<close> and \<open>avail\<close> is not 0, which \<open>write_char\<close> takes for a full ring. And a key that arrives
  between the read and the write of \<open>avail--\<close> is stored, but its increment is lost: two characters are
  left to read and \<open>avail\<close> is 1, so the reader will wait for another key before it sees the second.
\<close>

theorem keyboard_races:
  "(kbd_reach (Load 0x61, unaccounted one_key) \<and> write_char c (unaccounted one_key) = Inr (unaccounted one_key)
    \<and> kgetc_step (Store 0x61 1) (unaccounted one_key) (Return 0x61) ((unaccounted one_key)\<lparr>avail := 0\<rparr>)
    \<and> chars ((unaccounted one_key)\<lparr>avail := 0\<rparr>) = [])
    \<and> (\<exists>k. kbd_reach (Return 0x61, k) \<and> avail k = 1 \<and> readhead k = 1 \<and> writehead k = 3
     \<and> buffer k ! 1 = 0x62 \<and> buffer k ! 2 = 0x63)"
  using drops_key loses_count by simp

text \<open>
  \<open>pic_init\<close> masks all sixteen IRQs; with data ports that read back the mask, \<open>pic_unmask_irq\<close>
  and \<open>pic_mask_irq\<close> of an IRQ below 16 change the mask of that IRQ and of no other.
\<close>

theorem pic_masks:
  assumes "reads_mask dev" "written p PIC1_DATA \<noteq> None" "written p PIC2_DATA \<noteq> None" "num < 16" "n < 16"
  shows "(masked (pic_unmask_irq dev num p) n \<longleftrightarrow> masked p n \<and> n \<noteq> unat num)
    \<and> (masked (pic_mask_irq dev num p) n \<longleftrightarrow> masked p n \<or> n = unat num)
    \<and> masked (fst (pic_init p)) n"
  using masked_update [OF assms] masked_init [OF assms(5)] by blast

lemma pic_masks_witness:
  "\<not> masked (pic_unmask_irq imr_device 1 (fst (pic_init []))) 1
   \<and> masked (pic_unmask_irq imr_device 1 (fst (pic_init []))) 9"
proof -
  have dev: "reads_mask imr_device" by (auto simp: reads_mask_def imr_device_def)
  have w: "written (fst (pic_init [])) PIC1_DATA \<noteq> None" "written (fst (pic_init [])) PIC2_DATA \<noteq> None"
    by (simp_all add: pic_init_def Let_def io_wait_def)
  have n: "(1 :: u8) < 16" by simp
  show ?thesis
    using pic_masks [OF dev w n, of 1] pic_masks [OF dev w n, of 9] masked_init [of 9 "[]"] by simp
qed

end
