(* ===== verification/MyString.thy ===== *)
theory MyString
  imports Libmem
begin

text \<open>
  The string functions of \<open>stdlib/mystring.c\<close>, on the byte memory, with strings as pointers. The
  counters are C \<open>int\<close>s: counting past \<open>2 ^ 31 - 1\<close> is undefined, which also bounds the loops.
  \<open>cstring m p cs\<close> says that the bytes \<open>cs\<close>, none of them 0, stand at \<open>p\<close> and a 0 after them.
\<close>

abbreviation (input) INT_MAX :: nat where "INT_MAX \<equiv> 2147483647"

definition byte_at :: "mem \<Rightarrow> u64 \<Rightarrow> nat \<Rightarrow> u8" where
  "byte_at m p i = m (p + of_nat i)"

subsection \<open>The functions\<close>

function strlen_loop :: "mem \<Rightarrow> u64 \<Rightarrow> nat \<Rightarrow> fault + nat" where
  "strlen_loop m p i =
     (if byte_at m p i \<noteq> 0
      then if i < INT_MAX then strlen_loop m p (i + 1) else Inl Undefined
      else Inr i)"
  by pat_completeness auto
termination
  by (relation "measure (\<lambda>(m, p, i). INT_MAX - i)") auto

definition strlen :: "mem \<Rightarrow> u64 \<Rightarrow> fault + nat" where
  "strlen m p =
     (case strlen_loop m p 0 of Inl f \<Rightarrow> Inl f
      | Inr i \<Rightarrow> if i < INT_MAX then Inr (i + 1) else Inl Undefined)"

text \<open>
  One iteration of the loop of \<open>words\<close> on the memory and the pointers stored in \<open>out\<close> so far; how
  many pointers fit in \<open>out\<close> is up to the caller.
\<close>

definition words_step :: "u64 \<Rightarrow> nat \<Rightarrow> mem \<times> u64 list \<Rightarrow> mem \<times> u64 list" where
  "words_step inp i = (\<lambda>(m, out).
     if byte_at m inp i = 0x20 \<or> byte_at m inp i = 0x0A
     then (m(inp + of_nat i := 0), out @ [inp + of_nat (i + 1)])
     else (m, out))"

definition words :: "mem \<Rightarrow> u64 \<Rightarrow> fault + (mem \<times> u64 list)" where
  "words m inp =
     (case strlen m inp of Inl f \<Rightarrow> Inl f
      | Inr len \<Rightarrow> Inr (fold (words_step inp) [0..<len] (m, [inp])))"

function strcmp_loop :: "mem \<Rightarrow> u64 \<Rightarrow> u64 \<Rightarrow> nat \<Rightarrow> fault + nat" where
  "strcmp_loop m s1 s2 i =
     (if byte_at m s1 i \<noteq> 0 \<and> byte_at m s2 i \<noteq> 0
      then if byte_at m s1 i \<noteq> byte_at m s2 i then Inr 1
           else if i < INT_MAX then strcmp_loop m s1 s2 (i + 1) else Inl Undefined
      else Inr (if byte_at m s1 i = byte_at m s2 i then 0 else 1))"
  by pat_completeness auto
termination
  by (relation "measure (\<lambda>(m, s1, s2, i). INT_MAX - i)") auto

definition my_strcmp :: "mem \<Rightarrow> u64 \<Rightarrow> u64 \<Rightarrow> fault + nat" where
  "my_strcmp m s1 s2 = strcmp_loop m s1 s2 0"

function strcpy_loop :: "u64 \<Rightarrow> u64 \<Rightarrow> nat \<Rightarrow> mem \<Rightarrow> fault + (nat \<times> mem)" where
  "strcpy_loop buf s i m =
     (if byte_at m s i \<noteq> 0
      then if i < INT_MAX then strcpy_loop buf s (i + 1) (m(buf + of_nat i := byte_at m s i))
           else Inl Undefined
      else Inr (i, m))"
  by pat_completeness auto
termination
  by (relation "measure (\<lambda>(buf, s, i, m). INT_MAX - i)") auto

definition strcpy :: "u64 \<Rightarrow> u64 \<Rightarrow> mem \<Rightarrow> fault + mem" where
  "strcpy buf s m =
     (case strcpy_loop buf s 0 m of Inl f \<Rightarrow> Inl f
      | Inr (i, m1) \<Rightarrow> if i < INT_MAX then Inr (m1(buf + of_nat (i + 1) := 0)) else Inl Undefined)"

declare strlen_loop.simps [simp del] strcmp_loop.simps [simp del] strcpy_loop.simps [simp del]

subsection \<open>Strings in memory\<close>

definition cstring :: "mem \<Rightarrow> u64 \<Rightarrow> u8 list \<Rightarrow> bool" where
  "cstring m p cs \<longleftrightarrow> (\<forall>i < length cs. byte_at m p i = cs ! i) \<and> 0 \<notin> set cs
     \<and> byte_at m p (length cs) = 0"

lemma cstring_byte:
  assumes "cstring m p cs" "i \<le> length cs"
  shows "byte_at m p i = 0 \<longleftrightarrow> i = length cs" "i < length cs \<Longrightarrow> byte_at m p i = cs ! i"
proof -
  have "byte_at m p i \<noteq> 0" "byte_at m p i = cs ! i" if "i < length cs"
    using assms(1) that nth_mem [OF that] unfolding cstring_def by metis+
  then show "byte_at m p i = 0 \<longleftrightarrow> i = length cs" "i < length cs \<Longrightarrow> byte_at m p i = cs ! i"
    using assms by (auto simp: cstring_def le_less)
qed

lemma strlen_loop_cstring:
  assumes s: "cstring m p cs" "length cs < INT_MAX"
  shows "i \<le> length cs \<Longrightarrow> strlen_loop m p i = Inr (length cs)"
proof (induction "length cs - i" arbitrary: i)
  case 0
  then show ?case using cstring_byte [OF s(1), of i] by (simp add: strlen_loop.simps [of m p i])
next
  case (Suc n)
  then have "i \<noteq> length cs" by simp
  then show ?case
    using Suc cstring_byte [OF s(1), of i] s(2) by (simp add: strlen_loop.simps [of m p i])
qed

lemma strlen_cstring:
  assumes "cstring m p cs" "length cs < INT_MAX"
  shows "strlen m p = Inr (length cs + 1)"
  using strlen_loop_cstring [OF assms, of 0] assms(2) by (simp add: strlen_def)

lemma strcmp_loop_cstring:
  assumes s: "cstring m p cs" "cstring m q ds" and len: "length cs < INT_MAX"
  shows "i \<le> length cs \<Longrightarrow> i \<le> length ds \<Longrightarrow> take i cs = take i ds \<Longrightarrow>
    strcmp_loop m p q i = Inr (if cs = ds then 0 else 1)"
proof (induction "length cs - i" arbitrary: i)
  case 0
  then have i: "i = length cs" by simp
  have "byte_at m q i = 0 \<longleftrightarrow> i = length ds" using cstring_byte [OF s(2) 0(3)] by simp
  moreover have "cs = ds \<longleftrightarrow> i = length ds" using 0(2-4) i by auto
  moreover have "byte_at m p i = 0" using cstring_byte [OF s(1), of i] i by simp
  ultimately show ?case by (subst strcmp_loop.simps) auto
next
  case (Suc n)
  then have i: "i < length cs" by simp
  have ci: "byte_at m p i \<noteq> 0" "byte_at m p i = cs ! i" using cstring_byte [OF s(1), of i] i by auto
  show ?case
  proof (cases "i = length ds")
    case True
    then have "byte_at m q i = 0" "cs \<noteq> ds" using cstring_byte [OF s(2), of i] i by auto
    then show ?thesis using ci by (simp add: strcmp_loop.simps [of m p q i])
  next
    case False
    then have j: "i < length ds" using Suc.prems by simp
    have di: "byte_at m q i \<noteq> 0" "byte_at m q i = ds ! i" using cstring_byte [OF s(2), of i] j by auto
    show ?thesis
    proof (cases "cs ! i = ds ! i")
      case True
      then have "take (Suc i) cs = take (Suc i) ds"
        using Suc.prems(3) i j by (simp add: take_Suc_conv_app_nth)
      then show ?thesis
        using Suc.hyps Suc.prems i j ci di True len by (simp add: strcmp_loop.simps [of m p q i])
    next
      case False
      then have "cs \<noteq> ds" by auto
      then show ?thesis using ci di False by (simp add: strcmp_loop.simps [of m p q i])
    qed
  qed
qed

lemma strcmp_cstring:
  assumes "cstring m p cs" "cstring m q ds" "length cs < INT_MAX"
  shows "my_strcmp m p q = Inr (if cs = ds then 0 else 1)"
  unfolding my_strcmp_def by (rule strcmp_loop_cstring [OF assms]) simp_all

subsection \<open>strcpy\<close>

text \<open>
  The destination does not overlap the source: no byte the loop writes is one it still reads.
\<close>

definition apart :: "u64 \<Rightarrow> u64 \<Rightarrow> nat \<Rightarrow> bool" where
  "apart buf s n \<longleftrightarrow> (\<forall>i \<le> n. \<forall>j \<le> n. buf + of_nat i \<noteq> s + of_nat j)"

lemma of_nat_word_eq: "i < 2 ^ 32 \<Longrightarrow> j < 2 ^ 32 \<Longrightarrow> (of_nat i :: u64) = of_nat j \<longleftrightarrow> i = j"
  by (simp add: word_unat_eq_iff unat_of_nat)

lemma strcpy_loop_copy:
  assumes s: "cstring m0 s cs" "length cs < INT_MAX" and ap: "apart buf s (length cs)"
  shows "i \<le> length cs \<Longrightarrow> (\<And>j. j \<le> length cs \<Longrightarrow> byte_at m s j = byte_at m0 s j) \<Longrightarrow>
    \<exists>m'. strcpy_loop buf s i m = Inr (length cs, m')
      \<and> (\<forall>a. m' a = (if \<exists>j. i \<le> j \<and> j < length cs \<and> a = buf + of_nat j
                   then m0 (s + (a - buf)) else m a))"
proof (induction "length cs - i" arbitrary: i m)
  case 0
  then have "i = length cs" "byte_at m s i = 0" using cstring_byte [OF s(1), of i] by auto
  then show ?case by (subst strcpy_loop.simps) auto
next
  case (Suc n)
  then have i: "i < length cs" by simp
  have b: "byte_at m s i = byte_at m0 s i" "byte_at m s i \<noteq> 0"
    using Suc.prems(2) [of i] cstring_byte [OF s(1), of i] i by auto
  let ?m = "m(buf + of_nat i := byte_at m s i)"
  have keep: "byte_at ?m s j = byte_at m0 s j" if "j \<le> length cs" for j
  proof -
    have "s + of_nat j \<noteq> buf + of_nat i" using ap i that by (metis apart_def less_imp_le)
    then show ?thesis using Suc.prems(2) [OF that] by (simp add: byte_at_def)
  qed
  have n: "n = length cs - (i + 1)" using Suc.hyps(2) by simp
  have "i + 1 \<le> length cs" using i by simp
  from Suc.hyps(1) [OF n this keep] obtain m' where m': "strcpy_loop buf s (i + 1) ?m = Inr (length cs, m')"
    "\<And>a. m' a = (if \<exists>j. i + 1 \<le> j \<and> j < length cs \<and> a = buf + of_nat j
       then m0 (s + (a - buf)) else ?m a)"
    by blast
  have "m' a = (if \<exists>j. i \<le> j \<and> j < length cs \<and> a = buf + of_nat j then m0 (s + (a - buf)) else m a)" for a
  proof (cases "\<exists>j. i + 1 \<le> j \<and> j < length cs \<and> a = buf + of_nat j")
    case True
    then obtain j where "i \<le> j \<and> j < length cs \<and> a = buf + of_nat j" using add_leD1 by blast
    then have "\<exists>j. i \<le> j \<and> j < length cs \<and> a = buf + of_nat j" by blast
    then show ?thesis by (simp only: m'(2) True if_True)
  next
    case False
    have "j = i" if "i \<le> j" "j < length cs" "a = buf + of_nat j" for j
    proof (rule ccontr)
      assume "j \<noteq> i"
      then have "i + 1 \<le> j" using that(1) by simp
      then show False using False that(2,3) by blast
    qed
    then have iff: "(\<exists>j. i \<le> j \<and> j < length cs \<and> a = buf + of_nat j) \<longleftrightarrow> a = buf + of_nat i"
      using i by blast
    have "m' a = (if a = buf + of_nat i then byte_at m0 s i else m a)"
      by (simp only: m'(2) if_not_P [OF False] fun_upd_apply b(1))
    also have "\<dots> = (if a = buf + of_nat i then m0 (s + (a - buf)) else m a)" by (simp add: byte_at_def)
    finally show ?thesis by (simp only: iff)
  qed
  moreover have "strcpy_loop buf s i m = Inr (length cs, m')"
    using b(2) i s(2) m'(1) by (subst strcpy_loop.simps) simp
  ultimately show ?case by blast
qed

text \<open>
  What \<open>strcpy\<close> leaves at the destination: the characters, then the byte that was there before,
  then the terminator.
\<close>

lemma strcpy_effect:
  assumes s: "cstring m s cs" "length cs < INT_MAX" and ap: "apart buf s (length cs)"
  shows "\<exists>m'. strcpy buf s m = Inr m' \<and> (\<forall>i < length cs. byte_at m' buf i = cs ! i)
    \<and> byte_at m' buf (length cs) = byte_at m buf (length cs) \<and> byte_at m' buf (length cs + 1) = 0
    \<and> (\<forall>a. (\<forall>i \<le> length cs + 1. a \<noteq> buf + of_nat i) \<longrightarrow> m' a = m a)"
proof -
  obtain m1 where m1: "strcpy_loop buf s 0 m = Inr (length cs, m1)"
    "\<And>a. m1 a = (if \<exists>j. j < length cs \<and> a = buf + of_nat j then m (s + (a - buf)) else m a)"
    using strcpy_loop_copy [OF s ap, of 0 m] by auto
  let ?m = "m1(buf + of_nat (length cs + 1) := 0)"
  have inj: "(of_nat i :: u64) = of_nat j \<longleftrightarrow> i = j" if "i \<le> length cs + 1" "j \<le> length cs + 1" for i j
    using that s(2) by (intro of_nat_word_eq) auto
  have "strcpy buf s m = Inr ?m" using m1(1) s(2) by (simp add: strcpy_def)
  moreover have "byte_at ?m buf i = cs ! i" if i: "i < length cs" for i
  proof -
    have "m1 (buf + of_nat i) = m (s + of_nat i)" using m1(2) [of "buf + of_nat i"] i by auto
    moreover have "m (s + of_nat i) = cs ! i" using s(1) i by (simp add: cstring_def byte_at_def)
    ultimately show ?thesis using inj [of i "length cs + 1"] i by (simp add: byte_at_def del: of_nat_Suc of_nat_add)
  qed
  moreover have "byte_at ?m buf (length cs) = byte_at m buf (length cs)"
  proof -
    have np: "\<not> (\<exists>j. j < length cs \<and> buf + (of_nat (length cs) :: u64) = buf + of_nat j)"
      using inj [of "length cs"] by auto
    have "m1 (buf + of_nat (length cs)) = m (buf + of_nat (length cs))"
      by (simp only: m1(2) if_not_P [OF np])
    then show ?thesis
      using inj [of "length cs" "length cs + 1"] by (simp add: byte_at_def del: of_nat_Suc of_nat_add)
  qed
  moreover have "?m a = m a" if "\<forall>i \<le> length cs + 1. a \<noteq> buf + of_nat i" for a
  proof -
    have np: "\<not> (\<exists>j. j < length cs \<and> a = buf + of_nat j)" using that by auto
    have "a \<noteq> buf + of_nat (length cs + 1)" using that by blast
    then show ?thesis by (simp only: fun_upd_other [OF \<open>a \<noteq> _\<close>] m1(2) if_not_P [OF np])
  qed
  ultimately show ?thesis by (intro exI [of _ ?m]) (simp add: byte_at_def)
qed

subsection \<open>words\<close>

definition is_sep :: "u8 \<Rightarrow> bool" where
  "is_sep c \<longleftrightarrow> c = 0x20 \<or> c = 0x0A"

text \<open>The words of a line, empty ones included, and where each begins after the first.\<close>

fun split_words :: "u8 list \<Rightarrow> u8 list list" where
  "split_words [] = [[]]"
| "split_words (c # cs) = (if is_sep c then [] # split_words cs
     else (c # hd (split_words cs)) # tl (split_words cs))"

fun starts :: "u64 \<Rightarrow> u8 list \<Rightarrow> u64 list" where
  "starts p [] = []"
| "starts p (c # cs) = (if is_sep c then [p + 1] else []) @ starts (p + 1) cs"

lemma split_words_nonempty: "split_words cs \<noteq> []"
  by (cases cs) auto

lemma byte_at_Suc: "byte_at m p (Suc i) = byte_at m (p + 1) i"
  by (simp add: byte_at_def add.assoc)

lemma cstring_Cons: "cstring m p (c # cs) \<longleftrightarrow> byte_at m p 0 = c \<and> c \<noteq> 0 \<and> cstring m (p + 1) cs"
  by (auto simp: cstring_def byte_at_Suc All_less_Suc2)

lemma cstring_Nil: "cstring m p [] \<longleftrightarrow> byte_at m p 0 = 0"
  by (simp add: cstring_def)

text \<open>A memory that holds \<open>cs\<close> with a 0 in place of each separator holds the words.\<close>

lemma split_words_strings:
  assumes "\<And>i. i < length cs \<Longrightarrow> byte_at m p i = (if is_sep (cs ! i) then 0 else cs ! i)"
    and "byte_at m p (length cs) = 0" and "0 \<notin> set cs"
  shows "list_all2 (cstring m) (p # starts p cs) (split_words cs)"
  using assms
proof (induction cs arbitrary: p)
  case Nil
  then show ?case by (simp add: cstring_Nil)
next
  case (Cons c cs)
  have "byte_at m (p + 1) i = (if is_sep (cs ! i) then 0 else cs ! i)" if "i < length cs" for i
    using Cons.prems(1) [of "Suc i"] that by (simp add: byte_at_Suc)
  then have IH: "list_all2 (cstring m) ((p + 1) # starts (p + 1) cs) (split_words cs)"
    using Cons.IH [of "p + 1"] Cons.prems(2,3) by (simp add: byte_at_Suc)
  have c: "byte_at m p 0 = (if is_sep c then 0 else c)" using Cons.prems(1) [of 0] by simp
  show ?case
  proof (cases "is_sep c")
    case True
    then show ?thesis using IH c by (simp add: cstring_Nil)
  next
    case False
    obtain w ws where w: "split_words cs = w # ws" using split_words_nonempty by (meson neq_Nil_conv)
    show ?thesis using IH c False Cons.prems(3) by (simp add: w cstring_Cons)
  qed
qed

lemma words_step_fold:
  assumes "length ds \<le> n" "n < INT_MAX" "i = n - length ds"
    and "\<And>j. j < length ds \<Longrightarrow> byte_at m inp (i + j) = ds ! j" and "byte_at m inp n = 0"
  shows "\<exists>m'. fold (words_step inp) [i..<n + 1] (m, out) = (m', out @ starts (inp + of_nat i) ds)
    \<and> (\<forall>j < length ds. byte_at m' inp (i + j) = (if is_sep (ds ! j) then 0 else ds ! j))
    \<and> byte_at m' inp n = 0 \<and> (\<forall>k < i. byte_at m' inp k = byte_at m inp k)"
  using assms
proof (induction ds arbitrary: i m out)
  case Nil
  then have "[i..<n + 1] = [n]" by (simp add: upt_rec)
  moreover have "words_step inp n (m, out) = (m, out)"
    using Nil.prems(5) by (simp add: words_step_def)
  ultimately show ?case using Nil.prems by auto
next
  case (Cons c ds)
  have i: "i < n" "Suc i = n - length ds" using Cons.prems by auto
  have ci: "byte_at m inp i = c" using Cons.prems(4) [of 0] by simp
  have sep: "byte_at m inp i = 0x20 \<or> byte_at m inp i = 0x0A \<longleftrightarrow> is_sep c" by (simp add: ci is_sep_def)
  let ?m = "if is_sep c then m(inp + of_nat i := 0) else m"
  have step: "words_step inp i (m, out) = (?m, out @ (if is_sep c then [inp + of_nat i + 1] else []))"
    by (simp only: words_step_def sep prod.case) (simp add: add.assoc)
  have other: "byte_at ?m inp k = byte_at m inp k" if "k \<noteq> i" "k \<le> n" for k
    using of_nat_word_eq [of k i] that i(1) Cons.prems(2) by (simp add: byte_at_def)
  have ds: "byte_at ?m inp (Suc i + j) = ds ! j" if "j < length ds" for j
  proof -
    have "Suc i + length ds = n" using Cons.prems(1,3) by simp
    then have "Suc i + j \<le> n" using that by simp
    then show ?thesis using other [of "Suc i + j"] Cons.prems(4) [of "Suc j"] that by simp
  qed
  have zero: "byte_at ?m inp n = 0" using other [of n] i(1) Cons.prems(5) by simp
  have len: "length ds \<le> n" using Cons.prems(1) by simp
  from Cons.IH [OF len Cons.prems(2) i(2) ds zero]
  obtain m' where m': "fold (words_step inp) [Suc i..<n + 1] (?m, out @ (if is_sep c then [inp + of_nat i + 1] else []))
      = (m', (out @ (if is_sep c then [inp + of_nat i + 1] else [])) @ starts (inp + of_nat (Suc i)) ds)"
    "\<forall>j < length ds. byte_at m' inp (Suc i + j) = (if is_sep (ds ! j) then 0 else ds ! j)"
    "byte_at m' inp n = 0" "\<forall>k < Suc i. byte_at m' inp k = byte_at ?m inp k" by blast
  have upt: "[i..<n + 1] = i # [Suc i..<n + 1]" using i(1) by (simp add: upt_conv_Cons)
  have "fold (words_step inp) [i..<n + 1] (m, out) = (m', out @ starts (inp + of_nat i) (c # ds))"
    unfolding upt fold_simps(2) step m'(1) by (simp add: ac_simps)
  moreover have "byte_at m' inp (i + j) = (if is_sep ((c # ds) ! j) then 0 else (c # ds) ! j)"
    if "j < length (c # ds)" for j
  proof (cases j)
    case 0
    then show ?thesis using m'(4) ci by (simp add: byte_at_def)
  next
    case (Suc k)
    then show ?thesis using m'(2) that by auto
  qed
  moreover have "byte_at m' inp k = byte_at m inp k" if "k < i" for k
    using m'(4) other [of k] that i(1) by simp
  ultimately show ?case using m'(3) by blast
qed

lemma words_cstring:
  assumes s: "cstring m p cs" "length cs < INT_MAX"
  shows "\<exists>m'. words m p = Inr (m', p # starts p cs) \<and> list_all2 (cstring m') (p # starts p cs) (split_words cs)"
proof -
  have "\<And>j. j < length cs \<Longrightarrow> byte_at m p (0 + j) = cs ! j" "byte_at m p (length cs) = 0"
    using s(1) by (simp_all add: cstring_def)
  from words_step_fold [of cs "length cs" 0 m p "[p]", OF _ s(2) _ this]
  obtain m' where m': "fold (words_step p) [0..<length cs + 1] (m, [p]) = (m', [p] @ starts p cs)"
    "\<forall>j < length cs. byte_at m' p j = (if is_sep (cs ! j) then 0 else cs ! j)" "byte_at m' p (length cs) = 0"
    by auto
  have "list_all2 (cstring m') (p # starts p cs) (split_words cs)"
    by (rule split_words_strings) (use m' s(1) in \<open>auto simp: cstring_def\<close>)
  then show ?thesis using m'(1) strlen_cstring [OF s] by (simp add: words_def del: upt_Suc)
qed

subsection \<open>Properties\<close>

definition sample_string :: mem where
  "sample_string = (\<lambda>_. 0xAA)(0x100 := 0x61, 0x101 := 0x20, 0x102 := 0x62, 0x103 := 0)"

lemma sample_string: "cstring sample_string 0x100 [0x61, 0x20, 0x62]"
  by (simp add: cstring_Cons cstring_Nil sample_string_def byte_at_def)

text \<open>
  \<open>my_strcmp\<close> returns 0 exactly when the two strings are equal, and 1 otherwise.
\<close>

theorem my_strcmp_equal:
  assumes "cstring m p cs" "cstring m q ds" "length cs < INT_MAX"
  shows "my_strcmp m p q = Inr (if cs = ds then 0 else 1)"
  by (rule strcmp_cstring [OF assms])

lemma my_strcmp_equal_witness: "my_strcmp sample_string 0x100 0x102 = Inr 1"
proof -
  have "cstring sample_string 0x102 [0x62]"
    by (simp add: cstring_def sample_string_def byte_at_def)
  from my_strcmp_equal [OF sample_string this] show ?thesis by simp
qed

text \<open>
  \<open>strcpy\<close> to a buffer apart from the source copies the characters but leaves the byte after
  them as it was, puts the terminator one place further, and writes nothing else. The copy is a
  string with the same text exactly when that byte happened to be 0.
\<close>

lemma strcpy_skips_a_byte:
  assumes "cstring m s cs" "length cs < INT_MAX" "apart buf s (length cs)"
  shows "\<exists>m'. strcpy buf s m = Inr m' \<and> (\<forall>i < length cs. byte_at m' buf i = cs ! i)
    \<and> byte_at m' buf (length cs) = byte_at m buf (length cs) \<and> byte_at m' buf (length cs + 1) = 0
    \<and> (cstring m' buf cs \<longleftrightarrow> byte_at m buf (length cs) = 0)
    \<and> (\<forall>a. (\<forall>i \<le> length cs + 1. a \<noteq> buf + of_nat i) \<longrightarrow> m' a = m a)"
  using strcpy_effect [OF assms] assms(1) by (auto simp: cstring_def)

text \<open>
  C26: \<open>words\<close> returns one pointer for every word of the line, split at each space and newline, and
  overwrites the separators so that each pointer is a string with exactly that word.
\<close>

theorem words_splits:
  assumes "cstring m p cs" "length cs < INT_MAX"
  shows "\<exists>m' ptrs. words m p = Inr (m', ptrs) \<and> hd ptrs = p
    \<and> length ptrs = length (filter is_sep cs) + 1 \<and> list_all2 (cstring m') ptrs (split_words cs)"
proof -
  have "length (starts q cs) = length (filter is_sep cs)" for q
    by (induction cs arbitrary: q) auto
  then show ?thesis using words_cstring [OF assms] by fastforce
qed

lemma words_splits_witness:
  "\<exists>m' ptrs. words sample_string 0x100 = Inr (m', ptrs) \<and> length ptrs = 2
    \<and> list_all2 (cstring m') ptrs [[0x61], [0x62]]"
proof -
  have "split_words [0x61, 0x20, 0x62] = [[0x61], [0x62]]" "length (filter is_sep [0x61, 0x20, 0x62]) + 1 = 2"
    by (simp_all add: is_sep_def)
  moreover have "length [0x61, 0x20, 0x62 :: u8] < INT_MAX" by simp
  ultimately show ?thesis using words_splits [OF sample_string] by metis
qed

end
