(* ===== verification/Gdt.thy ===== *)
theory Gdt
  imports Libmem
begin

text \<open>
  The global descriptor table of \<open>kernel/gdt.c\<close>. The table, the task state segment and the
  interrupt stack are byte regions of memory at the addresses the linker gives them (fields of the
  state). A descriptor is written as the packed structures lay it out: a bit-field store changes
  its bits and leaves the rest of the byte. \<open>gdtr\<close> and \<open>tr\<close> are what \<open>lgdt\<close> and \<open>ltr\<close> load.
\<close>

record gdt_state =
  gmem :: mem
  gdt :: u64
  gdt_size :: u64
  tss :: u64
  interrupt_stack :: u64
  gdtr :: "(u16 \<times> u64) option"
  tr :: "u16 option"

abbreviation (input) KERNEL_CODE_SELECTOR :: u16 where "KERNEL_CODE_SELECTOR \<equiv> 0x28"
abbreviation (input) KERNEL_DATA_SELECTOR :: u16 where "KERNEL_DATA_SELECTOR \<equiv> 0x30"
abbreviation (input) USER_CODE_SELECTOR :: u16 where "USER_CODE_SELECTOR \<equiv> 0x38"
abbreviation (input) USER_DATA_SELECTOR :: u16 where "USER_DATA_SELECTOR \<equiv> 0x40"
abbreviation (input) TSS_SELECTOR :: u16 where "TSS_SELECTOR \<equiv> 0x48"

subsection \<open>Descriptors\<close>

definition grow :: "u16 \<Rightarrow> u64 \<Rightarrow> gdt_state \<Rightarrow> gdt_state" where
  "grow offset sz s =
     (if gdt_size s < ucast offset + sz then s\<lparr>gdt_size := ucast offset + sz\<rparr> else s)"

definition put :: "u64 \<Rightarrow> u8 \<Rightarrow> gdt_state \<Rightarrow> gdt_state" where
  "put a v s = s\<lparr>gmem := (gmem s)(a := v)\<rparr>"

definition zero :: "u64 \<Rightarrow> u64 \<Rightarrow> gdt_state \<Rightarrow> gdt_state" where
  "zero a sz s = s\<lparr>gmem := memset a sz (gmem s)\<rparr>"

text \<open>Byte 6 of both descriptor structures: \<open>limit_1\<close> below, \<open>flags\<close> above.\<close>

definition put_flags :: "u64 \<Rightarrow> u8 \<Rightarrow> gdt_state \<Rightarrow> gdt_state" where
  "put_flags d v s = put (d + 6) ((gmem s (d + 6) AND 0x0F) OR push_bit 4 (v AND 0x0F)) s"

definition put_limit_1 :: "u64 \<Rightarrow> u8 \<Rightarrow> gdt_state \<Rightarrow> gdt_state" where
  "put_limit_1 d v s = put (d + 6) ((gmem s (d + 6) AND 0xF0) OR (v AND 0x0F)) s"

definition gdt_code_descriptor :: "u16 \<Rightarrow> bool \<Rightarrow> gdt_state \<Rightarrow> gdt_state" where
  "gdt_code_descriptor offset user s =
     (let d = gdt s + ucast offset;
          s1 = zero d 8 (grow offset 8 s);
          s2 = put (d + 5) (0x9A OR (if user then 0x60 else 0)) s1
      in put_flags d 2 s2)"

definition gdt_data_descriptor :: "u16 \<Rightarrow> bool \<Rightarrow> gdt_state \<Rightarrow> gdt_state" where
  "gdt_data_descriptor offset user s =
     (let d = gdt s + ucast offset;
          s1 = zero d 8 (grow offset 8 s)
      in put (d + 5) (0x92 OR (if user then 0x60 else 0)) s1)"

text \<open>\<open>sizeof(tss_t)\<close>.\<close>

abbreviation (input) tss_sizeof :: u64 where "tss_sizeof \<equiv> 104"

definition put_base_0 :: "u64 \<Rightarrow> u64 \<Rightarrow> gdt_state \<Rightarrow> gdt_state" where
  "put_base_0 d v s = put (d + 4) (ucast (drop_bit 16 v)) (put (d + 3) (ucast (drop_bit 8 v)) (put (d + 2) (ucast v) s))"

definition put_base_1 :: "u64 \<Rightarrow> u64 \<Rightarrow> gdt_state \<Rightarrow> gdt_state" where
  "put_base_1 d v s =
     put (d + 11) (ucast (drop_bit 32 v)) (put (d + 10) (ucast (drop_bit 24 v))
       (put (d + 9) (ucast (drop_bit 16 v)) (put (d + 8) (ucast (drop_bit 8 v)) (put (d + 7) (ucast v) s))))"

definition put_limit_0 :: "u64 \<Rightarrow> u64 \<Rightarrow> gdt_state \<Rightarrow> gdt_state" where
  "put_limit_0 d v s = put (d + 1) (ucast (drop_bit 8 v)) (put d (ucast v) s)"

definition gdt_tss_descriptor :: "u16 \<Rightarrow> u64 \<Rightarrow> gdt_state \<Rightarrow> gdt_state" where
  "gdt_tss_descriptor offset t s =
     (let d = gdt s + ucast offset;
          s = zero d 16 (grow offset 16 s);
          s = put_base_0 d t s;
          s = put_base_1 d (drop_bit 24 t) s;
          s = put_limit_0 d tss_sizeof s;
          s = put_limit_1 d (ucast (drop_bit 16 tss_sizeof)) s
      in put (d + 5) 0x89 s)"

subsection \<open>gdt_setup\<close>

definition lgdt :: "u16 \<Rightarrow> u64 \<Rightarrow> gdt_state \<Rightarrow> gdt_state" where
  "lgdt sz base s = s\<lparr>gdtr := Some (sz, base)\<rparr>"

definition ltr :: "u16 \<Rightarrow> gdt_state \<Rightarrow> gdt_state" where
  "ltr sel s = s\<lparr>tr := Some sel\<rparr>"

text \<open>\<open>rsp0\<close> is at offset 4 of the packed \<open>tss_t\<close>.\<close>

definition set_rsp0 :: "u64 \<Rightarrow> gdt_state \<Rightarrow> gdt_state" where
  "set_rsp0 v s = s\<lparr>gmem := store64 (gmem s) (tss s + 4) v\<rparr>"

definition gdt_setup :: "gdt_state \<Rightarrow> gdt_state" where
  "gdt_setup s =
     (let s = zero (gdt s) 256 s;
          s = gdt_code_descriptor KERNEL_CODE_SELECTOR False s;
          s = gdt_data_descriptor KERNEL_DATA_SELECTOR False s;
          s = gdt_code_descriptor USER_CODE_SELECTOR True s;
          s = gdt_data_descriptor USER_DATA_SELECTOR True s;
          s = gdt_tss_descriptor TSS_SELECTOR (tss s) s;
          s = lgdt (ucast (gdt_size s - 1)) (gdt s) s;
          s = zero (tss s) tss_sizeof s;
          s = set_rsp0 (interrupt_stack s + 0x8000 - 8) s
      in ltr TSS_SELECTOR s)"

subsection \<open>What the descriptors hold\<close>

lemma put_simps [simp]:
  "gmem (put a v s) = (gmem s)(a := v)" "gdt (put a v s) = gdt s" "gdt_size (put a v s) = gdt_size s"
  "tss (put a v s) = tss s" "interrupt_stack (put a v s) = interrupt_stack s"
  "gdtr (put a v s) = gdtr s" "tr (put a v s) = tr s"
  by (simp_all add: put_def)

lemma zero_simps [simp]:
  "gmem (zero a n s) = memset a n (gmem s)" "gdt (zero a n s) = gdt s" "gdt_size (zero a n s) = gdt_size s"
  "tss (zero a n s) = tss s" "interrupt_stack (zero a n s) = interrupt_stack s"
  "gdtr (zero a n s) = gdtr s" "tr (zero a n s) = tr s"
  by (simp_all add: zero_def)

lemma grow_simps [simp]:
  "gmem (grow off n s) = gmem s" "gdt (grow off n s) = gdt s" "tss (grow off n s) = tss s"
  "gdt_size (grow off n s) = max (gdt_size s) (ucast off + n)"
  "interrupt_stack (grow off n s) = interrupt_stack s"
  "gdtr (grow off n s) = gdtr s" "tr (grow off n s) = tr s"
  by (auto simp: grow_def max_def)

lemmas put_field_defs = put_flags_def put_limit_1_def put_base_0_def put_base_1_def put_limit_0_def

lemma descriptor_rest [simp]:
  "gdt (gdt_code_descriptor off u s) = gdt s" "gdt (gdt_data_descriptor off u s) = gdt s" "gdt (gdt_tss_descriptor off t s) = gdt s"
  "tss (gdt_code_descriptor off u s) = tss s" "tss (gdt_data_descriptor off u s) = tss s" "tss (gdt_tss_descriptor off t s) = tss s"
  "interrupt_stack (gdt_code_descriptor off u s) = interrupt_stack s"
  "interrupt_stack (gdt_data_descriptor off u s) = interrupt_stack s"
  "interrupt_stack (gdt_tss_descriptor off t s) = interrupt_stack s"
  "gdt_size (gdt_code_descriptor off u s) = max (gdt_size s) (ucast off + 8)"
  "gdt_size (gdt_data_descriptor off u s) = max (gdt_size s) (ucast off + 8)"
  "gdt_size (gdt_tss_descriptor off t s) = max (gdt_size s) (ucast off + 16)"
  by (simp_all add: gdt_code_descriptor_def gdt_data_descriptor_def gdt_tss_descriptor_def put_field_defs Let_def)

text \<open>The bytes of each descriptor, by their distance from its start.\<close>

definition code_byte :: "bool \<Rightarrow> u64 \<Rightarrow> u8" where
  "code_byte u k = (if k = 5 then 0x9A OR (if u then 0x60 else 0) else if k = 6 then 0x20 else 0)"

definition data_byte :: "bool \<Rightarrow> u64 \<Rightarrow> u8" where
  "data_byte u k = (if k = 5 then 0x92 OR (if u then 0x60 else 0) else 0)"

definition tss_byte :: "u64 \<Rightarrow> u64 \<Rightarrow> u8" where
  "tss_byte t k =
     (if k = 0 then 104 else if k = 2 then ucast t else if k = 3 then ucast (drop_bit 8 t)
      else if k = 4 then ucast (drop_bit 16 t) else if k = 5 then 0x89
      else if k = 7 then ucast (drop_bit 24 t) else if k = 8 then ucast (drop_bit 32 t)
      else if k = 9 then ucast (drop_bit 40 t) else if k = 10 then ucast (drop_bit 48 t)
      else if k = 11 then ucast (drop_bit 56 t) else 0)"

lemma gmem_code_at:
  "gmem (gdt_code_descriptor off u s) (gdt s + ucast off + k) =
     (if k < 8 then code_byte u k else gmem s (gdt s + ucast off + k))"
  by (auto simp: gdt_code_descriptor_def put_flags_def memset_apply code_byte_def Let_def)

lemma gmem_data_at:
  "gmem (gdt_data_descriptor off u s) (gdt s + ucast off + k) =
     (if k < 8 then data_byte u k else gmem s (gdt s + ucast off + k))"
  by (auto simp: gdt_data_descriptor_def memset_apply data_byte_def Let_def)

lemma gmem_tss_at:
  "gmem (gdt_tss_descriptor off t s) (gdt s + ucast off + k) =
     (if k < 16 then tss_byte t k else gmem s (gdt s + ucast off + k))"
  by (auto simp: gdt_tss_descriptor_def put_field_defs memset_apply tss_byte_def Let_def)

lemma gmem_descriptor:
  "gmem (gdt_code_descriptor off u s) (gdt s + k) =
     (if k - ucast off < 8 then code_byte u (k - ucast off) else gmem s (gdt s + k))"
  "gmem (gdt_data_descriptor off u s) (gdt s + k) =
     (if k - ucast off < 8 then data_byte u (k - ucast off) else gmem s (gdt s + k))"
  "gmem (gdt_tss_descriptor off t s) (gdt s + k) =
     (if k - ucast off < 16 then tss_byte t (k - ucast off) else gmem s (gdt s + k))"
  using gmem_code_at [of off u s "k - ucast off"] gmem_data_at [of off u s "k - ucast off"]
    gmem_tss_at [of off t s "k - ucast off"]
  by simp_all

text \<open>The table that \<open>gdt_setup\<close> builds, byte by byte.\<close>

definition gdt_byte :: "u64 \<Rightarrow> u64 \<Rightarrow> u8" where
  "gdt_byte t k =
     (if k - 0x48 < 16 then tss_byte t (k - 0x48) else if k - 0x40 < 8 then data_byte True (k - 0x40)
      else if k - 0x38 < 8 then code_byte True (k - 0x38) else if k - 0x30 < 8 then data_byte False (k - 0x30)
      else if k - 0x28 < 8 then code_byte False (k - 0x28) else 0)"

definition tss_apart :: "gdt_state \<Rightarrow> bool" where
  "tss_apart s \<longleftrightarrow> (\<forall>i < 256. \<forall>j < tss_sizeof. gdt s + i \<noteq> tss s + j)"

definition gdt_filled :: "gdt_state \<Rightarrow> gdt_state" where
  "gdt_filled s =
     gdt_tss_descriptor TSS_SELECTOR (tss s) (gdt_data_descriptor USER_DATA_SELECTOR True
       (gdt_code_descriptor USER_CODE_SELECTOR True (gdt_data_descriptor KERNEL_DATA_SELECTOR False
         (gdt_code_descriptor KERNEL_CODE_SELECTOR False (zero (gdt s) 256 s)))))"

lemma gdt_filled_rest [simp]:
  "gdt (gdt_filled s) = gdt s" "tss (gdt_filled s) = tss s" "interrupt_stack (gdt_filled s) = interrupt_stack s"
  by (simp_all add: gdt_filled_def)

lemma gdt_filled_size: "gdt_size s = 0 \<Longrightarrow> gdt_size (gdt_filled s) = 88"
  by (simp add: gdt_filled_def max_def)

lemma gdt_filled_bytes: "k < 256 \<Longrightarrow> gmem (gdt_filled s) (gdt s + k) = gdt_byte (tss s) k"
proof -
  assume "k < 256"
  then have z: "gmem (zero (gdt s) 256 s) (gdt s + k) = 0" by (simp add: memset_apply)
  let ?s1 = "gdt_code_descriptor KERNEL_CODE_SELECTOR False (zero (gdt s) 256 s)"
  let ?s2 = "gdt_data_descriptor KERNEL_DATA_SELECTOR False ?s1"
  let ?s3 = "gdt_code_descriptor USER_CODE_SELECTOR True ?s2"
  let ?s4 = "gdt_data_descriptor USER_DATA_SELECTOR True ?s3"
  show ?thesis
    using z gmem_descriptor(1) [of KERNEL_CODE_SELECTOR False "zero (gdt s) 256 s" k]
      gmem_descriptor(2) [of KERNEL_DATA_SELECTOR False ?s1 k]
      gmem_descriptor(1) [of USER_CODE_SELECTOR True ?s2 k]
      gmem_descriptor(2) [of USER_DATA_SELECTOR True ?s3 k]
      gmem_descriptor(3) [of TSS_SELECTOR "tss s" ?s4 k]
    by (simp add: gdt_filled_def gdt_byte_def del: zero_simps(1))
qed

lemma gdt_setup_filled:
  "gdt_setup s = ltr TSS_SELECTOR (set_rsp0 (interrupt_stack s + 0x8000 - 8)
     (zero (tss s) tss_sizeof (lgdt (ucast (gdt_size (gdt_filled s) - 1)) (gdt s) (gdt_filled s))))"
  by (simp add: gdt_setup_def gdt_filled_def lgdt_def Let_def)

lemma gdt_setup_rest:
  "gdt (gdt_setup s) = gdt s" "tss (gdt_setup s) = tss s" "tr (gdt_setup s) = Some TSS_SELECTOR"
  "gdt_size s = 0 \<Longrightarrow> gdtr (gdt_setup s) = Some (87, gdt s)"
  "load64 (gmem (gdt_setup s)) (tss s + 4) = interrupt_stack s + 0x8000 - 8"
  by (simp_all add: gdt_setup_filled lgdt_def ltr_def set_rsp0_def gdt_filled_size)

lemma gdt_setup_bytes:
  assumes "tss_apart s" "k < 256"
  shows "gmem (gdt_setup s) (gdt s + k) = gdt_byte (tss s) k"
proof -
  have ne: "gdt s + k \<noteq> tss s + j" if "j < tss_sizeof" for j
    using assms that by (simp add: tss_apart_def)
  have "\<not> gdt s + k - tss s < tss_sizeof" using ne [of "gdt s + k - tss s"] by auto
  moreover have "gdt s + k \<noteq> tss s + 4 + i" if "i < 8" for i
  proof -
    have "4 + i < tss_sizeof" using that by unat_arith
    then show ?thesis using ne [of "4 + i"] by (simp add: add.assoc)
  qed
  ultimately show ?thesis
    using gdt_filled_bytes [OF assms(2), of s]
    by (simp add: gdt_setup_filled ltr_def set_rsp0_def lgdt_def store64_other memset_apply)
qed


lemma gdt_setup_load64:
  assumes "tss_apart s" "k < 248"
  shows "load64 (gmem (gdt_setup s)) (gdt s + k) = load64 (gdt_byte (tss s)) k"
proof (rule load64_cong)
  fix i :: u64 assume "i < 8"
  then have "k + i < 256" using assms(2) by (simp add: word_less_nat_alt unat_word_ariths)
  then show "gmem (gdt_setup s) (gdt s + k + i) = gdt_byte (tss s) (k + i)"
    using gdt_setup_bytes [OF assms(1)] by (simp add: add.assoc)
qed

lemma gdt_byte_descriptors:
  "load64 (gdt_byte t) 0 = 0" "load64 (gdt_byte t) 0x28 = 0x00209A0000000000"
  "load64 (gdt_byte t) 0x30 = 0x0000920000000000" "load64 (gdt_byte t) 0x38 = 0x0020FA0000000000"
  "load64 (gdt_byte t) 0x40 = 0x0000F20000000000"
  by (simp_all add: load64_def gdt_byte_def code_byte_def data_byte_def tss_byte_def)

text \<open>How the processor reads a system descriptor of two quadwords (Intel SDM vol. 3, 3.5 and 8.2.3).\<close>

definition sys_base :: "u64 \<Rightarrow> u64 \<Rightarrow> u64" where
  "sys_base lo hi = (drop_bit 16 lo AND 0xFFFFFF) OR push_bit 24 (drop_bit 56 lo) OR push_bit 32 hi"

definition sys_limit :: "u64 \<Rightarrow> u64" where
  "sys_limit lo = (lo AND 0xFFFF) OR (push_bit 16 (drop_bit 48 lo AND 0xF))"

definition sys_access :: "u64 \<Rightarrow> u8" where
  "sys_access lo = ucast (drop_bit 40 lo)"


lemma masks: "(0xF :: u64) = mask 4" "(0xFFFF :: u64) = mask 16" "(0xFFFFFF :: u64) = mask 24"
  by (simp_all add: mask_eq_exp_minus_1)

lemma sys_access_load64: "sys_access (load64 m a) = m (a + 5)"
  unfolding sys_access_def by (rule bit_word_eqI) (simp add: bit_load64 bits)

lemma sys_limit_load64:
  "sys_limit (load64 m a) =
     ucast (m a) OR push_bit 8 (ucast (m (a + 1))) OR push_bit 16 (ucast (m (a + 6) AND mask 4))"
  unfolding sys_limit_def masks
  by (rule bit_word_eqI)
    (auto simp: bit_load64 bits bit_mask_iff less_diff_conv2 not_less dest: bit_u8_less)

lemma sys_base_load64:
  "sys_base (load64 m a) hi =
     ucast (m (a + 2)) OR push_bit 8 (ucast (m (a + 3))) OR push_bit 16 (ucast (m (a + 4)))
     OR push_bit 24 (ucast (m (a + 7))) OR push_bit 32 hi"
  unfolding sys_base_def masks
  by (rule bit_word_eqI)
    (auto simp: bit_load64 bits bit_mask_iff less_diff_conv2 not_less dest: bit_u8_less)

lemma tss_hi: "load64 (gdt_byte t) 0x50 = drop_bit 32 t"
proof -
  have "load64 (gdt_byte t) 0x50 = load64 (store64 (\<lambda>_. 0) 0 (drop_bit 32 t)) 0"
    by (rule load64_cong, erule lt8_cases) (simp_all add: gdt_byte_def tss_byte_def store64_def)
  then show ?thesis by simp
qed

lemma tss_descriptor_bytes:
  "sys_base (load64 (gdt_byte t) 0x48) (load64 (gdt_byte t) 0x50) = t"
  "sys_limit (load64 (gdt_byte t) 0x48) = 104"
  "sys_access (load64 (gdt_byte t) 0x48) = 0x89"
  unfolding sys_base_load64 sys_limit_load64 sys_access_load64 tss_hi
  by (simp_all add: gdt_byte_def tss_byte_def)
    (auto intro!: bit_word_eqI simp: bits less_diff_conv2 not_less,
      (linarith | metis le_add_diff_inverse not_less)+)

text \<open>
  C27: after \<open>gdt_setup\<close> (the table is still empty, the task state segment lies elsewhere) the
  eight quadwords the processor reads are the null descriptor, a 64-bit ring-0 code and a ring-0
  data segment, a 64-bit ring-3 code and a ring-3 data segment, all present, at the five
  selectors; the TSS descriptor gives back the address of the TSS for every address, with a limit
  of 104 and as an available 64-bit TSS; the GDT register covers exactly the bytes filled, the
  task register names the TSS, and the stack for entry from user mode is the last quadword of the
  interrupt stack.
\<close>

theorem gdt_setup_descriptors:
  assumes "tss_apart s" "gdt_size s = 0"
  shows "let t = gdt_setup s; entry = (\<lambda>sel. load64 (gmem t) (gdt s + sel)) in
    entry 0 = 0
    \<and> entry 0x28 = 0x00209A0000000000 \<and> entry 0x30 = 0x0000920000000000
    \<and> entry 0x38 = 0x0020FA0000000000 \<and> entry 0x40 = 0x0000F20000000000
    \<and> sys_base (entry 0x48) (entry 0x50) = tss s \<and> sys_limit (entry 0x48) = 104
    \<and> sys_access (entry 0x48) = 0x89
    \<and> gdtr t = Some (87, gdt s) \<and> tr t = Some TSS_SELECTOR
    \<and> load64 (gmem t) (tss s + 4) = interrupt_stack s + 0x8000 - 8"
  using gdt_setup_load64 [OF assms(1), where k = "0"] gdt_setup_load64 [OF assms(1), where k = "0x28"]
    gdt_setup_load64 [OF assms(1), where k = "0x30"] gdt_setup_load64 [OF assms(1), where k = "0x38"]
    gdt_setup_load64 [OF assms(1), where k = "0x40"] gdt_setup_load64 [OF assms(1), where k = "0x48"]
    gdt_setup_load64 [OF assms(1), where k = "0x50"] gdt_setup_rest [where s = s] assms(2)
  by (simp add: gdt_byte_descriptors tss_descriptor_bytes Let_def)

definition sample_gdt :: gdt_state where
  "sample_gdt = \<lparr>gmem = \<lambda>_. 0xCC, gdt = 0xFFFF800000001000, gdt_size = 0, tss = 0xFFFF800000002040,
     interrupt_stack = 0xFFFF800000003000, gdtr = None, tr = None\<rparr>"

lemma sample_tss_apart: "tss_apart sample_gdt"
proof -
  have "0xFFFF800000001000 + i \<noteq> 0xFFFF800000002040 + j" if "i < 256" "j < 104" for i j :: u64
  proof
    assume "0xFFFF800000001000 + i = 0xFFFF800000002040 + j"
    then have "i = 0x1040 + j" by (simp add: algebra_simps)
    with that show False by (simp add: word_less_nat_alt unat_word_ariths)
  qed
  then show ?thesis by (simp add: tss_apart_def sample_gdt_def)
qed

lemma gdt_setup_descriptors_witness:
  "sys_base (load64 (gmem (gdt_setup sample_gdt)) 0xFFFF800000001048)
     (load64 (gmem (gdt_setup sample_gdt)) 0xFFFF800000001050) = 0xFFFF800000002040
   \<and> gdtr (gdt_setup sample_gdt) = Some (87, 0xFFFF800000001000)
   \<and> load64 (gmem (gdt_setup sample_gdt)) 0xFFFF800000001028 = 0x00209A0000000000"
  using gdt_setup_descriptors [OF sample_tss_apart] by (simp add: sample_gdt_def Let_def)

end
