(* ===== verification/Irq.thy ===== *)
theory Irq
  imports Pic
begin

text \<open>
  The keyboard interrupt of \<open>kernel/idt.c\<close>: the scan code table \<open>kbd_US\<close> and \<open>irq1_handler\<close>, which
  turns the scan codes of port \<open>0x60\<close> into characters of the keyboard buffer. \<open>typed_text\<close> is what
  a sequence of scan codes means; \<open>irq_run\<close> is one interrupt after the other.
\<close>

definition kbd_US :: "u8 list" where
  "kbd_US =
     (let keys = [0, 27] @ str ''1234567890-='' @ [8, 9] @ str ''qwertyuiop[]'' @ [10, 0]
          @ str ''asdfghjkl;'' @ [39, 96, 0, 92] @ str ''zxcvbnm,./'' @ [0] @ str ''*'' @ [0] @ str '' ''
          @ [0, 0] @ replicate 8 0 @ [0, 0, 0, 0, 0, 0] @ str ''-'' @ [0, 0, 0] @ str ''+''
          @ [0, 0, 0, 0, 0, 0, 0, 0, 0, 0, 0]
      in keys @ replicate (128 - length keys) 0)"

definition irq1_handler :: "device \<Rightarrow> kbd_t \<times> port_log \<Rightarrow> fault + (kbd_t \<times> port_log)" where
  "irq1_handler dev = (\<lambda>(k, ports).
     let inp = inb dev 0x60 ports;
         (is_mod, k1) = shift inp k
     in bindf
          (if \<not> is_mod \<and> inp < 127
           then (let val = kbd_US ! unat inp;
                     val = (if is_shift k1 \<and> 80 <s val then val - 32 else val)
                 in write_char val k1)
           else Inr k1)
          (\<lambda>k2. Inr (k2, outb PIC1_COMMAND PIC_EOI ports)))"

text \<open>The keyboard raises its interrupt once for each scan code.\<close>

primrec irq_run :: "u8 list \<Rightarrow> kbd_t \<times> port_log \<Rightarrow> fault + (kbd_t \<times> port_log)" where
  "irq_run [] s = Inr s"
| "irq_run (c # cs) s = bindf (irq1_handler (\<lambda>_ _. c) s) (irq_run cs)"

subsection \<open>What is typed\<close>

text \<open>The character of a key with a shift key held down.\<close>

definition with_shift :: "u8 \<Rightarrow> u8" where
  "with_shift v =
     (if v \<in> set (str ''abcdefghijklmnopqrstuvwxyz'') then v - 32
      else if v = chr CHR ''['' then chr CHR '';'' else if v = chr CHR '']'' then chr CHR ''=''
      else if v = 92 then chr CHR ''<'' else if v = 96 then chr CHR ''@'' else v)"

fun typed_text :: "bool \<Rightarrow> bool \<Rightarrow> u8 list \<Rightarrow> u8 list" where
  "typed_text l r [] = []"
| "typed_text l r (c # cs) =
     (if c = 0x2A then typed_text True r cs else if c = 0x36 then typed_text l True cs
      else if c = 0xAA then typed_text False r cs else if c = 0xB6 then typed_text l False cs
      else if c < 127
      then (if l \<or> r then with_shift (kbd_US ! unat c) else kbd_US ! unat c) # typed_text l r cs
      else typed_text l r cs)"

lemma length_kbd_US: "length kbd_US = 128"
  by (simp add: kbd_US_def)

lemma kbd_US_shift: "\<forall>v \<in> set kbd_US. (if 80 <s v then v - 32 else v) = with_shift v"
  by (simp add: kbd_US_def with_shift_def word_sless_alt)

lemma kbd_US_shift_nth: "c < 127 \<Longrightarrow> (if 80 <s kbd_US ! unat c then kbd_US ! unat c - 32 else kbd_US ! unat c) = with_shift (kbd_US ! unat (c :: u8))"
  using kbd_US_shift length_kbd_US by (simp add: word_less_nat_alt)

lemma write_char_mods:
  "write_char c k = Inr k' \<Longrightarrow> shiftl k' = shiftl k \<and> shiftr k' = shiftr k"
  by (auto simp: write_char_def Let_def split: if_splits)

lemma mods_chars [simp]:
  "chars (k\<lparr>shiftl := b\<rparr>) = chars k" "chars (k\<lparr>shiftr := b\<rparr>) = chars k"
  "kbd_ok (k\<lparr>shiftl := b\<rparr>) = kbd_ok k" "kbd_ok (k\<lparr>shiftr := b\<rparr>) = kbd_ok k"
  by (simp_all add: chars_def kbd_ok_def)

lemma irq1_step:
  assumes "kbd_ok k"
  shows "\<exists>k'. irq1_handler (\<lambda>_ _. c) (k, ports) = Inr (k', ports @ [(0x20, 0x20)]) \<and> kbd_ok k'
    \<and> shiftl k' = shiftl (snd (shift c k)) \<and> shiftr k' = shiftr (snd (shift c k))
    \<and> chars k' = take 500 (chars k @ (if fst (shift c k) \<or> 127 \<le> c then []
         else [if is_shift k then with_shift (kbd_US ! unat c) else kbd_US ! unat c]))"
proof (cases "fst (shift c k) \<or> 127 \<le> c")
  case True
  have "length (chars k) \<le> 500" using kq.content_bound [OF assms] .
  with True assms show ?thesis
    by (auto simp: irq1_handler_def inb_def outb_def shift_def Let_def split: if_splits)
next
  case False
  then have k1: "shift c k = (False, k)" by (auto simp: shift_def split: if_splits)
  let ?v = "if is_shift k then with_shift (kbd_US ! unat c) else kbd_US ! unat c"
  obtain k' where k': "write_char ?v k = Inr k'" "kbd_ok k'"
    "chars k' = (if length (chars k) < 500 then chars k @ [?v] else chars k)"
    using kq.put_ok [OF assms] by blast
  have "irq1_handler (\<lambda>_ _. c) (k, ports) = bindf (write_char ?v k) (\<lambda>k2. Inr (k2, ports @ [(0x20, 0x20)]))"
    using False kbd_US_shift_nth [of c] by (auto simp: irq1_handler_def inb_def outb_def k1 Let_def not_le)
  moreover have "length (chars k) \<le> 500" using kq.content_bound [OF assms] .
  ultimately show ?thesis
    using k' write_char_mods [OF k'(1)] False by (auto simp: k1)
qed

lemma take_take_append: "take n (take n xs @ ys) = take n (xs @ ys)"
  by (simp add: min_def)

text \<open>
  C28: scan codes become text. After any sequence of keyboard interrupts every interrupt has been
  acknowledged, the buffer is well formed, and it holds what it held followed by the characters the
  scan codes type, cut at 500: letters in capitals while either shift key is down, nothing for the
  release of a key.
\<close>

theorem irq_run_types:
  assumes "kbd_ok k"
  shows "\<exists>k'. irq_run codes (k, ports) = Inr (k', ports @ replicate (length codes) (0x20, 0x20))
    \<and> kbd_ok k' \<and> chars k' = take 500 (chars k @ typed_text (shiftl k) (shiftr k) codes)"
  using assms
proof (induction codes arbitrary: k ports)
  case Nil
  then show ?case using kq.content_bound [OF Nil] by simp
next
  case (Cons c codes)
  let ?t = "if fst (shift c k) \<or> 127 \<le> c then []
         else [if is_shift k then with_shift (kbd_US ! unat c) else kbd_US ! unat c]"
  obtain k1 where k1: "irq1_handler (\<lambda>_ _. c) (k, ports) = Inr (k1, ports @ [(0x20, 0x20)])" "kbd_ok k1"
    "shiftl k1 = shiftl (snd (shift c k))" "shiftr k1 = shiftr (snd (shift c k))"
    "chars k1 = take 500 (chars k @ ?t)"
    using irq1_step [OF Cons.prems] by blast
  obtain k2 where k2: "irq_run codes (k1, ports @ [(0x20, 0x20)]) =
      Inr (k2, (ports @ [(0x20, 0x20)]) @ replicate (length codes) (0x20, 0x20))" "kbd_ok k2"
    "chars k2 = take 500 (chars k1 @ typed_text (shiftl k1) (shiftr k1) codes)"
    using Cons.IH [OF k1(2)] by blast
  have "?t @ typed_text (shiftl k1) (shiftr k1) codes = typed_text (shiftl k) (shiftr k) (c # codes)"
    unfolding k1(3,4) by (auto simp: shift_def is_shift_def not_le)
  moreover have "take 500 (take 500 (chars k @ ?t) @ u) = take 500 (chars k @ ?t @ u)" for u
    by (simp only: append_assoc [symmetric] take_take_append)
  ultimately have "chars k2 = take 500 (chars k @ typed_text (shiftl k) (shiftr k) (c # codes))"
    unfolding k2(3) k1(5) by (simp only:)
  then show ?case using k1(1) k2(1,2) by auto
qed

lemma irq_run_types_witness:
  "\<exists>k' acks. irq_run [0x2A, 0x23, 0xA3, 0xAA, 0x17, 0x97, 0x1C] (kbd_boot, []) = Inr (k', acks)
    \<and> chars k' = str ''Hi'' @ [0x0A]"
proof -
  have "kbd_ok kbd_boot" "chars kbd_boot = []" by (simp_all add: kbd_ok_def kbd_boot_def chars_def)
  moreover have "typed_text False False [0x2A, 0x23, 0xA3, 0xAA, 0x17, 0x97, 0x1C] = str ''Hi'' @ [0x0A]"
    by (simp add: kbd_US_def with_shift_def)
  moreover have "shiftl kbd_boot = False" "shiftr kbd_boot = False" by (simp_all add: kbd_boot_def)
  ultimately show ?thesis
    using irq_run_types [of kbd_boot "[0x2A, 0x23, 0xA3, 0xAA, 0x17, 0x97, 0x1C]" "[]"]
    by (auto simp del: irq_run.simps typed_text.simps)
qed

end
