(* ===== verification/Idt.thy ===== *)
theory Idt
  imports Prelude
begin

text \<open>
  The interrupt descriptor table of \<open>kernel/idt.c\<close>: \<open>idt_entry_t\<close> with its bit-fields,
  \<open>idt_set_handler\<close> and \<open>idt_setup\<close>. The addresses of the handler functions are given by the
  linker: a function from the handlers' names, \<open>handler_t\<close>. \<open>gate_offset\<close> is how the processor
  puts the three parts of the address together again. \<open>idt_setup\<close> also prints two lines
  (\<open>idt_setup_report\<close> in \<open>Exceptions\<close>).
\<close>

datatype handler_t = Example_handler_ec | Divide_zero | Exception nat | Segfault | Irq1_handler | Syscall_entry

record idt_entry =
  offset_0 :: u16
  selector :: u16
  ist :: "3 word"
  gate_type :: "4 word"
  dpl :: "2 word"
  present :: bool
  offset_1 :: u16
  offset_2 :: u32

text \<open>A field of \<open>idt\<close> in static storage starts as zero.\<close>

definition no_entry :: idt_entry where
  "no_entry = \<lparr>offset_0 = 0, selector = 0, ist = 0, gate_type = 0, dpl = 0, present = False,
     offset_1 = 0, offset_2 = 0\<rparr>"

definition idt_boot :: "idt_entry list" where
  "idt_boot = replicate 256 no_entry"

abbreviation (input) IDT_TYPE_INTERRUPT :: u8 where "IDT_TYPE_INTERRUPT \<equiv> 0xE"
abbreviation (input) IDT_TYPE_TRAP :: u8 where "IDT_TYPE_TRAP \<equiv> 0xF"

definition idt_set_handler :: "u8 \<Rightarrow> u64 \<Rightarrow> u8 \<Rightarrow> idt_entry list \<Rightarrow> idt_entry list" where
  "idt_set_handler index f ty idt =
     idt[unat index := (idt ! unat index)
       \<lparr>offset_0 := ucast f, offset_1 := ucast (drop_bit 16 f), offset_2 := ucast (drop_bit 32 f),
        gate_type := ucast ty, present := True, dpl := 3, ist := 0, selector := 0x28\<rparr>]"

text \<open>The 21 times round the loop, then the calls of \<open>idt_setup\<close> in their order.\<close>

definition idt_calls :: "(u8 \<times> handler_t \<times> u8) list" where
  "idt_calls =
     [(0, Divide_zero, IDT_TYPE_INTERRUPT), (1, Exception 1, IDT_TYPE_INTERRUPT),
      (2, Exception 2, IDT_TYPE_INTERRUPT), (3, Exception 3, IDT_TYPE_TRAP),
      (4, Exception 4, IDT_TYPE_TRAP), (5, Exception 5, IDT_TYPE_INTERRUPT),
      (6, Exception 6, IDT_TYPE_INTERRUPT), (7, Exception 7, IDT_TYPE_INTERRUPT),
      (8, Exception 8, IDT_TYPE_INTERRUPT), (9, Exception 9, IDT_TYPE_INTERRUPT),
      (10, Exception 10, IDT_TYPE_INTERRUPT), (11, Exception 11, IDT_TYPE_INTERRUPT),
      (12, Exception 12, IDT_TYPE_INTERRUPT), (13, Exception 13, IDT_TYPE_INTERRUPT),
      (14, Segfault, IDT_TYPE_INTERRUPT), (16, Exception 16, IDT_TYPE_INTERRUPT),
      (17, Exception 17, IDT_TYPE_INTERRUPT), (18, Exception 18, IDT_TYPE_INTERRUPT),
      (19, Exception 19, IDT_TYPE_INTERRUPT), (20, Exception 20, IDT_TYPE_INTERRUPT),
      (21, Exception 21, IDT_TYPE_INTERRUPT), (28, Exception 28, IDT_TYPE_INTERRUPT),
      (29, Exception 29, IDT_TYPE_INTERRUPT), (30, Exception 30, IDT_TYPE_INTERRUPT),
      (0x21, Irq1_handler, IDT_TYPE_INTERRUPT), (0x80, Syscall_entry, IDT_TYPE_TRAP)]"

text \<open>The filled table and the record that \<open>lidt\<close> loads: \<open>size\<close> is \<open>sizeof(idt)\<close>, 256 entries of 16 bytes.\<close>

definition idt_setup :: "(handler_t \<Rightarrow> u64) \<Rightarrow> u64 \<Rightarrow> idt_entry list \<Rightarrow> idt_entry list \<times> (u16 \<times> u64)" where
  "idt_setup addr base idt =
     (let idt1 = fold (\<lambda>i. idt_set_handler (of_nat i) (addr Example_handler_ec) IDT_TYPE_INTERRUPT) [0..<21] idt;
          idt2 = fold (\<lambda>(i, h, ty). idt_set_handler i (addr h) ty) idt_calls idt1
      in (idt2, (4096, base)))"

subsection \<open>What the processor dispatches to\<close>

definition gate_offset :: "idt_entry \<Rightarrow> u64" where
  "gate_offset e = ucast (offset_0 e) OR push_bit 16 (ucast (offset_1 e)) OR push_bit 32 (ucast (offset_2 e))"

definition gate :: "u64 \<Rightarrow> u8 \<Rightarrow> idt_entry \<Rightarrow> bool" where
  "gate f ty e \<longleftrightarrow> gate_offset e = f \<and> gate_type e = ucast ty \<and> present e \<and> dpl e = 3 \<and> ist e = 0
     \<and> selector e = 0x28"

lemma length_idt_set_handler [simp]: "length (idt_set_handler i f ty idt) = length idt"
  by (simp add: idt_set_handler_def)

lemma gate_offset_split:
  "ucast (ucast f :: u16) OR push_bit 16 (ucast (ucast (drop_bit 16 f) :: u16))
     OR push_bit 32 (ucast (ucast (drop_bit 32 f) :: u32)) = (f :: u64)"
  by (rule bit_word_eqI) (auto simp: bits less_diff_conv2 not_less, (linarith | metis le_add_diff_inverse not_less)+)

lemma idt_set_handler_same: "unat i < length idt \<Longrightarrow> gate f ty (idt_set_handler i f ty idt ! unat i)"
  by (simp add: gate_def idt_set_handler_def gate_offset_def gate_offset_split)

lemma idt_set_handler_other: "v \<noteq> unat i \<Longrightarrow> idt_set_handler i f ty idt ! v = idt ! v"
  by (simp add: idt_set_handler_def)

text \<open>
  The address of a handler survives being split into the three parts of a gate: the processor
  reads back the very address, for any function, and the gate is present, of the given type, in the
  kernel code segment and open to ring 3; no other entry changes.
\<close>

lemma idt_set_handler_gate:
  assumes "length idt = 256" "v < 256"
  shows "let e = idt_set_handler index f ty idt ! v in
    (if v = unat index then gate f ty e else e = idt ! v)"
  using assms idt_set_handler_same [of index idt f ty] idt_set_handler_other [of v index f ty idt]
  by auto

subsection \<open>The table after \<open>idt_setup\<close>\<close>

text \<open>\<open>tbl\<close> maps each vector that was set to the handler and the type it was set to.\<close>

definition holds_gates :: "(handler_t \<Rightarrow> u64) \<Rightarrow> idt_entry list \<Rightarrow> (nat \<Rightarrow> (handler_t \<times> u8) option) \<Rightarrow> idt_entry list \<Rightarrow> bool" where
  "holds_gates addr idt0 tbl idt \<longleftrightarrow> length idt = 256 \<and>
     (\<forall>v < 256. case tbl v of None \<Rightarrow> idt ! v = idt0 ! v | Some (h, ty) \<Rightarrow> gate (addr h) ty (idt ! v))"

abbreviation (input) record_call :: "u8 \<times> handler_t \<times> u8 \<Rightarrow> (nat \<Rightarrow> (handler_t \<times> u8) option) \<Rightarrow> nat \<Rightarrow> (handler_t \<times> u8) option" where
  "record_call \<equiv> \<lambda>(i, h, ty) tbl. tbl(unat i \<mapsto> (h, ty))"

lemma holds_gates_set:
  assumes "holds_gates addr idt0 tbl idt"
  shows "holds_gates addr idt0 (tbl(unat i \<mapsto> (h, ty))) (idt_set_handler i (addr h) ty idt)"
proof -
  have "unat i < length idt" using assms unsigned_less [of i] by (simp add: holds_gates_def)
  then show ?thesis
    using assms idt_set_handler_same [of i idt "addr h" ty]
    by (auto simp: holds_gates_def idt_set_handler_other split: option.splits)
qed

lemma holds_gates_calls:
  assumes "holds_gates addr idt0 tbl idt"
  shows "holds_gates addr idt0 (fold record_call calls tbl) (fold (\<lambda>(i, h, ty). idt_set_handler i (addr h) ty) calls idt)"
  using assms
proof (induction calls arbitrary: tbl idt)
  case (Cons c calls)
  obtain i h ty where "c = (i, h, ty)" by (cases c)
  with Cons.IH [OF holds_gates_set [OF Cons.prems, of i h ty]] show ?case by simp
qed simp

lemma loop_as_calls:
  "fold (\<lambda>i. idt_set_handler (of_nat i) f ty) is idt = 
   fold (\<lambda>(i, h, ty). idt_set_handler i (addr h) ty) (map (\<lambda>i. (of_nat i, h, ty)) is) idt" if "f = addr h"
  using that by (induction "is" arbitrary: idt) simp_all

definition idt_table :: "nat \<Rightarrow> (handler_t \<times> u8) option" where
  "idt_table = fold record_call (map (\<lambda>i. (of_nat i, Example_handler_ec, IDT_TYPE_INTERRUPT)) [0..<21] @ idt_calls) (\<lambda>_. None)"

lemma idt_setup_table: "holds_gates addr idt_boot idt_table (fst (idt_setup addr base idt_boot))"
proof -
  let ?loop = "map (\<lambda>i. (of_nat i, Example_handler_ec, IDT_TYPE_INTERRUPT)) [0..<21]"
  have "holds_gates addr idt_boot (\<lambda>_. None) idt_boot"
    by (simp add: holds_gates_def idt_boot_def)
  from holds_gates_calls [OF holds_gates_calls [OF this, of ?loop], of idt_calls] show ?thesis
    by (simp only: idt_setup_def idt_table_def Let_def fst_conv fold_append comp_apply
        loop_as_calls [OF refl, where addr = addr and h = Example_handler_ec])
qed

lemma idt_table_eval:
  "idt_table v = map_of (map (\<lambda>(i, h, ty). (unat i, h, ty)) (rev idt_calls) @ [(15, Example_handler_ec, 0xE)]) v"
  unfolding idt_table_def idt_calls_def
  by (simp add: upt_rec)

text \<open>Which function handles which vector.\<close>

definition vector_handler :: "nat \<Rightarrow> handler_t option" where
  "vector_handler v =
     (if v = 0 then Some Divide_zero else if v = 14 then Some Segfault
      else if v = 15 then Some Example_handler_ec
      else if v \<le> 21 \<or> v = 28 \<or> v = 29 \<or> v = 30 then Some (Exception v)
      else if v = 0x21 then Some Irq1_handler else if v = 0x80 then Some Syscall_entry else None)"

lemma idt_table_handlers:
  "idt_table v = map_option (\<lambda>h. (h, if v = 3 \<or> v = 4 \<or> v = 0x80 then 0xF else 0xE)) (vector_handler v)"
proof (cases "v < 22")
  case True
  have "list_all (\<lambda>v. idt_table v = map_option (\<lambda>h. (h, if v = 3 \<or> v = 4 \<or> v = 0x80 then 0xF else 0xE)) (vector_handler v)) [0..<22]"
    unfolding idt_table_eval idt_calls_def by (simp add: upt_rec vector_handler_def)
  with True show ?thesis by (simp add: list_all_iff)
next
  case False
  then show ?thesis
    unfolding idt_table_eval idt_calls_def by (simp add: vector_handler_def)
qed

text \<open>
  C30: after \<open>idt_setup\<close> every vector is dispatched to its own handler, whatever the addresses of
  the handlers: exceptions 0 to 21 and 28 to 30 (vector 15, which is reserved, to the example
  handler), the keyboard at \<open>0x21\<close>, system calls at \<open>0x80\<close>; 3, 4 and \<open>0x80\<close> by trap gates, the rest
  by interrupt gates; all in the kernel code segment with DPL 3. The other vectors are not present.
\<close>

theorem idt_setup_vectors:
  assumes "v < 256"
  shows "let e = fst (idt_setup addr base idt_boot) ! v in
    case vector_handler v of
      None \<Rightarrow> \<not> present e
    | Some h \<Rightarrow> gate (addr h) (if v = 3 \<or> v = 4 \<or> v = 0x80 then 0xF else 0xE) e"
  using idt_setup_table [of addr base] assms
  by (cases "vector_handler v")
    (auto simp: holds_gates_def idt_table_handlers idt_boot_def no_entry_def Let_def)

lemma idt_setup_vectors_witness:
  "gate 0xFFFFFFFF80205678 0xE
     (fst (idt_setup (\<lambda>h. if h = Segfault then 0xFFFFFFFF80205678 else 0xFFFFFFFF80200000) 0xFFFFFFFF80300000 idt_boot) ! 14)
   \<and> \<not> present (fst (idt_setup (\<lambda>h. 0xFFFFFFFF80200000) 0xFFFFFFFF80300000 idt_boot) ! 0x22)"
  using idt_setup_vectors [of 14 "\<lambda>h. if h = Segfault then 0xFFFFFFFF80205678 else 0xFFFFFFFF80200000" "0xFFFFFFFF80300000"]
    idt_setup_vectors [of "0x22" "\<lambda>h. 0xFFFFFFFF80200000" "0xFFFFFFFF80300000"]
  by (simp add: vector_handler_def Let_def)

end
