(* ===== verification/Exceptions.thy ===== *)
theory Exceptions
  imports Kprint
begin

text \<open>
  The exception handlers of \<open>kernel/idt.c\<close>: what each prints before it halts. A handler's result is
  the terminal it leaves and its \<open>ending\<close>: \<open>halt()\<close> never returns, so what is on the screen then is
  what stays on it. \<open>ec\<close> is the error code the processor pushes. The lemmas say what the tests of
  \<open>segfault\<close> and of the selector faults mean in terms of the bits of the error code.
\<close>

datatype ending = Halts | Returns

definition halts :: "(u8 list \<times> vararg list) list \<Rightarrow> term_t \<Rightarrow> fault + (ending \<times> term_t)" where
  "halts calls t = bindf (prints calls t) (\<lambda>t'. Inr (Halts, t'))"

subsection \<open>Handlers that print a line and halt\<close>

definition divide_zero :: "term_t \<Rightarrow> fault + (ending \<times> term_t)" where
  "divide_zero t = halts [(line ''0: Divide by zero error'', [])] t"

definition exception2 :: "term_t \<Rightarrow> fault + (ending \<times> term_t)" where
  "exception2 t = halts [(line ''2: Non-maskable interrupt'', [])] t"

definition exception4 :: "term_t \<Rightarrow> fault + (ending \<times> term_t)" where
  "exception4 t = halts [(line ''4: Overflow'', [])] t"

definition exception5 :: "term_t \<Rightarrow> fault + (ending \<times> term_t)" where
  "exception5 t = halts [(line ''5: Bound Range Exceeded'', [])] t"

definition exception6 :: "term_t \<Rightarrow> fault + (ending \<times> term_t)" where
  "exception6 t = halts [(line ''6: Invalid Opcode'', [])] t"

definition exception7 :: "term_t \<Rightarrow> fault + (ending \<times> term_t)" where
  "exception7 t = halts [(line ''7: Device not available'', [])] t"

definition exception8 :: "u64 \<Rightarrow> term_t \<Rightarrow> fault + (ending \<times> term_t)" where
  "exception8 ec t = halts [(line ''8: Double fault ec=%d'', [WordArg ec])] t"

definition exception9 :: "term_t \<Rightarrow> fault + (ending \<times> term_t)" where
  "exception9 t = halts [(line ''9: Coprocessor segment overrun'', [])] t"

definition exception16 :: "term_t \<Rightarrow> fault + (ending \<times> term_t)" where
  "exception16 t = halts [(line ''16: x87 Floating point exception'', [])] t"

definition exception18 :: "term_t \<Rightarrow> fault + (ending \<times> term_t)" where
  "exception18 t = halts [(line ''18: Machine check'', [])] t"

definition exception19 :: "term_t \<Rightarrow> fault + (ending \<times> term_t)" where
  "exception19 t = halts [(line ''19: SIMD floating point exception'', [])] t"

definition exception20 :: "term_t \<Rightarrow> fault + (ending \<times> term_t)" where
  "exception20 t = halts [(line ''20: Virtualization exception'', [])] t"

definition exception21 :: "u64 \<Rightarrow> term_t \<Rightarrow> fault + (ending \<times> term_t)" where
  "exception21 ec t = halts [(line ''21: Control protection exception, ec=%d'', [WordArg ec])] t"

definition exception28 :: "term_t \<Rightarrow> fault + (ending \<times> term_t)" where
  "exception28 t = halts [(line ''28: Hypervisor injection exception'', [])] t"

definition exception29 :: "u64 \<Rightarrow> term_t \<Rightarrow> fault + (ending \<times> term_t)" where
  "exception29 ec t = halts [(line ''29: VMM communication exception, ec=%d'', [WordArg ec])] t"

definition exception30 :: "u64 \<Rightarrow> term_t \<Rightarrow> fault + (ending \<times> term_t)" where
  "exception30 ec t = halts [(line ''30: Security exception, ec=%d'', [WordArg ec])] t"

definition example_handler :: "term_t \<Rightarrow> fault + (ending \<times> term_t)" where
  "example_handler t = halts [(line ''example interrupt handler'', [])] t"

definition example_handler_ec :: "u64 \<Rightarrow> term_t \<Rightarrow> fault + (ending \<times> term_t)" where
  "example_handler_ec ec t = halts [(line ''example interrupt handler (ec=%d)'', [WordArg ec])] t"

definition exception17 :: "u64 \<Rightarrow> term_t \<Rightarrow> fault + (ending \<times> term_t)" where
  "exception17 ec t = halts
     [(line ''17: Alignment check, ec=%d'', [WordArg ec]),
      (line ''    Instruction which caused exception saved in pointer'', [])] t"

subsection \<open>Debug\<close>

text \<open>\<open>interrupt_context_t\<close>, and the global \<open>int i\<close> that counts the calls.\<close>

record interrupt_context =
  ip :: u64
  cs :: u64
  flags :: u64
  sp :: u64
  ss :: u64

definition exception1 :: "u32 \<Rightarrow> interrupt_context \<Rightarrow> term_t \<Rightarrow> fault + (ending \<times> u32 \<times> interrupt_context \<times> term_t)" where
  "exception1 i ctx t =
     bindf (prints [(line ''1: Debug'', [])] t) (\<lambda>t.
     if i = 0x7FFFFFFF then Inl Undefined
     else (let i = i + 1 in
       bindf (prints [(str ''Called debug %d times'', [WordArg (ucast i)]),
                      (line ''Press anything to continue'', []),
                      (line ''Flags: %p'', [WordArg (flags ctx)])] t) (\<lambda>t.
       let ctx = ctx\<lparr>flags := flags ctx OR 0x100\<rparr>
       in bindf (prints [(line ''Flags: %p'', [WordArg (flags ctx)])] t) (\<lambda>t.
       Inr (Returns, i, ctx, t)))))"

subsection \<open>Selector faults: vectors 10 to 13\<close>

text \<open>The part that the four handlers share; the \<open>int16_t\<close> index is promoted to \<open>int\<close> in the call.\<close>

definition selector_report :: "u64 \<Rightarrow> (u8 list \<times> vararg list) list" where
  "selector_report ec =
     (let index = (ucast (drop_bit 3 ec) :: u16);
          arg = WordArg (ucast (scast index :: u32));
          ec' = drop_bit 1 ec
      in (if ec AND 0x0001 \<noteq> 0 then [(line ''   There has been an external error'', [])] else [])
         @ (if ec' AND 0x0000 \<noteq> 0 then [(line ''   Problem occurred in the GDT at index %d'', [arg])] else [])
         @ (if ec' AND 0x0001 \<noteq> 0 \<or> ec' AND 0x0003 \<noteq> 0
            then [(line ''    Problem occurred in the IDT at index %d'', [arg])] else [])
         @ (if ec' AND 0x0002 \<noteq> 0 then [(line ''   Problem occurred in the LDT at index %d'', [arg])] else []))"

definition exception10 :: "u64 \<Rightarrow> term_t \<Rightarrow> fault + (ending \<times> term_t)" where
  "exception10 ec t = halts ((line ''10: Invalid TSS, ec=%d'', [WordArg ec]) # selector_report ec) t"

definition exception11 :: "u64 \<Rightarrow> term_t \<Rightarrow> fault + (ending \<times> term_t)" where
  "exception11 ec t = halts ((line ''11: Segment not present, ec=%d'', [WordArg ec]) # selector_report ec) t"

definition exception12 :: "u64 \<Rightarrow> term_t \<Rightarrow> fault + (ending \<times> term_t)" where
  "exception12 ec t = halts ((line ''12: Stack-Segment fault, ec=%d'', [WordArg ec]) # selector_report ec) t"

definition exception13 :: "u64 \<Rightarrow> term_t \<Rightarrow> fault + (ending \<times> term_t)" where
  "exception13 ec t = halts ((line ''13: General protection fault, ec=%d'', [WordArg ec]) # selector_report ec) t"

subsection \<open>Page faults\<close>

definition fault_report :: "u64 \<Rightarrow> (u8 list \<times> vararg list) list" where
  "fault_report ec =
     [(if ec AND 0x0001 = 0 then line ''   Non-present page'' else line ''   Page protection violaton'', []),
      (if ec AND 0x0002 = 0 then line ''   Caused by a read access'' else line ''   Caused by a write access'', [])]
     @ (if ec AND 0x0003 = 1 then [(line ''   Fault happened in CPL=3'', [])] else [])
     @ (if ec AND 0x0004 = 1 then [(line ''   One or more page directory entries contain reserved bits which are set to 1. This only applies when the PSE or PAE flags in CR4 are set to 1'', [])] else [])
     @ (if ec AND 0x0005 = 1 then [(line ''   Fault was caused by an instruction fetch. This only applies when the No-Execute bit is supported and enabled'', [])] else [])
     @ (if ec AND 0x0006 = 1 then [(line ''   Fault caused by a protection key violation'', [])] else [])
     @ (if ec AND 0x0007 = 1 then [(line ''   Fault caused by shadow stack access'', [])] else [])
     @ (if ec AND 0x000f = 1 then [(line ''   Fault due to SGX violation - unrelated to paging'', [])] else [])"

definition segfault :: "u64 \<Rightarrow> u64 \<Rightarrow> term_t \<Rightarrow> fault + (ending \<times> term_t)" where
  "segfault cr2 ec t =
     halts ([(line ''cr2 = %p'', [WordArg cr2]), (line ''14: Page fault (ec=%d)'', [WordArg ec])] @ fault_report ec) t"

subsection \<open>What \<open>idt_setup\<close> prints\<close>

definition idt_setup_report :: "u64 \<Rightarrow> (u8 list \<times> vararg list) list" where
  "idt_setup_report example_handler_ec_addr =
     [(line ''Setup'', []), (line ''Handler: %p'', [WordArg example_handler_ec_addr])]"

subsection \<open>The bits of an error code\<close>

lemma low_nibble:
  fixes ec :: u64
  obtains k where "k \<in> {0, 1, 2, 3, 4, 5, 6, 7, 8, 9, 10, 11, 12, 13, 14, 15}"
    "\<And>c. c < 16 \<Longrightarrow> ec AND c = k AND c" "\<And>n. n < 4 \<Longrightarrow> bit ec n = bit k n"
proof -
  let ?k = "take_bit 4 ec"
  have "unat ?k < 2 ^ 4" unfolding unsigned_take_bit_eq by (rule take_bit_nat_less_exp)
  then have less: "unat ?k \<in> set [0..<16]" by simp
  have "list_all (\<lambda>i. (of_nat i :: u64) \<in> {0, 1, 2, 3, 4, 5, 6, 7, 8, 9, 10, 11, 12, 13, 14, 15}) [0..<16]"
    by (simp add: upt_rec)
  with less have "of_nat (unat ?k) \<in> {0 :: u64, 1, 2, 3, 4, 5, 6, 7, 8, 9, 10, 11, 12, 13, 14, 15}"
    unfolding list_all_iff by blast
  then have mem: "?k \<in> {0, 1, 2, 3, 4, 5, 6, 7, 8, 9, 10, 11, 12, 13, 14, 15}"
    by simp
  have "ec AND c = ?k AND c" if "c < 16" for c
  proof -
    have "c = take_bit 4 c"
      using that by (simp add: word_unat_eq_iff unsigned_take_bit_eq word_less_nat_alt take_bit_nat_eq_self)
    then show ?thesis by (metis take_bit_eq_mask and.assoc and.commute)
  qed
  then show thesis using that [OF mem] by (simp add: bit_take_bit_iff)
qed
lemma low_bits_eq_1:
  "ec AND 3 = 1 \<longleftrightarrow> bit ec 0 \<and> \<not> bit ec 1"
  "ec AND 4 \<noteq> 1" "ec AND 6 \<noteq> 1"
  "ec AND 5 = 1 \<longleftrightarrow> bit ec 0 \<and> \<not> bit ec 2"
  "ec AND 7 = 1 \<longleftrightarrow> bit ec 0 \<and> \<not> bit ec 1 \<and> \<not> bit ec 2"
  "ec AND 0xF = 1 \<longleftrightarrow> bit ec 0 \<and> \<not> bit ec 1 \<and> \<not> bit ec 2 \<and> \<not> bit ec 3"
  "ec AND 1 = 0 \<longleftrightarrow> \<not> bit ec 0" "ec AND 2 = 0 \<longleftrightarrow> \<not> bit ec 1"  "ec AND 3 = 0 \<longleftrightarrow> \<not> bit ec 0 \<and> \<not> bit ec 1" for ec :: u64
  by (rule low_nibble [of ec], auto)+

subsection \<open>What the reports say\<close>

lemma ktexts_if: "no_format m \<Longrightarrow> ktexts (if b then [(m, [])] else []) = Some (if b then m else [])"
  by (simp add: ktext_literal)

lemma halts_text:
  "halts calls t = (case ktexts calls of None \<Rightarrow> Inl Undefined | Some u \<Rightarrow> Inr (Halts, fold term_putchar u t))"
  by (simp add: halts_def prints_text split: option.split)

text \<open>The lines of a page fault report, by the bits of the error code.\<close>

definition fault_text :: "u64 \<Rightarrow> u8 list" where
  "fault_text ec =
     (if bit ec 0 then line ''   Page protection violaton'' else line ''   Non-present page'')
     @ (if bit ec 1 then line ''   Caused by a write access'' else line ''   Caused by a read access'')
     @ (if bit ec 0 \<and> \<not> bit ec 1 then line ''   Fault happened in CPL=3'' else [])
     @ (if bit ec 0 \<and> \<not> bit ec 2 then line ''   Fault was caused by an instruction fetch. This only applies when the No-Execute bit is supported and enabled'' else [])
     @ (if bit ec 0 \<and> \<not> bit ec 1 \<and> \<not> bit ec 2 then line ''   Fault caused by shadow stack access'' else [])
     @ (if bit ec 0 \<and> \<not> bit ec 1 \<and> \<not> bit ec 2 \<and> \<not> bit ec 3 then line ''   Fault due to SGX violation - unrelated to paging'' else [])"

lemma fault_report_text: "ktexts (fault_report ec) = Some (fault_text ec)"
  unfolding fault_report_def fault_text_def ktexts_append
  by (simp add: ktexts_if ktext_literal low_bits_eq_1)

text \<open>The lines of a selector fault, the index printed as a signed 16-bit number in 64 bits.\<close>

definition selector_text :: "u64 \<Rightarrow> u8 list" where
  "selector_text ec =
     (let index = numeral_text 10 (unat (scast (ucast (drop_bit 3 ec) :: u16) :: u64))
      in (if bit ec 0 then line ''   There has been an external error'' else [])
         @ (if bit ec 1 \<or> bit ec 2 then str ''    Problem occurred in the IDT at index '' @ index @ [0x0A] else [])
         @ (if bit ec 2 then str ''   Problem occurred in the LDT at index '' @ index @ [0x0A] else []))"

lemmas ktext_simps = ktext_Cons ktext_conv ktext_Nil conversions_def

lemma int_arg_index: "int_arg (ucast (scast (i :: u16) :: u32)) = scast i"
  unfolding int_arg_ucast by (rule bit_word_eqI) (auto simp: bits min_def)

lemma index_line:
  "ktext (line ''    Problem occurred in the IDT at index %d'') [WordArg w] =
     Some (str ''    Problem occurred in the IDT at index '' @ numeral_text 10 (unat (int_arg w)) @ [0x0A])"
  "ktext (line ''   Problem occurred in the LDT at index %d'') [WordArg w] =
     Some (str ''   Problem occurred in the LDT at index '' @ numeral_text 10 (unat (int_arg w)) @ [0x0A])"
  by (simp_all add: ktext_simps)

lemma ktexts_if_arg:
  "ktext m [a] = Some u \<Longrightarrow> ktexts (if b then [(m, [a])] else []) = Some (if b then u else [])"
  by simp

lemma bit_drop_1: "bit (drop_bit 1 ec) 0 = bit ec 1" "bit (drop_bit 1 ec) 1 = bit ec 2" for ec :: u64
  by (simp_all add: bit_drop_bit_eq numeral_2_eq_2)

lemma selector_report_text: "ktexts (selector_report ec) = Some (selector_text ec)"
  unfolding selector_report_def selector_text_def Let_def ktexts_append
  by (simp only: ktexts_if_arg [OF index_line(1)] ktexts_if_arg [OF index_line(2)] low_bits_eq_1 bit_drop_1
      int_arg_index and_zero_eq)
    (simp add: ktext_literal bit_drop_1)

subsection \<open>Properties\<close>

text \<open>
  C31: what a page fault reports, for every faulting address and error code: the address, the code as
  a sign-extended 32-bit number, and then lines that depend on its bits 0 to 3 only. Present and write
  are read from bits 0 and 1. The line for user mode appears for bits 0 and 1 being 1 and 0 (bit 2,
  the user bit of the processor, plays no part), those for an instruction fetch, a shadow stack and SGX
  only when bit 2 is clear, and those for reserved bits and protection keys never.
\<close>

theorem segfault_report:
  "segfault cr2 ec t = Inr (Halts, fold term_putchar
     (str ''cr2 = 0x'' @ numeral_text 16 (unat cr2) @ [0x0A]
      @ str ''14: Page fault (ec='' @ numeral_text 10 (unat (int_arg ec)) @ line '')'' @ fault_text ec) t)"
  by (simp add: segfault_def halts_text ktexts_append fault_report_text ktext_simps)

text \<open>
  What the handlers of vectors 10 to 13 report: the error code, whether the event was external,
  and the index (bits 3 to 18 of the code as a signed number) under the table that the code names:
  the IDT when bit 1 or bit 2 is set, also the LDT when bit 2 is set, and none for the GDT.
\<close>

lemma selector_fault_report:
  "exception10 ec t = Inr (Halts, fold term_putchar
     (str ''10: Invalid TSS, ec='' @ numeral_text 10 (unat (int_arg ec)) @ [0x0A] @ selector_text ec) t)
   \<and> exception11 ec t = Inr (Halts, fold term_putchar
     (str ''11: Segment not present, ec='' @ numeral_text 10 (unat (int_arg ec)) @ [0x0A] @ selector_text ec) t)
   \<and> exception12 ec t = Inr (Halts, fold term_putchar
     (str ''12: Stack-Segment fault, ec='' @ numeral_text 10 (unat (int_arg ec)) @ [0x0A] @ selector_text ec) t)
   \<and> exception13 ec t = Inr (Halts, fold term_putchar
     (str ''13: General protection fault, ec='' @ numeral_text 10 (unat (int_arg ec)) @ [0x0A] @ selector_text ec) t)"
  by (simp add: exception10_def exception11_def exception12_def exception13_def halts_text
      selector_report_text ktext_simps)

end
