(* ===== verification/Kaccess.thy ===== *)
theory Kaccess
  imports Kmem
begin

text \<open>
  Reads and writes of one to eight bytes by virtual address, as kernel code makes them through a
  pointer: every byte is resolved by \<open>kresolve\<close>, so an access to a page that is not mapped, or a
  write to one that is read-only, is the page fault the processor raises; the instructions of a program
  are resolved by \<open>uresolve\<close>, which also asks for the user's rights. \<open>foldf\<close> runs a fallible
  step for each element of a list. In the higher half, where the kernel and what the bootloader
  left it live, the accesses are the plain ones of \<open>Prelude\<close>.
\<close>

subsection \<open>Accesses\<close>

definition kload8 :: "kstate \<Rightarrow> u64 \<Rightarrow> fault + u8" where
  "kload8 s a = bindf (kresolve False s a) (\<lambda>p. Inr (mem s p))"

definition kstore8 :: "u64 \<Rightarrow> u8 \<Rightarrow> kstate \<Rightarrow> fault + kstate" where
  "kstore8 a b s = bindf (kresolve True s a) (\<lambda>p. Inr (s\<lparr>mem := (mem s)(p := b)\<rparr>))"

text \<open>\<open>n\<close> bytes, least significant first.\<close>

primrec kload :: "nat \<Rightarrow> kstate \<Rightarrow> u64 \<Rightarrow> fault + u64" where
  "kload 0 s a = Inr 0"
| "kload (Suc n) s a =
     bindf (kload8 s a) (\<lambda>b. bindf (kload n s (a + 1)) (\<lambda>w. Inr (ucast b OR push_bit 8 w)))"

primrec kstore :: "nat \<Rightarrow> u64 \<Rightarrow> u64 \<Rightarrow> kstate \<Rightarrow> fault + kstate" where
  "kstore 0 a v s = Inr s"
| "kstore (Suc n) a v s = bindf (kstore8 a (ucast v) s) (kstore n (a + 1) (drop_bit 8 v))"

abbreviation kload64 :: "kstate \<Rightarrow> u64 \<Rightarrow> fault + u64" where "kload64 \<equiv> kload 8"
abbreviation kload32 :: "kstate \<Rightarrow> u64 \<Rightarrow> fault + u64" where "kload32 \<equiv> kload 4"
abbreviation kload16 :: "kstate \<Rightarrow> u64 \<Rightarrow> fault + u64" where "kload16 \<equiv> kload 2"
abbreviation kstore64 :: "u64 \<Rightarrow> u64 \<Rightarrow> kstate \<Rightarrow> fault + kstate" where "kstore64 \<equiv> kstore 8"

subsection \<open>Accesses in user mode\<close>

text \<open>The page must be mapped, open to the user, and writable for a write, whatever \<open>CR0.WP\<close> is.\<close>

definition uresolve :: "bool \<Rightarrow> kstate \<Rightarrow> u64 \<Rightarrow> fault + u64" where
  "uresolve wr s a =
     (if a < 0x800000000000 \<or> 0xffff800000000000 \<le> a
      then (case walk s (cr3_root s) a of
              None \<Rightarrow> Inl (PageFault a)
            | Some (p, r) \<Rightarrow>
                if may_user r \<and> (wr \<longrightarrow> may_write r) then Inr (p + hhdm s) else Inl (PageFault a))
      else Inl (GeneralProtection a))"

definition uload8 :: "kstate \<Rightarrow> u64 \<Rightarrow> fault + u8" where
  "uload8 s a = bindf (uresolve False s a) (\<lambda>p. Inr (mem s p))"

definition ustore8 :: "u64 \<Rightarrow> u8 \<Rightarrow> kstate \<Rightarrow> fault + kstate" where
  "ustore8 a c s = bindf (uresolve True s a) (\<lambda>p. Inr (s\<lparr>mem := (mem s)(p := c)\<rparr>))"

primrec uload :: "nat \<Rightarrow> kstate \<Rightarrow> u64 \<Rightarrow> fault + u64" where
  "uload 0 s a = Inr 0"
| "uload (Suc n) s a =
     bindf (uload8 s a) (\<lambda>b. bindf (uload n s (a + 1)) (\<lambda>w. Inr (ucast b OR push_bit 8 w)))"

primrec ustore :: "nat \<Rightarrow> u64 \<Rightarrow> u64 \<Rightarrow> kstate \<Rightarrow> fault + kstate" where
  "ustore 0 a v s = Inr s"
| "ustore (Suc n) a v s = bindf (ustore8 a (ucast v) s) (ustore n (a + 1) (drop_bit 8 v))"

subsection \<open>Loops\<close>

primrec foldf :: "('a \<Rightarrow> 's \<Rightarrow> 'e + 's) \<Rightarrow> 'a list \<Rightarrow> 's \<Rightarrow> 'e + 's" where
  "foldf f [] s = Inr s"
| "foldf f (x # xs) s = bindf (f x s) (foldf f xs)"

lemma foldf_append: "foldf f (xs @ ys) s = bindf (foldf f xs s) (foldf f ys)"
  by (induction xs arbitrary: s) (simp_all add: bindf_def split: sum.split)

lemma foldf_pure: "(\<And>x s. x \<in> set xs \<Longrightarrow> f x s = Inr (g x s)) \<Longrightarrow> foldf f xs s = Inr (fold g xs s)"
  by (induction xs arbitrary: s) simp_all

lemma foldf_cong [fundef_cong]:
  "xs = ys \<Longrightarrow> s = t \<Longrightarrow> (\<And>x s. x \<in> set ys \<Longrightarrow> f x s = g x s) \<Longrightarrow> foldf f xs s = foldf g ys t"
  by (induction xs arbitrary: ys s t) (auto intro!: bindf_cong)

subsection \<open>Where the resolution is known\<close>

lemma kload_pos: "0 < n \<Longrightarrow> kload n s a =
    bindf (kload8 s a) (\<lambda>b. bindf (kload (n - 1) s (a + 1)) (\<lambda>w. Inr (ucast b OR push_bit 8 w)))"
  by (cases n) simp_all

lemma kstore_pos: "0 < n \<Longrightarrow> kstore n a v s = bindf (kstore8 a (ucast v) s) (kstore (n - 1) (a + 1) (drop_bit 8 v))"
  by (cases n) simp_all

lemma load64_nested:
  "load64 m a = ucast (m a) OR push_bit 8 (ucast (m (a + 1)) OR push_bit 8 (ucast (m (a + 2)) OR push_bit 8
     (ucast (m (a + 3)) OR push_bit 8 (ucast (m (a + 4)) OR push_bit 8 (ucast (m (a + 5)) OR push_bit 8
     (ucast (m (a + 6)) OR push_bit 8 (ucast (m (a + 7)))))))))"
  by (simp add: load64_def push_bit_or or.assoc)

lemma kload8_Inr: "kresolve False s a = Inr b \<Longrightarrow> kload8 s a = Inr (mem s b)"
  by (simp add: kload8_def)

lemma kload64_at:
  assumes "\<And>i. i < 8 \<Longrightarrow> kresolve False s (a + i) = Inr (b + i)"
  shows "kload64 s a = Inr (load64 (mem s) b)"
  using assms [of 0] assms [of 1] assms [of 2] assms [of 3] assms [of 4] assms [of 5]
    assms [of 6] assms [of 7]
  by (simp add: load64_nested kload_pos kload8_Inr add.assoc)

text \<open>In the higher half.\<close>

definition high :: "u64 \<Rightarrow> bool" where
  "high a \<longleftrightarrow> 0xffff800000000000 \<le> a"

lemma kresolve_high [simp]: "high a \<Longrightarrow> kresolve wr s a = Inr a"
  by (simp add: kresolve_def high_def)

lemma kload64_high: "(\<And>i. i < 8 \<Longrightarrow> high (a + i)) \<Longrightarrow> kload64 s a = Inr (load64 (mem s) a)"
  by (rule kload64_at) simp

lemma kload32_high:
  assumes "\<And>i. i < 4 \<Longrightarrow> high (a + i)"
  shows "kload32 s a = Inr (take_bit 32 (load64 (mem s) a))"
proof -
  have "kload32 s a = Inr (ucast (mem s a) OR push_bit 8 (ucast (mem s (a + 1))) OR push_bit 16 (ucast (mem s (a + 2)))
      OR push_bit 24 (ucast (mem s (a + 3))))"
    using assms [of 0] assms [of 1] assms [of 2] assms [of 3]
    by (simp add: kload_pos kload8_Inr add.assoc push_bit_or or.assoc)
  also have "\<dots> = Inr (take_bit 32 (load64 (mem s) a))"
    by (rule arg_cong [where f = Inr], rule bit_word_eqI)
      (auto simp: bit_load64 bits less_diff_conv2 not_less dest: bit_u8_less)
  finally show ?thesis .
qed

text \<open>A store where the pages of the eight bytes stay put while it is under way.\<close>

lemma kstore64_at:
  assumes "\<And>i m. i < 8 \<Longrightarrow> (\<And>x. (\<And>j. j < 8 \<Longrightarrow> x \<noteq> b + j) \<Longrightarrow> m x = mem s x) \<Longrightarrow>
      kresolve True (s\<lparr>mem := m\<rparr>) (a + i) = Inr (b + i)"
  shows "kstore64 a v s = Inr (s\<lparr>mem := store64 (mem s) b v\<rparr>)"
proof -
  define okm where "okm m \<longleftrightarrow> (\<forall>x. (\<forall>j < 8. x \<noteq> b + j) \<longrightarrow> m x = mem s x)" for m
  have upd: "okm (m(b + i := w))" if "okm m" "i < 8" for i w m
    using that by (auto simp: okm_def)
  have step: "kstore8 (a + i) w (s\<lparr>mem := m\<rparr>) = Inr (s\<lparr>mem := m(b + i := w)\<rparr>)"
    if "okm m" "i < 8" for i m w
    using assms [of i m] that by (simp add: kstore8_def okm_def)
  have "kstore64 a v (s\<lparr>mem := m\<rparr>) = Inr (s\<lparr>mem := store64 m b v\<rparr>)" if "okm m" for m
    using that upd [of _ 0] step [of _ 0]
    by (simp add: kstore_pos step upd add.assoc store64_def drop_bit_drop_bit)
  from this [of "mem s"] show ?thesis by (simp add: okm_def)
qed

lemma kstore64_high: "(\<And>i. i < 8 \<Longrightarrow> high (a + i)) \<Longrightarrow> kstore64 a v s = Inr (s\<lparr>mem := store64 (mem s) a v\<rparr>)"
  by (rule kstore64_at) simp

end
