(* ===== verification/Boot.thy ===== *)
theory Boot
  imports Kaccess Pmem Kprint
begin

text \<open>
  What the kernel reads of the bootloader's information (\<open>find_tag\<close>, \<open>print_mods\<close>, \<open>term_setup\<close>,
  \<open>memmap_print\<close> of \<open>kernel/boot.c\<close>) and the construction of the free list from the memory map
  (\<open>init_list\<close> of \<open>kernel/paging.c\<close>). The structures are those of \<open>stivale2.h\<close>, read from memory at
  their offsets: the list of tags of a \<open>stivale2_struct\<close> starts at offset 128, a tag has its
  identifier at 0 and the next tag at 8, an entry of the memory map is 24 bytes from offset 24 of its
  tag on, a module 144 bytes. The list of tags may be cyclic, and the search then does not end: the
  result is \<open>None\<close>. \<open>init_list\<close> proves to be one \<open>pmem_free\<close> for each usable page.
\<close>

abbreviation (input) STIVALE2_STRUCT_TAG_MEMMAP_ID :: u64 where "STIVALE2_STRUCT_TAG_MEMMAP_ID \<equiv> 0x2187f79e8612de07"
abbreviation (input) STIVALE2_STRUCT_TAG_HHDM_ID :: u64 where "STIVALE2_STRUCT_TAG_HHDM_ID \<equiv> 0xb0ed257db18cb58f"
abbreviation (input) STIVALE2_STRUCT_TAG_TERMINAL_ID :: u64 where "STIVALE2_STRUCT_TAG_TERMINAL_ID \<equiv> 0xc2b3f4c3233b0974"
abbreviation (input) MODULES_ID :: u64 where "MODULES_ID \<equiv> 0x4b6fe466aade04ce"
abbreviation (input) C_INT_MAX :: nat where "C_INT_MAX \<equiv> 2147483647"

subsection \<open>Tags\<close>

partial_function (option) find_tag_loop :: "kstate \<Rightarrow> u64 \<Rightarrow> u64 \<Rightarrow> (fault + u64) option" where
  "find_tag_loop s key current =
     (if current = 0 then Some (Inr 0)
      else (case kload64 s current of
              Inl f \<Rightarrow> Some (Inl f)
            | Inr identifier \<Rightarrow>
                if identifier = key then Some (Inr current)
                else (case kload64 s (current + 8) of
                        Inl f \<Rightarrow> Some (Inl f)
                      | Inr nxt \<Rightarrow> find_tag_loop s key nxt)))"

text \<open>A fallible computation that may not end, followed by another.\<close>

definition bindo :: "(fault + 'a) option \<Rightarrow> ('a \<Rightarrow> (fault + 'b) option) \<Rightarrow> (fault + 'b) option" where
  "bindo r f = (case r of None \<Rightarrow> None | Some (Inl e) \<Rightarrow> Some (Inl e) | Some (Inr x) \<Rightarrow> f x)"

lemma bindo_simps [simp]: "bindo None f = None" "bindo (Some (Inl e)) f = Some (Inl e)" "bindo (Some (Inr x)) f = f x"
  by (simp_all add: bindo_def)

definition find_tag :: "kstate \<Rightarrow> u64 \<Rightarrow> u64 \<Rightarrow> (fault + u64) option" where
  "find_tag s hdr key = bindo (Some (kload64 s (hdr + 128))) (find_tag_loop s key)"

subsection \<open>Reports\<close>

text \<open>
  The calls of \<open>kprintf\<close> that \<open>print_mods\<close> and \<open>memmap_print\<close> make. The name of a module is a field
  of 128 bytes. \<open>steps_below\<close> is the loop \<open>for (int i = 0; i < count; i++)\<close>, whose bound is read again
  each time.
\<close>

function steps_below :: "(kstate \<Rightarrow> fault + u64) \<Rightarrow> (nat \<Rightarrow> kstate \<Rightarrow> 'a \<Rightarrow> fault + (kstate \<times> 'a)) \<Rightarrow> nat \<Rightarrow> kstate \<Rightarrow> 'a \<Rightarrow> fault + (kstate \<times> 'a)" where
  "steps_below count body i s x =
     bindf (count s) (\<lambda>n.
       if of_nat i < n
       then (if i < C_INT_MAX
             then bindf (body i s x) (\<lambda>(s', x'). steps_below count body (i + 1) s' x')
             else Inl Undefined)
       else Inr (s, x))"
  by pat_completeness auto
termination
  by (relation "measure (\<lambda>(count, body, i, s, x). C_INT_MAX - i)") auto

declare steps_below.simps [simp del]

definition module_addr :: "u64 \<Rightarrow> nat \<Rightarrow> u64" where
  "module_addr tag i = tag + 24 + 144 * of_nat i"

definition module_string :: "kstate \<Rightarrow> u64 \<Rightarrow> nat \<Rightarrow> u8 list" where
  "module_string s tag i = map (\<lambda>j. mem s (module_addr tag i + 16 + of_nat j)) [0..<128]"

definition print_mods :: "kstate \<Rightarrow> u64 \<Rightarrow> (fault + (u8 list \<times> vararg list) list) option" where
  "print_mods s hdr =
     bindo (find_tag s hdr MODULES_ID) (\<lambda>tag.
       Some (bindf (steps_below (\<lambda>s. kload64 s (tag + 16))
               (\<lambda>i s calls. bindf (kload64 s (module_addr tag i)) (\<lambda>b.
                  bindf (kload64 s (module_addr tag i + 8)) (\<lambda>e.
                  Inr (s, calls @ [(line ''  %s 0x%x-0x%x'', [StrArg (module_string s tag i), WordArg b, WordArg e])]))))
               0 s [(line ''Modules:'', [])])
             (\<lambda>(s, calls). Inr calls)))"

text \<open>The function pointer that \<open>term_setup\<close> stores; nothing calls it.\<close>

definition term_setup :: "kstate \<Rightarrow> u64 \<Rightarrow> (fault + u64) option" where
  "term_setup s hdr =
     bindo (find_tag s hdr STIVALE2_STRUCT_TAG_TERMINAL_ID) (\<lambda>tag.
       Some (if tag = 0 then Inl Halted else kload64 s (tag + 24)))"

definition entry_addr :: "u64 \<Rightarrow> nat \<Rightarrow> u64" where
  "entry_addr tag i = tag + 24 + 24 * of_nat i"

definition memmap_line :: "u64 \<Rightarrow> u64 \<Rightarrow> nat \<Rightarrow> kstate \<Rightarrow> (u8 list \<times> vararg list) list \<Rightarrow> fault + (kstate \<times> (u8 list \<times> vararg list) list)" where
  "memmap_line tag hhdm_tag i s calls =
     bindf (kload32 s (entry_addr tag i + 16)) (\<lambda>ty.
       if ty = 1 then
         bindf (kload64 s (entry_addr tag i)) (\<lambda>b.
         bindf (kload64 s (entry_addr tag i + 8)) (\<lambda>len.
         bindf (kload64 s (hhdm_tag + 16)) (\<lambda>h.
         Inr (s, calls @ [(line ''  %p-%p mapped at %p-%p'',
           [WordArg b, WordArg (b + len), WordArg (h + b), WordArg (h + b + len)])]))))
       else Inr (s, calls))"

text \<open>The result is \<open>hhdm_addr\<close> and the calls; the offset is read before the tags are checked.\<close>

definition memmap_print :: "kstate \<Rightarrow> u64 \<Rightarrow> (fault + (u64 \<times> (u8 list \<times> vararg list) list)) option" where
  "memmap_print s hdr =
     bindo (find_tag s hdr STIVALE2_STRUCT_TAG_MEMMAP_ID) (\<lambda>tag.
     bindo (find_tag s hdr STIVALE2_STRUCT_TAG_HHDM_ID) (\<lambda>hhdm_tag.
       Some (bindf (kload64 s (hhdm_tag + 16)) (\<lambda>hhdm_addr.
         if tag = 0 then Inl Halted
         else if hhdm_tag = 0 then Inl Halted
         else bindf (steps_below (\<lambda>s. kload64 s (tag + 16)) (memmap_line tag hhdm_tag) 0 s
                      [(line ''Usable Memory:'', [])])
                (\<lambda>(s, calls). Inr (hhdm_addr, calls))))))"

subsection \<open>The free list\<close>

text \<open>
  One page: \<open>4096 * j\<close> is an \<open>int\<close>; the node is written at its physical address, the list continues
  at its address in the direct map.
\<close>

definition init_page :: "u64 \<Rightarrow> nat \<Rightarrow> kstate \<Rightarrow> fault + kstate" where
  "init_page entry j s =
     (if C_INT_MAX < 4096 * j then Inl Undefined
      else bindf (kload64 s entry) (\<lambda>base.
        let curr = base + of_nat (4096 * j)
        in bindf (kstore64 curr (free_list s) s) (\<lambda>s1.
             Inr (s1\<lparr>free_list := curr + hhdm s1\<rparr>))))"

text \<open>\<open>int n_pages = length / 4096\<close>.\<close>

definition n_pages :: "u64 \<Rightarrow> nat" where
  "n_pages len = nat (sint (ucast (len div 4096) :: u32))"

definition init_region :: "u64 \<Rightarrow> nat \<Rightarrow> kstate \<Rightarrow> unit \<Rightarrow> fault + (kstate \<times> unit)" where
  "init_region tag i s u =
     bindf (kload32 s (entry_addr tag i + 16)) (\<lambda>ty.
       if ty = 1
       then bindf (kload64 s (entry_addr tag i + 8)) (\<lambda>len.
              bindf (foldf (init_page (entry_addr tag i)) [0..<n_pages len] s) (\<lambda>s1. Inr (s1, u)))
       else Inr (s, u))"

definition init_list :: "u64 \<Rightarrow> kstate \<Rightarrow> (fault + kstate) option" where
  "init_list hdr s =
     bindo (find_tag s hdr STIVALE2_STRUCT_TAG_MEMMAP_ID) (\<lambda>tag.
     bindo (find_tag s hdr STIVALE2_STRUCT_TAG_HHDM_ID) (\<lambda>hhdm_tag.
       Some (if tag = 0 then Inl Halted
             else if hhdm_tag = 0 then Inl Halted
             else bindf (kload64 s (hhdm_tag + 16)) (\<lambda>h.
               bindf (steps_below (\<lambda>s. kload64 s (tag + 16)) (init_region tag) 0 (s\<lparr>hhdm := h\<rparr>) ())
                 (\<lambda>(s', u). Inr s')))))"

subsection \<open>Memory the free list does not disturb\<close>

text \<open>The bytes of the nodes of the pages \<open>F\<close>; words elsewhere in the higher half keep their value.\<close>

definition node_byte :: "kstate \<Rightarrow> u64 set \<Rightarrow> u64 \<Rightarrow> bool" where
  "node_byte s F a \<longleftrightarrow> (\<exists>p \<in> F. \<exists>i < 8. a = p + hhdm s + i)"

definition fixed :: "nat \<Rightarrow> kstate \<Rightarrow> u64 set \<Rightarrow> u64 \<Rightarrow> u64 \<Rightarrow> bool" where
  "fixed n s F a v \<longleftrightarrow> (\<forall>i < n. high (a + of_nat i) \<and> \<not> node_byte s F (a + of_nat i)) \<and> kload n s a = Inr v"

text \<open>States that differ only in the nodes and the head of the list.\<close>

definition same_outside :: "u64 set \<Rightarrow> kstate \<Rightarrow> kstate \<Rightarrow> bool" where
  "same_outside F s s' \<longleftrightarrow> hhdm s' = hhdm s \<and> cr3 s' = cr3 s \<and> cr0_wp s' = cr0_wp s
     \<and> (\<forall>a. \<not> node_byte s F a \<longrightarrow> mem s' a = mem s a)"

text \<open>
  The mapping the bootloader sets up: the physical address of a page is also its virtual address,
  and the pages \<open>F\<close> hold no page table that matters for it.
\<close>

definition identity_mapped :: "kstate \<Rightarrow> u64 set \<Rightarrow> bool" where
  "identity_mapped s F \<longleftrightarrow> (\<forall>s'. same_outside F s s' \<longrightarrow>
     (\<forall>p \<in> F. \<forall>i < 8. kresolve True s' (p + i) = Inr (p + hhdm s + i)))"

lemma same_outside_refl [simp]: "same_outside F s s"
  by (simp add: same_outside_def)

lemma same_outside_trans: "same_outside F s s' \<Longrightarrow> same_outside F s' s'' \<Longrightarrow> same_outside F s s''"
  by (simp add: same_outside_def node_byte_def)

lemma kload_high_cong:
  assumes "\<And>i. i < n \<Longrightarrow> high (a + of_nat i) \<and> mem s' (a + of_nat i) = mem s (a + of_nat i)"
  shows "kload n s' a = kload n s a"
  using assms
proof (induction n arbitrary: a)
  case (Suc n)
  have "kload n s' (a + 1) = kload n s (a + 1)"
    using Suc.prems [of "Suc i" for i] by (intro Suc.IH) (simp add: algebra_simps)
  with Suc.prems [of 0] show ?case by (simp add: kload8_def)
qed simp

lemma fixed_same: "fixed n s F a v \<Longrightarrow> same_outside F s s' \<Longrightarrow> fixed n s' F a v"
  using kload_high_cong [of n a s' s] by (auto simp: fixed_def same_outside_def node_byte_def)

lemma fixed_load: "fixed n s F a v \<Longrightarrow> kload n s a = Inr v"
  by (simp add: fixed_def)

lemma identity_same:
  assumes "identity_mapped s F" "same_outside F s s'"
  shows "identity_mapped s' F"
proof -
  have h: "hhdm s' = hhdm s" using assms(2) by (simp add: same_outside_def)
  have "kresolve True s'' (p + i) = Inr (p + hhdm s + i)" if "same_outside F s' s''" "p \<in> F" "i < 8" for s'' p i
    using assms(1) same_outside_trans [OF assms(2) that(1)] that(2,3) by (simp add: identity_mapped_def)
  then show ?thesis by (simp add: identity_mapped_def h)
qed

lemma pmem_free_same: "p \<in> F \<Longrightarrow> same_outside F s (pmem_free p s)"
  unfolding same_outside_def pmem_free_def Let_def node_byte_def
  by simp (blast intro: store64_other)

lemma fold_pmem_free_same: "set ps \<subseteq> F \<Longrightarrow> same_outside F s (fold pmem_free ps s)"
proof (induction ps arbitrary: s)
  case (Cons p ps)
  then show ?case
    using same_outside_trans [OF pmem_free_same [of p F s] Cons.IH [of "pmem_free p s"]] by simp
qed simp

lemma kstore64_identity:
  assumes "identity_mapped s F" "p \<in> F"
  shows "kstore64 p v s = Inr (s\<lparr>mem := store64 (mem s) (p + hhdm s) v\<rparr>)"
proof (rule kstore64_at)
  fix i :: u64 and m
  assume "i < 8" and m: "\<And>x. (\<And>j. j < 8 \<Longrightarrow> x \<noteq> p + hhdm s + j) \<Longrightarrow> m x = mem s x"
  have "same_outside F s (s\<lparr>mem := m\<rparr>)"
    using m assms(2) by (fastforce simp: same_outside_def node_byte_def)
  with assms \<open>i < 8\<close> show "kresolve True (s\<lparr>mem := m\<rparr>) (p + i) = Inr (p + hhdm s + i)"
    by (simp add: identity_mapped_def)
qed

subsection \<open>The loops are pmem_free\<close>

lemma init_page_free:
  assumes "identity_mapped s F" "fixed 8 s F e b" "b + of_nat (4096 * j) \<in> F" "4096 * j \<le> C_INT_MAX"
  shows "init_page e j s = Inr (pmem_free (b + of_nat (4096 * j)) s)"
  using assms fixed_load [OF assms(2)] kstore64_identity [OF assms(1,3)]
  by (simp add: init_page_def Let_def pmem_free_def)

lemma init_pages_free:
  assumes "identity_mapped s F" "fixed 8 s F e b"
    "\<forall>j \<in> set js. b + of_nat (4096 * j) \<in> F \<and> 4096 * j \<le> C_INT_MAX"
  shows "foldf (init_page e) js s = Inr (fold pmem_free (map (\<lambda>j. b + of_nat (4096 * j)) js) s)"
  using assms
proof (induction js arbitrary: s)
  case (Cons j js)
  let ?s = "pmem_free (b + of_nat (4096 * j)) s"
  have "same_outside F s ?s" using Cons.prems by (intro pmem_free_same) simp
  then have "foldf (init_page e) js ?s = Inr (fold pmem_free (map (\<lambda>j. b + of_nat (4096 * j)) js) ?s)"
    using Cons.prems identity_same fixed_same by (intro Cons.IH) auto
  moreover have "init_page e j s = Inr ?s"
    using Cons.prems by (intro init_page_free) auto
  ultimately show ?case by simp
qed simp

text \<open>
  An entry of the memory map as (base, length, type). A page is usable when it lies, whole and at a multiple
  of 4096 bytes from the base, in an entry of type 1; \<open>region_pages\<close> lists those of an entry in order.
\<close>

definition usable_page :: "(u64 \<times> u64 \<times> u64) list \<Rightarrow> u64 \<Rightarrow> bool" where
  "usable_page rs p \<longleftrightarrow> (\<exists>(b, len, ty) \<in> set rs. ty = 1 \<and> page_aligned (p - b) \<and> unat (p - b) + 4096 \<le> unat len)"

definition region_pages :: "u64 \<times> u64 \<times> u64 \<Rightarrow> u64 list" where
  "region_pages = (\<lambda>(b, len, ty). if ty = 1 then map (\<lambda>j. b + of_nat (4096 * j)) [0..<unat len div 4096] else [])"

lemma region_pages_usable: "p \<in> set (concat (map region_pages rs)) \<longleftrightarrow> usable_page rs p"
proof -
  have "(\<exists>j < unat len div 4096. p = b + of_nat (4096 * j)) \<longleftrightarrow> page_aligned (p - b) \<and> unat (p - b) + 4096 \<le> unat len" for b len :: u64
  proof
    assume "\<exists>j < unat len div 4096. p = b + of_nat (4096 * j)"
    then obtain j where j: "j < unat len div 4096" "p - b = of_nat (4096 * j)" by auto
    have "4096 * (j + 1) \<le> unat len" using j(1) by (simp add: less_eq_div_iff_mult_less_eq [symmetric] mult.commute)
    moreover have "unat len < 2 ^ 64" using unsigned_less [of len] by simp
    ultimately have "unat (p - b) = 4096 * j" unfolding j(2) unat_of_nat by (simp add: take_bit_nat_eq_self)
    then show "page_aligned (p - b) \<and> unat (p - b) + 4096 \<le> unat len"
      using \<open>4096 * (j + 1) \<le> unat len\<close> by (simp add: page_aligned_def take_bit_eq_mod word_unat_eq_iff unat_mod)
  next
    assume a: "page_aligned (p - b) \<and> unat (p - b) + 4096 \<le> unat len"
    then have m: "unat (p - b) mod 4096 = 0" by (simp add: page_aligned_def take_bit_eq_mod word_unat_eq_iff unat_mod)
    have "4096 * (unat (p - b) div 4096) = unat (p - b)" using m by auto
    then have "p = b + of_nat (4096 * (unat (p - b) div 4096))" by simp
    moreover have "unat (p - b) div 4096 < unat len div 4096" using a m by auto
    ultimately show "\<exists>j < unat len div 4096. p = b + of_nat (4096 * j)" by blast
  qed
  then show ?thesis by (fastforce simp: usable_page_def region_pages_def)
qed

lemma n_pages_exact: "unat len \<le> 2 ^ 31 \<Longrightarrow> n_pages len = unat len div 4096 \<and> n_pages len \<le> 524288"
proof -
  assume l: "unat len \<le> 2 ^ 31"
  have u: "unat (ucast (len div 4096) :: u32) = unat len div 4096"
    using l by (simp add: unsigned_ucast_eq unat_div take_bit_nat_eq_self)
  have "(ucast (len div 4096) :: u32) = of_nat (unat len div 4096)"
    unfolding u [symmetric] by simp
  moreover have "signed_take_bit 31 (int (unat len div 4096)) = int (unat len div 4096)"
    using l by (intro signed_take_bit_int_eq_self) auto
  ultimately have "sint (ucast (len div 4096) :: u32) = int (unat len div 4096)"
    by (simp add: signed_of_nat)
  then show ?thesis using l by (simp add: n_pages_def)
qed

definition region_at :: "kstate \<Rightarrow> u64 set \<Rightarrow> u64 \<Rightarrow> u64 \<times> u64 \<times> u64 \<Rightarrow> bool" where
  "region_at s F e = (\<lambda>(b, len, ty). fixed 8 s F e b \<and> fixed 8 s F (e + 8) len \<and> fixed 4 s F (e + 16) ty)"

lemma region_at_same: "region_at s F e r \<Longrightarrow> same_outside F s s' \<Longrightarrow> region_at s' F e r"
  by (auto simp: region_at_def fixed_same)

lemma init_region_free:
  assumes "identity_mapped s F" "region_at s F (entry_addr tag i) r" "set (region_pages r) \<subseteq> F"
    and "snd (snd r) = 1 \<longrightarrow> unat (fst (snd r)) \<le> 2 ^ 31"
  shows "init_region tag i s u = Inr (fold pmem_free (region_pages r) s, u)"
proof -
  obtain b len ty where r: "r = (b, len, ty)" by (cases r)
  have f: "fixed 8 s F (entry_addr tag i) b" "fixed 8 s F (entry_addr tag i + 8) len"
    "fixed 4 s F (entry_addr tag i + 16) ty"
    using assms(2) by (simp_all add: region_at_def r)
  have "foldf (init_page (entry_addr tag i)) [0..<n_pages len] s
      = Inr (fold pmem_free (map (\<lambda>j. b + of_nat (4096 * j)) [0..<n_pages len]) s)" if "ty = 1"
    using assms(3,4) that n_pages_exact [of len] by (intro init_pages_free [OF assms(1) f(1)]) (auto simp: r region_pages_def)
  then show ?thesis
    using assms(4) n_pages_exact [of len] by (simp add: init_region_def f [THEN fixed_load] r region_pages_def)
qed

lemma of_nat_less_u64: "i < 2 ^ 63 \<Longrightarrow> n < 2 ^ 63 \<Longrightarrow> (of_nat i :: u64) < of_nat n \<longleftrightarrow> i < n"
  by (simp add: word_less_nat_alt unat_of_nat)

lemma steps_below_run:
  assumes "\<And>s. P s \<Longrightarrow> count s = Inr (of_nat n)" "n \<le> C_INT_MAX"
    and "\<And>j s u. j < n \<Longrightarrow> P s \<Longrightarrow> body j s u = Inr (g j s, u) \<and> P (g j s)"
  shows "P s \<Longrightarrow> i \<le> n \<Longrightarrow> steps_below count body i s u = Inr (fold g [i..<n] s, u)"
proof (induction "n - i" arbitrary: i s)
  case 0
  then show ?case
    using assms(1) by (simp add: steps_below.simps [of count body i])
next
  case (Suc k)
  then have "i < n" by simp
  then have "steps_below count body (i + 1) (g i s) u = Inr (fold g [i + 1..<n] (g i s), u)"
    using Suc assms(3) [of i s u] by (intro Suc.hyps(1)) simp_all
  then show ?case
    using \<open>i < n\<close> assms Suc.prems of_nat_less_u64 [of i n]
    by (simp add: steps_below.simps [of count body i] upt_conv_Cons)
qed

subsection \<open>Searching the tags\<close>

text \<open>The list of tags in memory, as pairs of address and identifier.\<close>

primrec tag_chain :: "kstate \<Rightarrow> u64 \<Rightarrow> (u64 \<times> u64) list \<Rightarrow> bool" where
  "tag_chain s a [] \<longleftrightarrow> a = 0"
| "tag_chain s a (t # ts) \<longleftrightarrow> a = fst t \<and> fst t \<noteq> 0 \<and> kload64 s a = Inr (snd t)
     \<and> (\<exists>n. kload64 s (a + 8) = Inr n \<and> tag_chain s n ts)"

definition first_tag :: "u64 \<Rightarrow> (u64 \<times> u64) list \<Rightarrow> u64" where
  "first_tag key ts = (case find (\<lambda>t. snd t = key) ts of None \<Rightarrow> 0 | Some t \<Rightarrow> fst t)"

lemma find_tag_loop_chain: "tag_chain s a ts \<Longrightarrow> find_tag_loop s key a = Some (Inr (first_tag key ts))"
proof (induction ts arbitrary: a)
  case (Cons t ts)
  then show ?case
    by (subst find_tag_loop.simps) (auto simp: first_tag_def)
qed (simp add: find_tag_loop.simps first_tag_def)

lemma find_tag_chain:
  "kload64 s (hdr + 128) = Inr a \<Longrightarrow> tag_chain s a ts \<Longrightarrow> find_tag s hdr key = Some (Inr (first_tag key ts))"
  by (simp add: find_tag_def find_tag_loop_chain)

text \<open>Tags whose links never leave them, none of them the one searched for.\<close>

definition trap :: "kstate \<Rightarrow> u64 \<Rightarrow> u64 set \<Rightarrow> bool" where
  "trap s key T \<longleftrightarrow> (\<forall>t \<in> T. t \<noteq> 0 \<and> (\<exists>identifier nxt. kload64 s t = Inr identifier \<and> identifier \<noteq> key
     \<and> kload64 s (t + 8) = Inr nxt \<and> nxt \<in> T))"

lemma find_tag_loop_trap:
  assumes "trap s key T" "a \<in> T"
  shows "find_tag_loop s key a = None"
proof -
  have "s = s \<longrightarrow> key = key \<longrightarrow> a \<notin> T" if "find_tag_loop s key a = Some r" for r
    by (rule find_tag_loop.raw_induct [where P = "\<lambda>s' k b r. s' = s \<longrightarrow> k = key \<longrightarrow> b \<notin> T", OF _ that])
      (use assms(1) in \<open>fastforce simp: trap_def split: if_splits\<close>)
  then show ?thesis using assms(2) by (cases "find_tag_loop s key a") auto
qed

subsection \<open>The pool that \<open>init_list\<close> builds\<close>

lemma fold_concat: "fold f (concat xss) s = fold (fold f) xss s"
  by (induction xss arbitrary: s) simp_all

lemma hhdm_update_load: "kload64 s a = Inr v \<Longrightarrow> (\<And>i. i < 8 \<Longrightarrow> high (a + i)) \<Longrightarrow> kload64 (s\<lparr>hhdm := h\<rparr>) a = Inr v"
  by (simp add: kload64_high)

text \<open>
  What the bootloader leaves in memory: the list of tags with the two that \<open>init_list\<close> needs, the
  entries \<open>rs\<close> of the memory map, none of it inside the nodes of the usable pages; usable regions
  below 2 GiB with distinct pages that the direct map covers and that are identity mapped.
\<close>

definition boot_info :: "kstate \<Rightarrow> u64 \<Rightarrow> u64 \<Rightarrow> (u64 \<times> u64 \<times> u64) list \<Rightarrow> bool" where
  "boot_info s hdr h rs \<longleftrightarrow>
     (let s0 = s\<lparr>hhdm := h\<rparr>; ps = concat (map region_pages rs) in
      hhdm_ok s0 \<and> distinct ps \<and> (\<forall>p \<in> set ps. frame s0 p) \<and> identity_mapped s0 (set ps)
      \<and> (\<exists>a ts tag ht. kload64 s (hdr + 128) = Inr a \<and> tag_chain s a ts
           \<and> tag = first_tag STIVALE2_STRUCT_TAG_MEMMAP_ID ts \<and> tag \<noteq> 0
           \<and> ht = first_tag STIVALE2_STRUCT_TAG_HHDM_ID ts \<and> ht \<noteq> 0
           \<and> kload64 s (ht + 16) = Inr h
           \<and> length rs \<le> C_INT_MAX \<and> fixed 8 s0 (set ps) (tag + 16) (of_nat (length rs))
           \<and> (\<forall>i < length rs. region_at s0 (set ps) (entry_addr tag i) (rs ! i)
                \<and> (snd (snd (rs ! i)) = 1 \<longrightarrow> unat (fst (snd (rs ! i))) \<le> 2 ^ 31))))"

lemma init_list_pool:
  assumes "boot_info s hdr h rs" "free_list s = 0"
  shows "\<exists>s'. init_list hdr s = Some (Inr s') \<and> hhdm s' = h \<and> cr3 s' = cr3 s
    \<and> pool s' (rev (concat (map region_pages rs)))"
proof -
  let ?s0 = "s\<lparr>hhdm := h\<rparr>"
  define ps where "ps = concat (map region_pages rs)"
  obtain a ts tag ht where bi: "kload64 s (hdr + 128) = Inr a" "tag_chain s a ts"
      "first_tag STIVALE2_STRUCT_TAG_MEMMAP_ID ts = tag" "tag \<noteq> 0"
      "first_tag STIVALE2_STRUCT_TAG_HHDM_ID ts = ht" "ht \<noteq> 0" "kload64 s (ht + 16) = Inr h"
      "length rs \<le> C_INT_MAX" "fixed 8 ?s0 (set ps) (tag + 16) (of_nat (length rs))"
      "\<And>i. i < length rs \<Longrightarrow> region_at ?s0 (set ps) (entry_addr tag i) (rs ! i) \<and> (snd (snd (rs ! i)) = 1 \<longrightarrow> unat (fst (snd (rs ! i))) \<le> 2 ^ 31)"
    and ok: "hhdm_ok ?s0" "distinct ps" "\<forall>p \<in> set ps. frame ?s0 p" "identity_mapped ?s0 (set ps)"
    using assms(1) unfolding boot_info_def Let_def ps_def by blast
  let ?g = "\<lambda>j. fold pmem_free (region_pages (rs ! j))"
  have "steps_below (\<lambda>s. kload64 s (tag + 16)) (init_region tag) 0 ?s0 () = Inr (fold ?g [0..<length rs] ?s0, ())"
  proof (rule steps_below_run [where P = "same_outside (set ps) ?s0"])
    fix j s' u assume j: "j < length rs" and s': "same_outside (set ps) ?s0 s'"
    have "set (region_pages (rs ! j)) \<subseteq> set ps" using nth_mem [OF j] by (auto simp: ps_def)
    then show "init_region tag j s' u = Inr (?g j s', u) \<and> same_outside (set ps) ?s0 (?g j s')"
      using init_region_free [OF identity_same [OF ok(4) s'] region_at_same [OF _ s'], of tag j "rs ! j" u] bi(10) [OF j]
      by (auto intro!: same_outside_trans [OF s' fold_pmem_free_same])
  next
    fix s' assume "same_outside (set ps) ?s0 s'"
    then show "kload64 s' (tag + 16) = Inr (of_nat (length rs))"
      using bi(9) fixed_load fixed_same by blast
  qed (use bi in simp_all)
  moreover have "fold ?g [0..<length rs] ?s0 = fold pmem_free ps ?s0"
  proof -
    have "fold ?g [0..<length rs] = fold (fold pmem_free) (map (\<lambda>j. region_pages (rs ! j)) [0..<length rs])"
      by (simp add: fold_map comp_def)
    also have "map (\<lambda>j. region_pages (rs ! j)) [0..<length rs] = map region_pages rs"
      by (rule nth_equalityI) simp_all
    finally show ?thesis by (simp add: ps_def fold_concat)
  qed
  ultimately have "init_list hdr s = Some (Inr (fold pmem_free ps ?s0))"
    using bi(4,6,7) by (simp add: init_list_def find_tag_chain [OF bi(1,2)] bi(3,5))
  moreover have "pool ?s0 []" using ok(1) assms(2) by (simp add: pool_def)
  then have "pool (fold pmem_free ps ?s0) (rev ps)"
    using pm.free_all [of ?s0 "[]" ps] ok(2,3) by simp
  moreover have "hhdm (fold pmem_free ps ?s0) = h" "cr3 (fold pmem_free ps ?s0) = cr3 s"
    using fold_pmem_free_same [of ps "set ps" ?s0] by (simp_all add: same_outside_def)
  ultimately show ?thesis unfolding ps_def by blast
qed

text \<open>
  C33: from a memory map whose usable regions are of at most 2 GiB each (a larger one overflows the \<open>int\<close>
  of the code) and do not overlap, \<open>init_list\<close> ends with the direct-map offset set and a free list of exactly
  the usable pages, those that lie whole in a region of type 1: each once, the last page of the map first.
\<close>

theorem init_list_builds_pool:
  assumes "boot_info s hdr h rs" "free_list s = 0"
  shows "\<exists>s'. init_list hdr s = Some (Inr s') \<and> hhdm s' = h
    \<and> pool s' (rev (concat (map region_pages rs)))
    \<and> (\<forall>p. p \<in> set (concat (map region_pages rs)) \<longleftrightarrow> usable_page rs p)"
  using init_list_pool [OF assms] region_pages_usable by blast

subsection \<open>A concrete boot\<close>

text \<open>
  A machine as the bootloader hands it over: 1 GiB identity mapped by one large page, a memory map
  of a usable region of two pages and a reserved one, and the tag with the direct-map offset.
\<close>

definition boot_words :: "(u64 \<times> u64 \<times> u64) list" where
  "boot_words =
     [(0xffff800000001000, 0, 0x2003), (0xffff800000002000, 0, 0x83),
      (0xffffffff80000000, 16, 0xffffffff80001000),
      (0xffffffff80001000, 0, STIVALE2_STRUCT_TAG_MEMMAP_ID), (0xffffffff80001000, 1, 0xffffffff80002000),
      (0xffffffff80001000, 2, 2),
      (0xffffffff80001000, 3, 0x100000), (0xffffffff80001000, 4, 0x2000), (0xffffffff80001000, 5, 1),
      (0xffffffff80001000, 6, 0xB8000), (0xffffffff80001000, 7, 0x1000), (0xffffffff80001000, 8, 2),
      (0xffffffff80002000, 0, STIVALE2_STRUCT_TAG_HHDM_ID), (0xffffffff80002000, 1, 0),
      (0xffffffff80002000, 2, 0xffff800000000000)]"

definition boot_mem :: mem where
  "boot_mem = fold (\<lambda>(t, i, v) m. store64 m (slot t i) v) boot_words (\<lambda>_. 0)"

definition boot_state :: kstate where
  "boot_state = \<lparr>mem = boot_mem, hhdm = 0, free_list = 0, cr3 = 0x1000, cr0_wp = False,
     v_heap = 0x10000, tlb_ops = []\<rparr>"

lemma boot_aligned [simp]:
  "page_aligned 0xffff800000001000" "page_aligned 0xffff800000002000" "page_aligned 0xffffffff80000000"
  "page_aligned 0xffffffff80001000" "page_aligned 0xffffffff80002000"
  by (simp_all add: page_aligned_def take_bit_eq_mod)

lemma boot_slots:
  assumes "page_aligned t" "i < 512"
  shows "load64 boot_mem (slot t i) =
    (case map_of (rev (map (\<lambda>(t, i, v). ((t, i), v)) boot_words)) (t, i) of None \<Rightarrow> 0 | Some v \<Rightarrow> v)"
  using assms by (simp add: boot_mem_def boot_words_def load64_store64_slot load64_zero)

lemma boot_load:
  "load64 boot_mem 0xffff800000001000 = 0x2003" "load64 boot_mem 0xffff800000002000 = 0x83"
  "load64 boot_mem 0xffffffff80000080 = 0xffffffff80001000"
  "load64 boot_mem 0xffffffff80001000 = STIVALE2_STRUCT_TAG_MEMMAP_ID"
  "load64 boot_mem 0xffffffff80001008 = 0xffffffff80002000" "load64 boot_mem 0xffffffff80001010 = 2"
  "load64 boot_mem 0xffffffff80001018 = 0x100000" "load64 boot_mem 0xffffffff80001020 = 0x2000"
  "load64 boot_mem 0xffffffff80001028 = 1" "load64 boot_mem 0xffffffff80001030 = 0xB8000"
  "load64 boot_mem 0xffffffff80001038 = 0x1000" "load64 boot_mem 0xffffffff80001040 = 2"
  "load64 boot_mem 0xffffffff80002000 = STIVALE2_STRUCT_TAG_HHDM_ID"
  "load64 boot_mem 0xffffffff80002008 = 0" "load64 boot_mem 0xffffffff80002010 = 0xffff800000000000"
  using boot_slots [of "0xffff800000001000" 0] boot_slots [of "0xffff800000002000" 0]
    boot_slots [of "0xffffffff80000000" 16] boot_slots [of "0xffffffff80001000" 0]
    boot_slots [of "0xffffffff80001000" 1] boot_slots [of "0xffffffff80001000" 2]
    boot_slots [of "0xffffffff80001000" 3] boot_slots [of "0xffffffff80001000" 4]
    boot_slots [of "0xffffffff80001000" 5] boot_slots [of "0xffffffff80001000" 6]
    boot_slots [of "0xffffffff80001000" 7] boot_slots [of "0xffffffff80001000" 8]
    boot_slots [of "0xffffffff80002000" 0] boot_slots [of "0xffffffff80002000" 1]
    boot_slots [of "0xffffffff80002000" 2]
  by (simp_all add: slot_def boot_words_def)

lemma boot_high: "0xffffffff80000000 \<le> a \<Longrightarrow> a \<le> 0xffffffff8fffffff \<Longrightarrow> i < 8 \<Longrightarrow> 0xffffffff80000000 \<le> a + (of_nat i :: u64)"
  by (simp add: word_le_nat_alt unat_word_ariths unat_of_nat)

abbreviation (input) boot_pages :: "u64 set" where "boot_pages \<equiv> {0x100000, 0x101000}"

lemma boot_no_node:
  assumes "0xffffffff80000000 \<le> a" "hhdm s = 0xffff800000000000"
  shows "\<not> node_byte s boot_pages a"
proof -
  have "0xffff800000100000 + i < 0xffffffff80000000" "0xffff800000101000 + i < 0xffffffff80000000" if "i < 8" for i :: u64
    using that by (auto simp: word_less_nat_alt unat_word_ariths)
  then show ?thesis using assms by (auto simp: node_byte_def dest: leD)
qed

lemma boot_fixed:
  assumes "0xffffffff80000000 \<le> a" "a \<le> 0xffffffff8fffffff" "n \<le> 8" "kload n boot_state a = Inr v"
  shows "fixed n (boot_state\<lparr>hhdm := 0xffff800000000000\<rparr>) boot_pages a v"
proof -
  have "high (a + of_nat i) \<and> \<not> node_byte (boot_state\<lparr>hhdm := 0xffff800000000000\<rparr>) boot_pages (a + of_nat i)" if "i < n" for i
  proof -
    have "0xffffffff80000000 \<le> a + of_nat i" using boot_high [OF assms(1,2)] that assms(3) by simp
    moreover have "high b" if "0xffffffff80000000 \<le> b" for b
      unfolding high_def by (rule order_trans [OF _ that]) simp
    ultimately show ?thesis using boot_no_node by simp
  qed
  moreover from this have "kload n (boot_state\<lparr>hhdm := 0xffff800000000000\<rparr>) a = kload n boot_state a"
    by (intro kload_high_cong) simp
  ultimately show ?thesis using assms(4) by (simp add: fixed_def)
qed

lemma boot_kload:
  assumes "0xffffffff80000000 \<le> a" "a \<le> 0xffffffff8fffffff"
  shows "kload64 boot_state a = Inr (load64 boot_mem a)"
    and "kload32 boot_state a = Inr (take_bit 32 (load64 boot_mem a))"
proof -
  have "high (a + i)" if "i < 8" for i
    using that boot_high [OF assms, of "unat i"] order_trans [of "0xffff800000000000" "0xffffffff80000000" "a + i"]
    by (simp add: high_def word_less_nat_alt)
  moreover have "(i :: u64) < 4 \<Longrightarrow> i < 8" for i by unat_arith
  ultimately show "kload64 boot_state a = Inr (load64 boot_mem a)"
    and "kload32 boot_state a = Inr (take_bit 32 (load64 boot_mem a))"
    by (simp_all add: kload64_high kload32_high boot_state_def)
qed

lemma boot_pte_l4: "pte_decode 0x2003 = \<lparr>pte_present = True, pte_writable = True,
     pte_user = False, pte_write_through = False, pte_cache_disable = False,
     pte_accessed = False, pte_dirty = False, pte_page_size = False,
     pte_unused = 0, pte_address = 2, pte_no_execute = False\<rparr>"
  by (simp add: pte_decode_def bit_numeral_rec)
lemma boot_pte_l3: "pte_decode 0x83 = \<lparr>pte_present = True, pte_writable = True,
     pte_user = False, pte_write_through = False, pte_cache_disable = False,
     pte_accessed = False, pte_dirty = False, pte_page_size = True,
     pte_unused = 0, pte_address = 0, pte_no_execute = False\<rparr>"
  by (simp add: pte_decode_def)
lemma low_gib_index: "va < 2 ^ 30 \<Longrightarrow> table_index 3 va = 0 \<and> table_index 2 va = 0 \<and> take_bit 30 va = va"
proof -
  assume "va < 2 ^ 30"
  then have "take_bit 30 va = va" 
    by (simp add: word_unat_eq_iff unsigned_take_bit_eq word_less_nat_alt take_bit_nat_eq_self)
  then have "\<not> bit va n" if "30 \<le> n" for n using that by (metis bit_take_bit_iff leD)
  then have "drop_bit 39 va = 0" "drop_bit 30 va = 0" by (auto intro!: bit_word_eqI simp: bits)
  with \<open>take_bit 30 va = va\<close> show ?thesis by (simp add: table_index_def)
qed
lemma boot_walk:
  assumes "load64 m (0x1000 + h) = 0x2003" "load64 m (0x2000 + h) = 0x83" "va < 2 ^ 30"
  shows "mmu_walk 4 m h 0x1000 va all_rights = Some (va, \<lparr>may_user = False, may_write = True, may_exec = True\<rparr>)"
proof -
  have 4: "(4 :: nat) = Suc 3" and 3: "(3 :: nat) = Suc 2" by simp_all
  have "mmu_walk 3 m h 0x2000 va r = Some (va, restrict_rights (pte_decode 0x83) r)" for r
    by (subst 3, subst mmu_walk.simps) (simp add: low_gib_index [OF assms(3)] assms get_pte_def slot_def boot_pte_l3 pte_frame_def)
  then show ?thesis
    by (subst 4, subst mmu_walk.simps) (simp add: low_gib_index [OF assms(3)] assms get_pte_def slot_def boot_pte_l4 boot_pte_l3 pte_frame_def restrict_rights_def all_rights_def)
qed

lemma boot_identity: "identity_mapped (boot_state\<lparr>hhdm := 0xffff800000000000\<rparr>) boot_pages"
proof -
  let ?h = "0xffff800000000000 :: u64"
  have node: "0xffff800000100000 \<le> a" if "node_byte (boot_state\<lparr>hhdm := ?h\<rparr>) boot_pages a" for a
    using that by (auto simp: node_byte_def word_le_nat_alt word_less_nat_alt unat_word_ariths)
  have "kresolve True s' v = Inr (v + ?h)"
    if s': "same_outside boot_pages (boot_state\<lparr>hhdm := ?h\<rparr>) s'" and v: "v < 2 ^ 30" for s' v
  proof -
    have "mem s' a = boot_mem a" if "a < 0xffff800000100000" for a
      using s' node [of a] that by (auto simp: same_outside_def boot_state_def dest: leD)
    moreover have "0xffff800000001000 + i < 0xffff800000100000" "0xffff800000002000 + i < 0xffff800000100000"
      if "i < 8" for i :: u64 using that by (auto simp: word_less_nat_alt unat_word_ariths)
    ultimately have "load64 (mem s') 0xffff800000001000 = load64 boot_mem 0xffff800000001000"
      "load64 (mem s') 0xffff800000002000 = load64 boot_mem 0xffff800000002000"
      by (auto intro!: load64_cong)
    then have "walk s' 0x1000 v = Some (v, \<lparr>may_user = False, may_write = True, may_exec = True\<rparr>)"
      using s' boot_walk [of "mem s'" ?h v] v by (simp add: boot_load walk_def same_outside_def)
    moreover have "\<not> ?h \<le> v" "v < 0x800000000000" using v by unat_arith+
    ultimately show ?thesis
      using s' by (simp add: kresolve_def cr3_root_def same_outside_def boot_state_def)
  qed
  moreover have "p + i < 2 ^ 30" if "p \<in> boot_pages" "i < 8" for p i :: u64
    using that by (auto simp: word_less_nat_alt unat_word_ariths)
  ultimately show ?thesis by (auto simp: identity_mapped_def algebra_simps)
qed

lemma boot_info_sample:
  "boot_info boot_state 0xffffffff80000000 0xffff800000000000 [(0x100000, 0x2000, 1), (0xB8000, 0x1000, 2)]"
proof -
  let ?rs = "[(0x100000, 0x2000, 1), (0xB8000, 0x1000, 2)] :: (u64 \<times> u64 \<times> u64) list"
  have ps: "concat (map region_pages ?rs) = [0x100000, 0x101000]"
    by (simp add: region_pages_def upt_rec)
  have chain: "tag_chain boot_state 0xffffffff80001000
      [(0xffffffff80001000, STIVALE2_STRUCT_TAG_MEMMAP_ID), (0xffffffff80002000, STIVALE2_STRUCT_TAG_HHDM_ID)]"
    by (simp add: boot_kload boot_load)
  have regs: "region_at (boot_state\<lparr>hhdm := 0xffff800000000000\<rparr>) boot_pages (entry_addr 0xffffffff80001000 i) (?rs ! i)
      \<and> (snd (snd (?rs ! i)) = 1 \<longrightarrow> unat (fst (snd (?rs ! i))) \<le> 2 ^ 31)" if "i < length ?rs" for i
  proof -
    have "i = 0 \<or> i = 1" using that by auto
    then show ?thesis
      by (auto simp: region_at_def entry_addr_def intro!: boot_fixed)
        (simp_all add: boot_kload boot_load)
  qed
  show ?thesis
    unfolding boot_info_def Let_def ps
  proof (intro conjI exI)
    show "tag_chain boot_state 0xffffffff80001000
      [(0xffffffff80001000, STIVALE2_STRUCT_TAG_MEMMAP_ID), (0xffffffff80002000, STIVALE2_STRUCT_TAG_HHDM_ID)]"
      by (rule chain)
    show "\<forall>i < length ?rs. region_at (boot_state\<lparr>hhdm := 0xffff800000000000\<rparr>) (set [0x100000, 0x101000])
         (entry_addr 0xffffffff80001000 i) (?rs ! i) \<and> (snd (snd (?rs ! i)) = 1 \<longrightarrow> unat (fst (snd (?rs ! i))) \<le> 2 ^ 31)"
      using regs by simp
    show "identity_mapped (boot_state\<lparr>hhdm := 0xffff800000000000\<rparr>) (set [0x100000, 0x101000])"
      using boot_identity by simp
    show "fixed 8 (boot_state\<lparr>hhdm := 0xffff800000000000\<rparr>) (set [0x100000, 0x101000]) (0xffffffff80001000 + 16)
        (of_nat (length ?rs))"
      using boot_fixed [of "0xffffffff80001010" 8 2] by (simp add: boot_kload boot_load)
    show "(0xffffffff80001000 :: u64) \<noteq> 0" "(0xffffffff80002000 :: u64) \<noteq> 0" by simp_all
    show "kload64 boot_state (0xffffffff80002000 + 16) = Inr 0xffff800000000000"
      by (simp add: boot_kload boot_load)
  qed (simp_all add: boot_kload boot_load first_tag_def hhdm_ok_def frame_def page_aligned_def take_bit_eq_mod)
qed

lemma init_list_builds_pool_witness:
  "\<exists>s'. init_list 0xffffffff80000000 boot_state = Some (Inr s')
    \<and> pool s' [0x101000, 0x100000]"
proof -
  have "concat (map region_pages [(0x100000, 0x2000, 1), (0xB8000, 0x1000, 2)]) = [0x100000, 0x101000]"
    by (simp add: region_pages_def upt_rec)
  then show ?thesis
    using init_list_builds_pool [OF boot_info_sample] by (auto simp: boot_state_def)
qed

text \<open>
  C18: \<open>find_tag\<close> ends on every list of tags that ends, with the first tag that has the identifier or
  a null pointer; it does not end once its search is among tags whose links never leave them and none
  of which has the identifier.
\<close>

theorem find_tag_ends:
  assumes "kload64 s (hdr + 128) = Inr a"
  shows "(tag_chain s a ts \<longrightarrow> find_tag s hdr key = Some (Inr (first_tag key ts)))
    \<and> (trap s key T \<longrightarrow> a \<in> T \<longrightarrow> find_tag s hdr key = None)"
  using find_tag_chain [OF assms] find_tag_loop_trap [of s key T a] assms by (simp add: find_tag_def)

text \<open>The sample boot information with the second tag linked to the first.\<close>

definition looping_state :: kstate where
  "looping_state = boot_state\<lparr>mem := store64 boot_mem 0xffffffff80002008 0xffffffff80001000\<rparr>"

lemma looping_kload:
  assumes "page_aligned t" "i < 512" "0xffffffff80000000 \<le> slot t i" "slot t i \<le> 0xffffffff8fffffff"
  shows "kload64 looping_state (slot t i) =
    Inr (if t = 0xffffffff80002000 \<and> i = 1 then 0xffffffff80001000 else load64 boot_mem (slot t i))"
proof -
  have "high (slot t i + j)" if "j < 8" for j
    using that boot_high [OF assms(3,4), of "unat j"] order_trans [of "0xffff800000000000" "0xffffffff80000000" "slot t i + j"]
    by (simp add: high_def word_less_nat_alt)
  moreover have "(0xffffffff80002008 :: u64) = slot 0xffffffff80002000 1" by (simp add: slot_def)
  ultimately show ?thesis
    using load64_store64_slot [OF boot_aligned(5) _ assms(1,2), of 1 boot_mem "0xffffffff80001000"]
    by (auto simp: kload64_high looping_state_def)
qed

lemma find_tag_ends_witness:
  "find_tag boot_state 0xffffffff80000000 STIVALE2_STRUCT_TAG_HHDM_ID = Some (Inr 0xffffffff80002000)
   \<and> find_tag boot_state 0xffffffff80000000 MODULES_ID = Some (Inr 0)
   \<and> find_tag looping_state 0xffffffff80000000 MODULES_ID = None"
proof -
  let ?ts = "[(0xffffffff80001000, STIVALE2_STRUCT_TAG_MEMMAP_ID), (0xffffffff80002000, STIVALE2_STRUCT_TAG_HHDM_ID)]"
  have hdr: "kload64 boot_state (0xffffffff80000000 + 128) = Inr 0xffffffff80001000"
    and chain: "tag_chain boot_state 0xffffffff80001000 ?ts" by (simp_all add: boot_kload boot_load)
  have ld: "kload64 looping_state 0xffffffff80000080 = Inr 0xffffffff80001000"
    "kload64 looping_state 0xffffffff80001000 = Inr STIVALE2_STRUCT_TAG_MEMMAP_ID"
    "kload64 looping_state 0xffffffff80001008 = Inr 0xffffffff80002000"
    "kload64 looping_state 0xffffffff80002000 = Inr STIVALE2_STRUCT_TAG_HHDM_ID"
    "kload64 looping_state 0xffffffff80002008 = Inr 0xffffffff80001000"
    using looping_kload [of "0xffffffff80000000" 16] looping_kload [of "0xffffffff80001000" 0]
      looping_kload [of "0xffffffff80001000" 1] looping_kload [of "0xffffffff80002000" 0]
      looping_kload [of "0xffffffff80002000" 1] by (simp_all add: slot_def boot_load)
  have trap: "trap looping_state MODULES_ID {0xffffffff80001000, 0xffffffff80002000}"
    by (simp add: trap_def ld)
  have hdr': "kload64 looping_state (0xffffffff80000000 + 128) = Inr 0xffffffff80001000" by (simp add: ld)
  show ?thesis
    using find_tag_ends [OF hdr, of ?ts] find_tag_ends [OF hdr', of ?ts MODULES_ID] chain trap
    by (simp add: first_tag_def)
qed

end
