(* ===== verification/Sysio.thy ===== *)
theory Sysio
  imports Kaccess Kprint Pic
begin

text \<open>
  \<open>syscall_read\<close> and \<open>syscall_write\<close> of \<open>kernel/idt.c\<close>, over the whole machine: memory, screen and
  keyboard. \<open>kgetc\<close> waits for the keyboard interrupt when no character is there; the model runs the
  call with the characters that have arrived when it needs them in the buffer (\<open>keyboard_fifo\<close> and
  \<open>kgetc_quiet_fifo\<close> say what the buffer holds), and the call is \<open>Blocked\<close> where they run out.
  \<open>edit\<close> is what a reader is meant to see of the keys: a backspace takes back the last character.
\<close>

record world =
  machine :: kstate
  screen :: term_t
  kbd :: kbd_t

definition kgetc :: "kbd_t \<Rightarrow> fault + (u8 \<times> kbd_t)" where
  "kgetc k = (if avail k = 0 then Inl Blocked else kgetc_body k)"

lemma kgetc_avail: "kgetc k = Inr (c, k') \<Longrightarrow> unat (avail k') < unat (avail k)"
  by (auto simp: kgetc_def kgetc_body_def Let_def unat_minus_one unat_gt_0 split: if_splits)

subsection \<open>The calls\<close>

text \<open>\<open>accum\<close> is an \<open>int\<close>; compared with \<open>n\<close> it becomes a \<open>size_t\<close>.\<close>

function read_loop :: "u64 \<Rightarrow> u64 \<Rightarrow> int \<Rightarrow> world \<Rightarrow> fault + world" where
  "read_loop buf n accum w =
     (if word_of_int accum < n
      then bindf (kgetc (kbd w)) (\<lambda>(c, k).
             bindf (kstore8 (buf + word_of_int accum) c (machine w)) (\<lambda>m.
               if accum = 2147483647 then Inl Undefined
               else let accum = accum + 1;
                        accum = (if c = 0x08 then accum - 2 else accum)
                    in read_loop buf n accum (w\<lparr>machine := m, kbd := k\<rparr>)))
      else Inr w)"
  by pat_completeness auto
termination
  by (relation "measure (\<lambda>(buf, n, accum, w). unat (avail (kbd w)))") (auto dest: kgetc_avail)

declare read_loop.simps [simp del]

definition syscall_read :: "u32 \<Rightarrow> u64 \<Rightarrow> u64 \<Rightarrow> world \<Rightarrow> fault + (u32 \<times> world)" where
  "syscall_read fd buf n w =
     (if fd \<noteq> 0 then Inr (- 1, w)
      else bindf (read_loop buf n 0 w) (\<lambda>w. Inr (ucast n, w)))"

function write_loop :: "u64 \<Rightarrow> u64 \<Rightarrow> nat \<Rightarrow> world \<Rightarrow> fault + world" where
  "write_loop buf n i w =
     (if of_nat i < n
      then bindf (kload8 (machine w) (buf + of_nat i)) (\<lambda>c.
             bindf (kprintf (str ''%c'') [WordArg (scast c)] (screen w)) (\<lambda>t.
               if i < 2147483647 then write_loop buf n (i + 1) (w\<lparr>screen := t\<rparr>) else Inl Undefined))
      else Inr w)"
  by pat_completeness auto
termination
  by (relation "measure (\<lambda>(buf, n, i, w). 2147483647 - i)") auto

declare write_loop.simps [simp del]

definition syscall_write :: "u32 \<Rightarrow> u64 \<Rightarrow> u64 \<Rightarrow> world \<Rightarrow> fault + (u32 \<times> world)" where
  "syscall_write fd buf n w =
     (if fd \<noteq> 1 \<and> fd \<noteq> 2 then Inr (- 1, w)
      else bindf (write_loop buf n 0 w) (\<lambda>w. Inr (ucast n, w)))"

subsection \<open>Editing\<close>

text \<open>
  The characters kept of the keys pressed, newest first, until there are \<open>n\<close> of them: the text, the
  number of keys used, and whether a backspace found nothing to take back.
\<close>

fun edit :: "nat \<Rightarrow> u8 list \<Rightarrow> u8 list \<Rightarrow> (bool \<times> u8 list \<times> nat) option" where
  "edit n kept keys =
     (if n \<le> length kept then Some (False, kept, 0)
      else (case keys of
              [] \<Rightarrow> None
            | c # cs \<Rightarrow>
                if c = 0x08
                then (if kept = [] then Some (True, [], 1)
                      else map_option (\<lambda>(e, ks, u). (e, ks, u + 1)) (edit n (tl kept) cs))
                else map_option (\<lambda>(e, ks, u). (e, ks, u + 1)) (edit n (c # kept) cs)))"

declare edit.simps [simp del]

text \<open>
  The \<open>n\<close> bytes at \<open>buf\<close> are mapped writable, to \<open>n\<close> different places, and stay so while they are
  written: they are not part of the page tables.
\<close>

definition window :: "kstate \<Rightarrow> u64 \<Rightarrow> nat \<Rightarrow> (nat \<Rightarrow> u64) \<Rightarrow> bool" where
  "window s buf n at \<longleftrightarrow> inj_on at {..<n} \<and>
     (\<forall>m. (\<forall>a. a \<notin> at ` {..<n} \<longrightarrow> m a = mem s a) \<longrightarrow>
        (\<forall>i < n. kresolve True (s\<lparr>mem := m\<rparr>) (buf + of_nat i) = Inr (at i)))"

text \<open>What is in the window, and everything else as it was.\<close>

definition in_window :: "kstate \<Rightarrow> nat \<Rightarrow> (nat \<Rightarrow> u64) \<Rightarrow> mem \<Rightarrow> u8 list \<Rightarrow> bool" where
  "in_window s n at m cs \<longleftrightarrow> length cs \<le> n \<and> (\<forall>i < length cs. m (at i) = cs ! i)
     \<and> (\<forall>a. a \<notin> at ` {..<n} \<longrightarrow> m a = mem s a)"

lemma window_store:
  assumes "window s buf n at" "in_window s n at m cs" "length cs < n"
  shows "kstore8 (buf + of_nat (length cs)) c (s\<lparr>mem := m\<rparr>) = Inr (s\<lparr>mem := m(at (length cs) := c)\<rparr>)"
    and "in_window s n at (m(at (length cs) := c)) (cs @ [c])"
    and "in_window s n at (m(at (length cs) := c)) (butlast cs)"
proof -
  have "kresolve True (s\<lparr>mem := m\<rparr>) (buf + of_nat (length cs)) = Inr (at (length cs))"
    using assms by (simp add: window_def in_window_def)
  then show "kstore8 (buf + of_nat (length cs)) c (s\<lparr>mem := m\<rparr>) = Inr (s\<lparr>mem := m(at (length cs) := c)\<rparr>)"
    by (simp add: kstore8_def)
  have "at i \<noteq> at (length cs)" if "i < length cs" for i
    using assms that by (auto simp: window_def inj_on_def)
  then show "in_window s n at (m(at (length cs) := c)) (cs @ [c])"
    "in_window s n at (m(at (length cs) := c)) (butlast cs)"
    using assms(2,3) by (auto simp: in_window_def nth_append nth_butlast less_Suc_eq)
qed

lemma kgetc_chars:
  assumes "kbd_ok k"
  shows "chars k = [] \<Longrightarrow> kgetc k = Inl Blocked"
    and "chars k = c # cs \<Longrightarrow> \<exists>k'. kgetc k = Inr (c, k') \<and> kbd_ok k' \<and> chars k' = cs"
proof -
  show "chars k = [] \<Longrightarrow> kgetc k = Inl Blocked"
    by (simp add: kgetc_def chars_def unat_eq_zero)
  assume c: "chars k = c # cs"
  then have "avail k \<noteq> 0" by (auto simp: chars_def)
  then show "\<exists>k'. kgetc k = Inr (c, k') \<and> kbd_ok k' \<and> chars k' = cs"
    using kq.get_ok [OF assms c] by (simp add: kgetc_def)
qed

lemma word_less_small: "i < 2 ^ 31 \<Longrightarrow> n < 2 ^ 31 \<Longrightarrow> (of_nat i :: u64) < of_nat n \<longleftrightarrow> i < n"
  by (simp add: word_less_nat_alt unat_of_nat)

lemma of_nat_ucast: "n < 2 ^ 31 \<Longrightarrow> ucast (of_nat n :: u64) = (of_nat n :: u32)"
  by (simp add: word_unat_eq_iff unat_of_nat unsigned_ucast_eq take_bit_nat_eq_self)

lemma read_loop_done:
  "n < 2 ^ 31 \<Longrightarrow> read_loop buf (of_nat n) (int n) w = Inr w" "read_loop buf n' (- 1) w = Inr w"
  by (simp_all add: read_loop.simps [of buf "of_nat n"] read_loop.simps [of buf n'] not_less)

lemma read_loop_step:
  assumes "window s buf n at" "n < 2 ^ 31" "kgetc (kbd w) = Inr (c, k)" "machine w = s\<lparr>mem := m\<rparr>"
    "in_window s n at m cs" "length cs < n"
  shows "read_loop buf (of_nat n) (int (length cs)) w =
     read_loop buf (of_nat n) (if c = 0x08 then int (length cs) - 1 else int (length cs) + 1)
       (w\<lparr>machine := s\<lparr>mem := m(at (length cs) := c)\<rparr>, kbd := k\<rparr>)"
  using assms window_store(1) [OF assms(1,5,6)] word_less_small [of "length cs" n]
  by (subst read_loop.simps) (auto simp: Let_def)

text \<open>How a run \<open>r\<close> of the loop on the keys ends, given the edited text.\<close>

definition reads :: "kstate \<Rightarrow> nat \<Rightarrow> (nat \<Rightarrow> u64) \<Rightarrow> world \<Rightarrow> u8 list \<Rightarrow> (bool \<times> u8 list \<times> nat) option \<Rightarrow> fault + world \<Rightarrow> bool" where
  "reads s n at w keys ed r =
     (case ed of None \<Rightarrow> r = Inl Blocked
      | Some (early, kept, used) \<Rightarrow> \<exists>k m. r = Inr (w\<lparr>machine := s\<lparr>mem := m\<rparr>, kbd := k\<rparr>)
          \<and> kbd_ok k \<and> chars k = drop used keys
          \<and> in_window s n at m (if early then [0x08] else rev kept))"

lemma reads_None [simp]: "reads s n at w keys None r \<longleftrightarrow> r = Inl Blocked"
  by (simp add: reads_def)

lemma reads_Some:
  "kbd_ok k \<Longrightarrow> chars k = drop u keys \<Longrightarrow> in_window s n at m (if e then [0x08] else rev ks) \<Longrightarrow>
     reads s n at w keys (Some (e, ks, u)) (Inr (w\<lparr>machine := s\<lparr>mem := m\<rparr>, kbd := k\<rparr>))"
  by (cases e) (simp_all add: reads_def, blast+)

lemma reads_world [simp]: "reads s n at (w\<lparr>machine := x, kbd := y\<rparr>) = reads s n at w"
  by (simp add: reads_def fun_eq_iff split: option.split)

lemma reads_key:
  "reads s n at w cs ed r \<Longrightarrow> reads s n at w (c # cs) (map_option (\<lambda>(e, ks, u). (e, ks, u + 1)) ed) r"
  by (auto simp: reads_def split: option.splits; blast)

lemma read_loop_full:
  assumes "length kept = n" "n < 2 ^ 31" "kbd_ok (kbd w)" "machine w = s\<lparr>mem := m\<rparr>" "in_window s n at m (rev kept)"
  shows "reads s n at w (chars (kbd w)) (edit n kept keys) (read_loop buf (of_nat n) (int (length kept)) w)"
proof -
  have "w = w\<lparr>machine := s\<lparr>mem := m\<rparr>, kbd := kbd w\<rparr>" using assms(4) by (cases w) simp
  then have "read_loop buf (of_nat n) (int n) w = Inr (w\<lparr>machine := s\<lparr>mem := m\<rparr>, kbd := kbd w\<rparr>)"
    using read_loop_done(1) [OF assms(2), of buf w] by simp
  moreover have "edit n kept keys = Some (False, kept, 0)"
    using assms(1) by (simp add: edit.simps [of n kept])
  ultimately show ?thesis
    using assms reads_Some [of "kbd w" 0 "chars (kbd w)" s n at m False kept w] by simp
qed

lemma read_loop_edit:
  assumes "window s buf n at" "n < 2 ^ 31" "kbd_ok (kbd w)" "machine w = s\<lparr>mem := m\<rparr>"
    "in_window s n at m (rev kept)"
  shows "reads s n at w (chars (kbd w)) (edit n kept (chars (kbd w))) (read_loop buf (of_nat n) (int (length kept)) w)"
  using assms(3-5)
proof (induction "chars (kbd w)" arbitrary: kept w m)
  case Nil
  have len: "length kept \<le> n" using Nil.prems by (simp add: in_window_def)
  show ?case
  proof (cases "length kept = n")
    case True
    then show ?thesis using read_loop_full Nil.prems assms(2) by blast
  next
    case False
    then show ?thesis
      using len Nil kgetc_chars(1) [OF Nil.prems(1)] word_less_small [of "length kept" n] assms(2)
      by (subst read_loop.simps) (simp add: edit.simps [of n kept])
  qed
next
  case (Cons c cs)
  have len: "length kept \<le> n" using Cons.prems by (simp add: in_window_def)
  show ?case
  proof (cases "length kept = n")
    case True
    then show ?thesis using read_loop_full Cons.prems assms(2) by blast
  next
    case False
    then have less: "length (rev kept) < n" using len by simp
    obtain k where k: "kgetc (kbd w) = Inr (c, k)" "kbd_ok k" "chars k = cs"
      using kgetc_chars(2) [OF Cons.prems(1) Cons.hyps(2) [symmetric]] by blast
    let ?m = "m(at (length kept) := c)" and ?w = "w\<lparr>machine := s\<lparr>mem := m(at (length kept) := c)\<rparr>, kbd := k\<rparr>"
    have step: "read_loop buf (of_nat n) (int (length kept)) w =
        read_loop buf (of_nat n) (if c = 0x08 then int (length kept) - 1 else int (length kept) + 1) ?w"
      using read_loop_step [OF assms(1,2) k(1) Cons.prems(2,3) less] by simp
    have win: "in_window s n at ?m (rev (c # kept))" "in_window s n at ?m (rev (tl kept))"
      using window_store(2,3) [OF assms(1) Cons.prems(3) less, of c] by (simp_all add: butlast_rev)
    have ed: "edit n kept (c # cs) = (if c = 0x08
        then (if kept = [] then Some (True, [], 1) else map_option (\<lambda>(e, ks, u). (e, ks, u + 1)) (edit n (tl kept) cs))
        else map_option (\<lambda>(e, ks, u). (e, ks, u + 1)) (edit n (c # kept) cs))"
      using less by (simp add: edit.simps [of n kept])
    have IH: "reads s n at w cs (edit n kept' cs) (read_loop buf (of_nat n) (int (length kept')) ?w)"
      if "in_window s n at ?m (rev kept')" for kept'
      using Cons.hyps(1) [where w = ?w and kept = kept' and m = ?m] k that by simp
    consider "c = 0x08" "kept = []" | "c = 0x08" "kept \<noteq> []" | "c \<noteq> 0x08" by blast
    then have "reads s n at w (c # cs) (edit n kept (c # cs)) (read_loop buf (of_nat n) (int (length kept)) w)"
    proof cases
      case 1
      then show ?thesis
        using step win(1) k(2,3) reads_Some [of k 1 "c # cs" s n at ?m True "[]" w]
        unfolding ed by (simp add: read_loop_done(2))
    next
      case 2
      then have eq: "int (length kept) - 1 = int (length (tl kept))" by (cases kept) simp_all
      have "edit n kept (c # cs) = map_option (\<lambda>(e, ks, u). (e, ks, u + 1)) (edit n (tl kept) cs)"
        unfolding ed using 2 by (simp only: if_True if_False simp_thms)
      moreover have "read_loop buf (of_nat n) (int (length kept)) w = read_loop buf (of_nat n) (int (length (tl kept))) ?w"
        unfolding step eq [symmetric] using 2 by (simp only: if_True simp_thms)
      ultimately show ?thesis using reads_key [OF IH [OF win(2)], of c] by (simp only:)
    next
      case 3
      then have "edit n kept (c # cs) = map_option (\<lambda>(e, ks, u). (e, ks, u + 1)) (edit n (c # kept) cs)"
        unfolding ed by (simp only: if_False)
      moreover have "read_loop buf (of_nat n) (int (length kept)) w = read_loop buf (of_nat n) (int (length (c # kept))) ?w"
        unfolding step using 3 by (simp add: add.commute)
      ultimately show ?thesis using reads_key [OF IH [OF win(1)], of c] by (simp only:)
    qed
    then show ?thesis by (simp add: Cons.hyps(2) [symmetric])
  qed
qed

subsection \<open>Properties\<close>

text \<open>A world for the witnesses: a buffer in the kernel's memory, and keys typed.\<close>

definition typed :: "u8 list \<Rightarrow> kbd_t" where
  "typed cs = kbd_boot\<lparr>buffer := cs @ replicate (500 - length cs) 0, writehead := length cs, avail := of_nat (length cs)\<rparr>"

definition sample_world :: world where
  "sample_world = \<lparr>machine = \<lparr>mem = (\<lambda>_. 0)(0xffffffff80005000 := 0x6F, 0xffffffff80005001 := 0x6B),
      hhdm = 0xffff800000000000, free_list = 0, cr3 = 0x1000, cr0_wp = False, v_heap = 0x10000, tlb_ops = []\<rparr>,
    screen = blank_term, kbd = typed [0x78, 0x08, 0x68, 0x69]\<rparr>"

lemma sample_keys: "kbd_ok (kbd sample_world)" "chars (kbd sample_world) = [0x78, 0x08, 0x68, 0x69]"
  by (simp_all add: sample_world_def typed_def kbd_boot_def kbd_ok_def chars_def upt_rec)

lemma less_2: "(i :: nat) < 2 \<longleftrightarrow> i = 0 \<or> i = 1"
  by auto

lemma sample_window:
  "window (machine sample_world) 0xffffffff80004000 2 (\<lambda>i. 0xffffffff80004000 + of_nat i)"
  by (auto simp: window_def inj_on_def high_def less_2)

text \<open>
  C34: reading \<open>n\<close> bytes from the keyboard is editing. If the keys waiting, edited, give \<open>n\<close>
  characters, \<open>syscall_read\<close> uses exactly the keys up to there, returns \<open>n\<close>, and the buffer holds the
  \<open>n\<close> characters; if a backspace finds nothing to take back, it returns \<open>n\<close> at once with only that
  backspace in the buffer; if the keys run out first, it waits. Nothing outside the buffer changes.
\<close>

theorem syscall_read_edits:
  assumes "kbd_ok (kbd w)" "window (machine w) buf n at" "n < 2 ^ 31"
  shows "case edit n [] (chars (kbd w)) of
      None \<Rightarrow> syscall_read 0 buf (of_nat n) w = Inl Blocked
    | Some (early, kept, used) \<Rightarrow> \<exists>k m.
        syscall_read 0 buf (of_nat n) w = Inr (of_nat n, w\<lparr>machine := (machine w)\<lparr>mem := m\<rparr>, kbd := k\<rparr>)
        \<and> kbd_ok k \<and> chars k = drop used (chars (kbd w))
        \<and> in_window (machine w) n at m (if early then [0x08] else rev kept)"
proof -
  have "machine w = (machine w)\<lparr>mem := mem (machine w)\<rparr>" "in_window (machine w) n at (mem (machine w)) (rev [])"
    by (simp_all add: in_window_def)
  then have "reads (machine w) n at w (chars (kbd w)) (edit n [] (chars (kbd w))) (read_loop buf (of_nat n) 0 w)"
    using read_loop_edit [OF assms(2,3,1), of "mem (machine w)" "[]"] by simp
  then show ?thesis
    unfolding reads_def syscall_read_def by (auto simp: of_nat_ucast [OF assms(3)] split: option.splits; blast)
qed

lemma syscall_read_edits_witness:
  "\<exists>k m. syscall_read 0 0xffffffff80004000 2 sample_world =
       Inr (2, sample_world\<lparr>machine := (machine sample_world)\<lparr>mem := m\<rparr>, kbd := k\<rparr>)
     \<and> chars k = [] \<and> m 0xffffffff80004000 = 0x68 \<and> m 0xffffffff80004001 = 0x69"
proof -
  have "edit 2 [] [0x78, 0x08, 0x68, 0x69] = Some (False, [0x69, 0x68], 4)"
    by (simp add: edit.simps)
  then show ?thesis
    using syscall_read_edits [OF sample_keys(1) sample_window]
    by (auto simp: sample_keys in_window_def less_Suc_eq)
qed

text \<open>
  C35: \<open>syscall_write\<close> to descriptor 1 or 2 puts exactly the \<open>n\<close> bytes of the buffer on the screen, in
  order, zero bytes included, returns \<open>n\<close> and changes nothing else; any other descriptor returns -1
  and does nothing.
\<close>

definition readable :: "kstate \<Rightarrow> u64 \<Rightarrow> u8 list \<Rightarrow> bool" where
  "readable s buf cs \<longleftrightarrow> (\<forall>i < length cs. kload8 s (buf + of_nat i) = Inr (cs ! i))"

lemma kprintf_char: "kprintf (str ''%c'') [WordArg (scast c)] t = Inr (term_putchar c t)"
proof -
  have "ucast (scast c :: u64) = c" by (rule bit_word_eqI) (simp add: bits)
  then show ?thesis by (simp add: kprintf_text ktext_conv ktext_Nil conversions_def)
qed

lemma write_loop_puts:
  assumes "readable (machine w) buf cs" "length cs < 2 ^ 31"
  shows "i \<le> length cs \<Longrightarrow> write_loop buf (of_nat (length cs)) i w =
    Inr (w\<lparr>screen := fold term_putchar (drop i cs) (screen w)\<rparr>)"
  using assms(1)
proof (induction "length cs - i" arbitrary: i w)
  case 0
  then have "i = length cs" by simp
  then show ?case by (subst write_loop.simps) simp
next
  case (Suc k)
  then have i: "i < length cs" by simp
  have "write_loop buf (of_nat (length cs)) i w =
      write_loop buf (of_nat (length cs)) (i + 1) (w\<lparr>screen := term_putchar (cs ! i) (screen w)\<rparr>)"
    using i Suc.prems(2) word_less_small [of i "length cs"] assms(2) kprintf_char
    by (subst write_loop.simps) (simp add: readable_def)
  then show ?case
    using Suc.hyps(1) [of "i + 1" "w\<lparr>screen := term_putchar (cs ! i) (screen w)\<rparr>"] Suc.hyps(2) Suc.prems i
    by (simp add: Cons_nth_drop_Suc [symmetric])
qed

theorem syscall_write_puts:
  assumes "readable (machine w) buf cs" "length cs < 2 ^ 31"
  shows "syscall_write fd buf (of_nat (length cs)) w =
    (if fd = 1 \<or> fd = 2 then Inr (of_nat (length cs), w\<lparr>screen := fold term_putchar cs (screen w)\<rparr>)
     else Inr (- 1, w))"
  using write_loop_puts [OF assms, of 0] by (auto simp: syscall_write_def of_nat_ucast [OF assms(2)])

lemma syscall_write_puts_witness:
  "syscall_write 1 0xffffffff80005000 2 sample_world =
     Inr (2, sample_world\<lparr>screen := term_putchar 0x6B (term_putchar 0x6F (screen sample_world))\<rparr>)
   \<and> syscall_write 7 0xffffffff80005000 2 sample_world = Inr (- 1, sample_world)"
proof -
  have "readable (machine sample_world) 0xffffffff80005000 [0x6F, 0x6B]"
    by (auto simp: readable_def kload8_def high_def sample_world_def less_Suc_eq)
  then show ?thesis
    using syscall_write_puts [of sample_world "0xffffffff80005000" "[0x6F, 0x6B]" 1]
      syscall_write_puts [of sample_world "0xffffffff80005000" "[0x6F, 0x6B]" 7]
    by simp
qed

end
