(* ===== verification/Proc.thy ===== *)
theory Proc
  imports Boot MyString Vmap
begin

text \<open>
  \<open>kernel/proc.c\<close>: the modules the bootloader loaded (\<open>check_mod\<close>) and the start of one as the user
  program (\<open>execute_mod\<close>). \<open>tag\<close> is the modules tag that \<open>set_hdr\<close> stores. The ELF headers are read
  from memory at the offsets of \<open>elf.h\<close>: in \<open>Elf64_Ehdr\<close> the entry point at 24, the program headers'
  offset at 32 and their number, 16 bits, at 56; \<open>Elf64_Phdr\<close> is 56 bytes. Names are strings in the
  kernel's half of memory. \<open>usermode_entry\<close> is assembly that ends in \<open>iretq\<close>: it does not return, so
  the run of the kernel ends there, with what is loaded into the registers.
\<close>

datatype exec_result = NotFound | UserMode u64 u64 u64 u64

subsection \<open>check_mod\<close>

function check_loop :: "u64 \<Rightarrow> u64 \<Rightarrow> nat \<Rightarrow> kstate \<Rightarrow> fault + u32" where
  "check_loop tag md i s =
     bindf (kload64 s (tag + 16)) (\<lambda>count.
       if of_nat i < count
       then bindf (my_strcmp (mem s) (module_addr tag i + 16) md) (\<lambda>r.
              if r = 0 then Inr 0
              else if i < INT_MAX then check_loop tag md (i + 1) s else Inl Undefined)
       else Inr (- 1))"
  by pat_completeness auto
termination
  by (relation "measure (\<lambda>(tag, md, i, s). INT_MAX - i)") auto

declare check_loop.simps [simp del]

definition check_mod :: "u64 \<Rightarrow> u64 \<Rightarrow> kstate \<Rightarrow> fault + u32" where
  "check_mod tag md s = check_loop tag md 0 s"

subsection \<open>Loading a segment\<close>

text \<open>One round of \<open>while (size > 0)\<close>: the results of \<open>vm_map\<close> and \<open>vm_protect\<close> are not looked at.\<close>

definition load_chunk :: "u64 \<Rightarrow> bool \<Rightarrow> bool \<Rightarrow> bool \<Rightarrow> u64 \<Rightarrow> u64 \<Rightarrow> u64 \<Rightarrow> kstate \<Rightarrow> fault + kstate" where
  "load_chunk root rd wr ex vaddr src len s =
     bindf (vm_map root vaddr True True True s) (\<lambda>(mapped, s1).
     bindf (kmemcpy vaddr src len s1) (\<lambda>s2.
     Inr (snd (vm_protect root vaddr rd wr ex s2))))"

function load_segment :: "u64 \<Rightarrow> u64 \<Rightarrow> bool \<Rightarrow> bool \<Rightarrow> bool \<Rightarrow> u64 \<Rightarrow> u64 \<Rightarrow> u64 \<Rightarrow> kstate \<Rightarrow> fault + kstate" where
  "load_segment root ehdr rd wr ex sz offset vaddr s =
     (if 0 < sz
      then (if sz < 2048 then load_chunk root rd wr ex vaddr (ehdr + offset) sz s
            else bindf (load_chunk root rd wr ex vaddr (ehdr + offset) 2048 s)
                   (load_segment root ehdr rd wr ex (sz - 2048) (offset + 2048) (vaddr + 2048)))
      else Inr s)"
  by pat_completeness auto
termination
  by (relation "measure (\<lambda>(root, ehdr, rd, wr, ex, sz, offset, vaddr, s). unat sz)")
    (auto simp: word_less_nat_alt unat_sub word_le_nat_alt)

declare load_segment.simps [simp del]

definition load_header :: "u64 \<Rightarrow> u64 \<Rightarrow> u64 \<Rightarrow> nat \<Rightarrow> kstate \<Rightarrow> unit \<Rightarrow> fault + (kstate \<times> unit)" where
  "load_header root ehdr phdr i s u =
     (let ph = phdr + 56 * of_nat i in
      bindf (kload32 s ph) (\<lambda>p_type.
        if p_type = 1 then
          bindf (kload64 s (ph + 40)) (\<lambda>sz.
          bindf (kload64 s (ph + 8)) (\<lambda>offset.
          bindf (kload64 s (ph + 16)) (\<lambda>vaddr.
          bindf (kload32 s (ph + 4)) (\<lambda>p_flags.
            let rd = (if p_flags = 0 then False else True);
                wr = (drop_bit 1 (p_flags AND 0x2) \<noteq> 0);
                ex = (p_flags AND 0x1 \<noteq> 0)
            in bindf (load_segment root ehdr rd wr ex sz offset vaddr s) (\<lambda>s. Inr (s, u))))))
        else Inr (s, u)))"

subsection \<open>execute_mod\<close>

definition map_user :: "u64 \<Rightarrow> bool \<Rightarrow> kstate \<Rightarrow> fault + kstate" where
  "map_user p usr s = bindf (vm_map (cr3_root s) p usr True False s) (\<lambda>(mapped, s). Inr s)"

definition start_mod :: "u64 \<Rightarrow> kstate \<Rightarrow> fault + (exec_result \<times> kstate)" where
  "start_mod ehdr s =
     bindf (kload64 s (ehdr + 32)) (\<lambda>e_phoff.
       let phdr = ehdr + e_phoff; root = cr3_root s; user_stack = 0x70000000000; user_stack_size = 8 * 2048
       in bindf (steps_below (\<lambda>s. kload16 s (ehdr + 56)) (load_header root ehdr phdr) 0 s ()) (\<lambda>(s, u).
          bindf (foldf (\<lambda>k. map_user (user_stack + k * 0x1000) True) [0, 1, 2, 3] s) (\<lambda>s.
          bindf (map_user 0x400000000 True s) (\<lambda>s.
          bindf (map_user 0x400001800 False s) (\<lambda>s.
          bindf (kload64 s (ehdr + 24)) (\<lambda>e_entry.
          Inr (UserMode (0x40 OR 3) (user_stack + user_stack_size - 8) (0x38 OR 3) e_entry, s)))))))"

function execute_loop :: "u64 \<Rightarrow> u64 \<Rightarrow> nat \<Rightarrow> kstate \<Rightarrow> fault + (exec_result \<times> kstate)" where
  "execute_loop tag md i s =
     bindf (kload64 s (tag + 16)) (\<lambda>count.
       if of_nat i < count
       then bindf (my_strcmp (mem s) (module_addr tag i + 16) md) (\<lambda>r.
              if r \<noteq> 0
              then (if i < INT_MAX then execute_loop tag md (i + 1) s else Inl Undefined)
              else bindf (kload64 s (module_addr tag i)) (\<lambda>ehdr. start_mod ehdr s))
       else Inr (NotFound, s))"
  by pat_completeness auto
termination
  by (relation "measure (\<lambda>(tag, md, i, s). INT_MAX - i)") auto

declare execute_loop.simps [simp del]

text \<open>The name in the message is read where the program that calls keeps it.\<close>

definition execute_mod :: "u64 \<Rightarrow> u64 \<Rightarrow> u8 list \<Rightarrow> kstate \<Rightarrow> term_t \<Rightarrow> fault + (exec_result \<times> kstate \<times> term_t)" where
  "execute_mod tag md name s t =
     bindf (execute_loop tag md 0 s) (\<lambda>(r, s).
       case r of
         NotFound \<Rightarrow> bindf (kprintf (line ''Error: Couldn't find %s'') [StrArg name] t) (\<lambda>t. Inr (NotFound, s, t))
       | UserMode ss sp cs ip \<Rightarrow> Inr (r, s, t))"

end
