(* ===== verification/Loader.thy ===== *)
theory Loader
  imports Proc Paging_Props
begin

text \<open>
  That \<open>execute_mod\<close>'s loading of a segment does what a loader should, for a segment of one chunk:
  a fresh page, the bytes of the file at the place the program expects them, zeros around them, and
  the rights of the program header. The steps are the properties of \<open>vm_map\<close> and \<open>vm_protect\<close>, and
  that writing to a mapped page disturbs neither the page tables nor the pool (\<open>page_write_ok\<close>).
\<close>

subsection \<open>Writing to a mapped page\<close>

text \<open>The states differ in the bytes of the frame \<open>f\<close> only.\<close>

definition page_written :: "u64 \<Rightarrow> kstate \<Rightarrow> kstate \<Rightarrow> bool" where
  "page_written f s s' \<longleftrightarrow> hhdm s' = hhdm s \<and> cr3 s' = cr3 s \<and> cr0_wp s' = cr0_wp s
     \<and> free_list s' = free_list s
     \<and> (\<forall>a. \<not> a - (f + hhdm s) < 4096 \<longrightarrow> mem s' a = mem s a)"

lemma page_written_mem: "(\<And>a. \<not> a - (f + hhdm s) < 4096 \<Longrightarrow> m a = mem s a) \<Longrightarrow> page_written f s (s\<lparr>mem := m\<rparr>)"
  by (simp add: page_written_def)

lemma page_written_pte:
  assumes "page_written f s s'" "page_aligned t" "page_aligned f" "page_aligned (hhdm s)" "t \<noteq> f" "i < 512"
  shows "pte_at s' t i = pte_at s t i"
proof -
  have "load64 (mem s') (slot (t + hhdm s) i) = load64 (mem s) (slot (t + hhdm s) i)"
  proof (rule load64_cong)
    fix j :: u64 assume "j < 8"
    then have "\<not> slot (t + hhdm s) i + j - (f + hhdm s) < 4096"
      using slot_in_page [of "t + hhdm s" i j "f + hhdm s"] assms by simp
    then show "mem s' (slot (t + hhdm s) i + j) = mem s (slot (t + hhdm s) i + j)"
      using assms(1) by (simp add: page_written_def)
  qed
  then show ?thesis using assms(1) by (simp add: pte_at_def get_pte_def page_written_def)
qed

lemma page_written_table:
  assumes "space_ok s root ps" "upath is" "length is = 4" "table s root is = Some f"
    and "page_written f s s'" "upath js"
  shows "table s' root js = table s root js"
  using assms(6)
proof (induction js rule: rev_induct)
  case (snoc j js)
  have up: "upath js" "j < 512" "length js \<le> 3" using upath_snocD [OF snoc.prems] by simp_all
  have "pte_at s' t j = pte_at s t j" if "table s root js = Some t" for t
  proof -
    have "t \<noteq> f" using space_okD(5) [OF assms(1) up(1) assms(2) that] assms(3,4) up(3) by auto
    then show ?thesis
      using page_written_pte [OF assms(5) space_okD(8) [OF assms(1) that] space_okD(8) [OF assms(1,4)] space_okD(4) [OF assms(1)]] up(2)
      by blast
  qed
  then show ?case using snoc.IH [OF up(1)] by (simp add: table_snoc split: option.split)
qed simp

lemma page_written_ok:
  assumes "space_ok s root ps" "upath is" "length is = 4" "table s root is = Some f" "page_written f s s'"
  shows "space_ok s' root ps"
    and "va < 2 ^ 47 \<Longrightarrow> lookup s' root va = lookup s root va"
    and "va < 2 ^ 47 \<Longrightarrow> walk s' root va = walk s root va"
proof -
  note tab = page_written_table [OF assms]
  have h: "hhdm s' = hhdm s" using assms(5) by (simp add: page_written_def)
  have al: "page_aligned f" "page_aligned (hhdm s)"
    using space_okD(8) [OF assms(1,4)] space_okD(4) [OF assms(1)] by simp_all
  have pte: "pte_at s' t i = pte_at s t i" if "upath (js @ [i])" "table s root js = Some t" for js t i
  proof -
    have js: "upath js" "i < 512" "length js \<le> 3" using upath_snocD [OF that(1)] by simp_all
    have "t \<noteq> f" using space_okD(5) [OF assms(1) js(1) assms(2) that(2)] assms(3,4) js(3) by auto
    then show ?thesis
      using page_written_pte [OF assms(5) space_okD(8) [OF assms(1) that(2)] al] js(2) by blast
  qed
  have "pool s' ps"
  proof (rule pool_cong [OF space_okD(1) [OF assms(1)] h])
    show "free_list s' = free_list s" using assms(5) by (simp add: page_written_def)
    fix p assume p: "p \<in> set ps"
    have "p \<noteq> f" using space_okD(6) [OF assms(1,2,4)] p by auto
    moreover have "page_aligned p" using pool_frame [OF space_okD(1) [OF assms(1)] p] by (simp add: frame_def)
    ultimately have "pte_at s' p 0 = pte_at s p 0"
      using page_written_pte [OF assms(5) _ al, of p 0] by simp
    then have "pte_encode (pte_at s' p 0) = pte_encode (pte_at s p 0)" by simp
    then show "load64 (mem s') (p + hhdm s) = load64 (mem s) (p + hhdm s)"
      by (simp add: pte_at_def get_pte_def pte_encode_decode slot_0 h)
  qed
  moreover have "plain (pte_at s' t i)" if "upath (js @ [i])" "length js \<le> 2" "table s' root js = Some t" for js t i
    using that tab [of js] pte [of js i t] space_okD(7) [OF assms(1)] upath_snocD by metis
  ultimately show ok: "space_ok s' root ps"
    using assms(1) tab frame_cong [OF h] unfolding space_ok_def by auto
  show l: "va < 2 ^ 47 \<Longrightarrow> lookup s' root va = lookup s root va" for va
  proof -
    assume va: "va < 2 ^ 47"
    have up: "upath (upper va @ [table_index 0 va])" using upath_path [OF va] by (simp add: path_def)
    then show "lookup s' root va = lookup s root va"
      using tab [of "upper va"] pte [OF up] upath_snocD [OF up] by (simp add: lookup_def Let_def split: option.split)
  qed
  show "va < 2 ^ 47 \<Longrightarrow> walk s' root va = walk s root va"
    using l walk_lookup [OF ok] walk_lookup [OF assms(1)] by simp
qed

subsection \<open>Bytes of a page\<close>

lemma byte_of_load64: "i < 8 \<Longrightarrow> ucast (drop_bit (8 * unat i) (load64 m a)) = m (a + i)"
  by (erule lt8_cases) (simp_all, (rule bit_word_eqI, simp add: bit_load64 bits)+)

lemma page_offset:
  assumes "(k :: u64) < 4096"
  obtains j i where "j < 512" "i < 8" "k = j * 8 + i"
proof
  show "k div 8 < 512" "k mod 8 < 8"
    using assms by (simp_all add: word_less_nat_alt unat_div_distrib unat_mod_distrib)
  show "k = k div 8 * 8 + k mod 8" by (rule div_mult_mod_eq [symmetric])
qed

lemma same_ptes_same_bytes:
  assumes "\<And>j. j < 512 \<Longrightarrow> pte_at s' u j = pte_at s u j" "hhdm s' = hhdm s" "k < 4096"
  shows "mem s' (u + hhdm s + k) = mem s (u + hhdm s + k)"
proof -
  obtain j i where ji: "j < 512" "i < 8" "k = j * 8 + i" by (rule page_offset [OF assms(3)])
  have "pte_encode (pte_at s' u j) = pte_encode (pte_at s u j)" using assms(1) ji(1) by simp
  then have "load64 (mem s') (slot (u + hhdm s) j) = load64 (mem s) (slot (u + hhdm s) j)"
    by (simp add: pte_at_def get_pte_def pte_encode_decode assms(2))
  then show ?thesis
    using byte_of_load64 [OF ji(2), of "mem s'" "slot (u + hhdm s) j"] byte_of_load64 [OF ji(2), of "mem s" "slot (u + hhdm s) j"]
    by (simp add: slot_def ji(3) add.assoc)
qed

lemma zero_ptes_zero_bytes:
  assumes "\<And>j. j < 512 \<Longrightarrow> pte_at s u j = pte_decode 0" "k < 4096"
  shows "mem s (u + hhdm s + k) = 0"
proof -
  obtain j i where ji: "j < 512" "i < 8" "k = j * 8 + i" by (rule page_offset [OF assms(2)])
  have "load64 (mem s) (slot (u + hhdm s) j) = 0"
    using assms(1) [OF ji(1)] by (intro load64_of_pte) (simp add: pte_at_def)
  then show ?thesis
    using byte_of_load64 [OF ji(2), of "mem s" "slot (u + hhdm s) j"] by (simp add: slot_def ji(3) add.assoc)
qed

subsection \<open>What vm_map leaves alone\<close>

lemma vm_map_zeroed_other:
  assumes "pool s ps" "n \<le> length ps" "page_aligned t" "t \<notin> set ps" "\<And>j. j < 512 \<Longrightarrow> pte_at s t j = pte_decode 0"
    and "page_aligned u" "u \<noteq> t" "u \<notin> set ps" "j < 512"
    and "vm_map_loop n va usr wr ex t s = Inr (b, s')"
  shows "pte_at s' u j = pte_at s u j"
  using assms
proof (induction n arbitrary: s ps t)
  case (Suc n)
  obtain p qs where ps: "ps = p # qs" using Suc.prems(2) by (cases ps) auto
  have np: "\<not> pte_present (pte_at s t (table_index n va))" using Suc.prems(5) by simp
  obtain s3 e' where s3: "vm_map_loop (Suc n) va usr wr ex t s = vm_map_loop n va usr wr ex p s3"
    "pool s3 qs" "\<And>v k. page_aligned v \<Longrightarrow> k < 512 \<Longrightarrow> pte_at s3 v k =
      (if v = p then pte_decode 0 else if v = t \<and> k = table_index n va then e' else pte_at s v k)"
    using vm_map_loop_fresh [OF Suc.prems(1) [unfolded ps] Suc.prems(3) Suc.prems(4) [unfolded ps] np] by metis
  have p: "page_aligned p" "p \<notin> set qs" using Suc.prems(1) by (simp_all add: ps pool_def frame_def)
  have "pte_at s' u j = pte_at s3 u j"
  proof (rule Suc.IH)
    show "pool s3 qs" "page_aligned p" "p \<notin> set qs" by fact+
    show "vm_map_loop n va usr wr ex p s3 = Inr (b, s')" using Suc.prems(10) s3(1) by simp
  qed (use Suc.prems ps s3(3) p in auto)
  then show ?case using s3(3) [OF Suc.prems(6,9)] Suc.prems(7,8) by (simp add: ps)
qed auto

lemma vm_map_loop_other:
  assumes ok: "space_ok s root ps" and va: "va < 2 ^ 47"
    and u: "page_aligned u" "u \<notin> set ps" "\<And>js. upath js \<Longrightarrow> length js \<le> 3 \<Longrightarrow> table s root js \<noteq> Some u" and j: "j < 512"
  shows "n \<le> 4 \<Longrightarrow> n \<le> length ps \<Longrightarrow> table s root (take (4 - n) (path va)) = Some t \<Longrightarrow>
    vm_map_loop n va usr wr ex t s = Inr (b, s') \<Longrightarrow> pte_at s' u j = pte_at s u j"
proof (induction n arbitrary: t)
  case (Suc n)
  have up: "upath (take (4 - Suc n) (path va))" "upath (take (4 - n) (path va))"
    using upath_take [OF upath_path [OF va]] by simp_all
  have tu: "u \<noteq> t" using u(3) [OF up(1)] Suc.prems(1,3) by (auto simp: path_split)
  show ?case
  proof (cases "pte_present (pte_at s t (table_index n va))")
    case True
    show ?thesis
    proof (cases "n = 0")
      case True
      then show ?thesis
        using \<open>pte_present _\<close> Suc.prems(4) vm_map_loop_mapped [of s t va usr wr ex] by simp
    next
      case False
      have "table s root (take (4 - n) (path va)) = Some (pte_frame (pte_at s t (table_index n va)))"
        using take_path_Suc [of n va] Suc.prems(1,3) \<open>pte_present _\<close> by (simp add: table_snoc numeral_eq_Suc)
      then show ?thesis
        using Suc.IH Suc.prems \<open>pte_present _\<close> vm_map_loop_present [OF _ False, of s t va usr wr ex] by simp
    qed
  next
    case False
    obtain p qs where ps: "ps = p # qs" using Suc.prems(2) by (cases ps) auto
    have pl: "pool s (p # qs)" using space_okD(1) [OF ok] by (simp add: ps)
    have t: "page_aligned t" "t \<notin> set (p # qs)"
      using space_okD(8) [OF ok Suc.prems(3)] space_okD(6) [OF ok up(1) Suc.prems(3)] by (simp_all add: ps)
    obtain s3 e' where s3: "vm_map_loop (Suc n) va usr wr ex t s = vm_map_loop n va usr wr ex p s3"
      "pool s3 qs" "\<And>v k. page_aligned v \<Longrightarrow> k < 512 \<Longrightarrow> pte_at s3 v k =
        (if v = p then pte_decode 0 else if v = t \<and> k = table_index n va then e' else pte_at s v k)"
      using vm_map_loop_fresh [OF pl t False] by metis
    have p: "page_aligned p" "p \<notin> set qs" using pl by (simp_all add: pool_def frame_def)
    have "pte_at s' u j = pte_at s3 u j"
    proof (rule vm_map_zeroed_other [OF s3(2) _ p])
      show "vm_map_loop n va usr wr ex p s3 = Inr (b, s')" using Suc.prems(4) s3(1) by simp
    qed (use Suc.prems ps s3(3) p u j in auto)
    then show ?thesis using s3(3) [OF u(1) j] tu u(2) by (simp add: ps)
  qed
qed auto

text \<open>A byte that belongs to no free page and to no page of the address space.\<close>

definition foreign :: "kstate \<Rightarrow> u64 \<Rightarrow> u64 list \<Rightarrow> u64 \<Rightarrow> bool" where
  "foreign s root ps a \<longleftrightarrow> high a \<and> (\<exists>u k. a = u + hhdm s + k \<and> k < 4096 \<and> page_aligned u \<and> u \<notin> set ps
     \<and> (\<forall>js. upath js \<longrightarrow> table s root js \<noteq> Some u))"

lemma vm_map_foreign:
  assumes "space_ok s root ps" "va < 2 ^ 47" "4 \<le> length ps" "foreign s root ps a"
    and "vm_map root va usr wr ex s = Inr (b, s')" "hhdm s' = hhdm s"
  shows "mem s' a = mem s a"
proof -
  obtain u k where u: "a = u + hhdm s + k" "k < 4096" "page_aligned u" "u \<notin> set ps"
    "\<And>js. upath js \<Longrightarrow> table s root js \<noteq> Some u" using assms(4) by (auto simp: foreign_def)
  have "pte_at s' u j = pte_at s u j" if "j < 512" for j
    using vm_map_loop_other [OF assms(1) page_of_less [OF assms(2)] u(3-5) that, of 4 root usr wr ex b s'] assms(3,5)
    by (simp add: vm_map_def page_of_def)
  from same_ptes_same_bytes [OF this assms(6) u(2)] show ?thesis by (simp add: u(1))
qed

subsection \<open>Copying into a mapped page\<close>

definition copied :: "u64 \<Rightarrow> u64 \<Rightarrow> u64 \<Rightarrow> mem \<Rightarrow> mem" where
  "copied dest src n m = (\<lambda>a. if a - dest < n then m (src + (a - dest)) else m a)"

lemma copied_step:
  assumes "p < sz" shows "(copied d src p m)(d + p := m (src + p)) = copied d src (p + 1) m"
proof
  fix a
  have "a - d < p + 1 \<longleftrightarrow> a - d < p \<or> a - d = p" using assms by unat_arith
  then show "((copied d src p m)(d + p := m (src + p))) a = copied d src (p + 1) m a"
    by (auto simp: copied_def)
qed

lemma kmemcpy_page:
  assumes src: "\<And>k. k < sz \<Longrightarrow> high (src + k) \<and> \<not> src + k - (f + hhdm s) < 4096"
    and off: "\<And>k. k < sz \<Longrightarrow> off + k < 4096"
    and dest: "\<And>s' k. page_written f s s' \<Longrightarrow> k < sz \<Longrightarrow> kresolve True s' (va + k) = Inr (f + hhdm s + off + k)"
  shows "kmemcpy va src sz s = Inr (s\<lparr>mem := copied (f + hhdm s + off) src sz (mem s)\<rparr>)"
proof -
  let ?d = "f + hhdm s + off"
  let ?M = "\<lambda>p. copied ?d src p (mem s)"
  have inside: "a - (f + hhdm s) < 4096" if "a - ?d < p" "p \<le> sz" for a p
  proof -
    have "off + (a - ?d) < 4096" using that by (intro off) (rule less_le_trans)
    moreover have "off + (a - ?d) = a - (f + hhdm s)" by simp
    ultimately show ?thesis by simp
  qed
  have "kmemcpy_loop va src sz p (s\<lparr>mem := ?M p\<rparr>) = Inr (s\<lparr>mem := ?M sz\<rparr>)" if "p \<le> sz" for p
    using that
  proof (induction "unat (sz - p)" arbitrary: p)
    case 0
    then have "p = sz" by (simp add: unat_eq_zero)
    then show ?case by (simp add: kmemcpy_loop.simps)
  next
    case (Suc n)
    then have p: "p < sz" by (metis diff_self le_neq_trans nat.distinct(1) unat_0)
    have w: "page_written f s (s\<lparr>mem := ?M p\<rparr>)"
      by (rule page_written_mem) (use inside p less_imp_le in \<open>fastforce simp: copied_def\<close>)
    have "\<not> src + p - ?d < p" using src [OF p] inside [of "src + p" p] p by (meson less_imp_le)
    then have "?M p (src + p) = mem s (src + p)" by (simp only: copied_def if_False)
    moreover have "n = unat (sz - (p + 1))" "p + 1 \<le> sz"
      using Suc.hyps(2) p by unat_arith+
    ultimately show ?case
      using Suc.hyps(1) [of "p + 1"] p src [OF p] dest [OF w p] copied_step [OF p, of ?d src "mem s"]
      by (subst kmemcpy_loop.simps) (simp del: fun_upd_apply)
  qed
  from this [of 0] show ?thesis by (simp add: kmemcpy_def copied_def)
qed

subsection \<open>Addresses inside the page of the segment\<close>

lemma page_of_split: "page_aligned (page_of va)" "va = page_of va + take_bit 12 va" "drop_bit 12 (page_of va) = drop_bit 12 va"
proof -
  have eq: "page_of va = push_bit 12 (drop_bit 12 va)"
    by (rule bit_word_eqI) (simp only: page_of_def bit_and_iff bit_page_mask, auto simp: bits)
  then show "page_aligned (page_of va)" by (auto simp: page_aligned_iff)
  show "va = page_of va + take_bit 12 va" unfolding eq by (rule bits_ident [symmetric])
  show "drop_bit 12 (page_of va) = drop_bit 12 va" unfolding eq by (rule bit_word_eqI) (auto simp: bits dest: bit_imp_le_length)
qed

lemma less_2_47: "(x :: u64) < 2 ^ 47 \<longleftrightarrow> drop_bit 47 x = 0"
  by (simp add: drop_bit_eq_div word_unat_eq_iff unat_div_distrib word_less_nat_alt div_eq_0_iff)

lemma in_page_add:
  assumes "(va :: u64) < 2 ^ 47" "take_bit 12 va + k < 4096"
  shows "va + k < 2 ^ 47" "drop_bit 12 (va + k) = drop_bit 12 va" "take_bit 12 (va + k) = take_bit 12 va + k"
proof -
  have eq: "va + k = page_of va + (take_bit 12 va + k)"
    using page_of_split(2) [of va] by (metis add.assoc)
  show d: "drop_bit 12 (va + k) = drop_bit 12 va" "take_bit 12 (va + k) = take_bit 12 va + k"
    using aligned_add [OF page_of_split(1) [of va] assms(2)] page_of_split(3) [of va] by (simp_all only: eq)
  have "drop_bit 47 x = drop_bit 35 (drop_bit 12 x)" for x :: u64 by (simp add: drop_bit_drop_bit)
  then show "va + k < 2 ^ 47" using assms(1) d(1) by (simp only: less_2_47)
qed

lemma offsets_fit:
  assumes "unat (take_bit 12 va) + unat sz \<le> 4096" "k < sz"
  shows "take_bit 12 va + k < (4096 :: u64)"
  using assms by (simp add: word_less_nat_alt unat_word_ariths)

subsection \<open>A segment of one chunk\<close>

lemma load_chunk_fresh:
  assumes ok: "space_ok s root ps" and root: "root = cr3_root s" and va: "va < 2 ^ 47" and len: "4 \<le> length ps"
    and none: "walk s root va = None" and fits: "unat (take_bit 12 va) + unat sz \<le> 4096"
    and src: "\<And>k. k < sz \<Longrightarrow> foreign s root ps (src + k)"
  obtains s' f n where "load_chunk root rd wr ex va src sz s = Inr s'" "space_ok s' root (drop n ps)" "f \<in> set ps"
    "\<And>va'. va' < 2 ^ 47 \<Longrightarrow> walk s' root va' = (if drop_bit 12 va' = drop_bit 12 va
       then Some (f + take_bit 12 va', \<lparr>may_user = rd, may_write = wr, may_exec = ex\<rparr>) else walk s root va')"
    "\<And>k. k < 4096 \<Longrightarrow> mem s' (f + hhdm s + k) =
       (if k - take_bit 12 va < sz then mem s (src + (k - take_bit 12 va)) else 0)"
proof -
  have nl: "lookup s root va = None" using none by (simp add: walk_lookup [OF ok va])
  obtain s1 i where s1: "vm_map root va True True True s = Inr (True, s1)" "i < 4" "space_ok s1 root (drop (Suc i) ps)"
    "same_rest s s1" "maps_page s root va True True True (ps ! i) s1" "\<And>j. j < 512 \<Longrightarrow> pte_at s1 (ps ! i) j = pte_decode 0"
    using vm_map_spec [OF ok va len, of True True True] nl by auto
  define f where "f = ps ! i"
  have f: "f \<in> set ps" using s1(2) len by (simp add: f_def)
  have h: "hhdm s1 = hhdm s" and r1: "root = cr3_root s1"
    using s1(4) root by (simp_all add: same_rest_def cr3_root_def)
  obtain e where e: "lookup s1 root va = Some e" "pte_frame e = f"
    using s1(5) va by (auto simp: maps_page_def f_def)
  then have leaf: "table s1 root (path va) = Some f" by (simp add: table_path_lookup)
  have p4: "length (path va) = 4" by (simp add: path_def upper_def)
  have walk1: "walk s1 root va' = (if drop_bit 12 va' = drop_bit 12 va
      then Some (f + take_bit 12 va', all_rights) else walk s root va')" if "va' < 2 ^ 47" for va'
    using maps_page_walk [OF ok s1(3,5) va that] by (simp add: f_def all_rights_def)
  have src1: "mem s1 (src + k) = mem s (src + k)" "high (src + k)" "\<not> src + k - (f + hhdm s) < 4096" if k: "k < sz" for k
  proof -
    show "mem s1 (src + k) = mem s (src + k)"
      by (rule vm_map_foreign [OF ok va len src [OF k] s1(1) h])
    show "high (src + k)" using src [OF k] by (simp add: foreign_def)
    obtain u o' where u: "src + k = u + hhdm s + o'" "o' < 4096" "page_aligned u" "u \<notin> set ps"
      using src [OF k] by (auto simp: foreign_def)
    have al: "page_aligned f" "page_aligned (hhdm s)"
      using pool_frame [OF space_okD(1) [OF ok] f] space_okD(4) [OF ok] by (simp_all add: frame_def)
    show "\<not> src + k - (f + hhdm s) < 4096"
    proof
      assume less: "src + k - (f + hhdm s) < 4096"
      have "u + hhdm s + o' = f + hhdm s + (src + k - (f + hhdm s))" by (simp add: u(1))
      with aligned_add_eq [of "u + hhdm s" o' "f + hhdm s" "src + k - (f + hhdm s)"] u(2,3) al less have "u = f" by simp
      with u(4) f show False by simp
    qed
  qed
  have res: "kresolve True s' (va + k) = Inr (f + hhdm s1 + take_bit 12 va + k)"
    if w: "page_written f s1 s'" and k: "k < sz" for s' k
  proof -
    note a = in_page_add [OF va offsets_fit [OF fits k]]
    have "walk s' root (va + k) = Some (f + (take_bit 12 va + k), all_rights)"
      using page_written_ok(3) [OF s1(3) upath_path [OF va] p4 leaf w a(1)] walk1 [OF a(1)] a by simp
    moreover have "\<not> 0xffff800000000000 \<le> va + k" using a(1) by unat_arith
    ultimately show ?thesis
      using w r1 a(1) by (simp add: kresolve_def page_written_def cr3_root_def all_rights_def)
  qed
  let ?s2 = "s1\<lparr>mem := copied (f + hhdm s1 + take_bit 12 va) src sz (mem s1)\<rparr>"
  have cp: "kmemcpy va src sz s1 = Inr ?s2"
    by (rule kmemcpy_page [OF _ _ res]) (use src1 offsets_fit [OF fits] h in auto)
  have w2: "page_written f s1 ?s2"
  proof (rule page_written_mem)
    fix a assume out: "\<not> a - (f + hhdm s1) < 4096"
    have "\<not> a - (f + hhdm s1 + take_bit 12 va) < sz"
    proof
      assume "a - (f + hhdm s1 + take_bit 12 va) < sz"
      from offsets_fit [OF fits this] have "take_bit 12 va + (a - (f + hhdm s1 + take_bit 12 va)) < 4096" .
      moreover have "take_bit 12 va + (a - (f + hhdm s1 + take_bit 12 va)) = a - (f + hhdm s1)" by simp
      ultimately show False using out by (simp only:)
    qed
    then show "copied (f + hhdm s1 + take_bit 12 va) src sz (mem s1) a = mem s1 a" by (simp add: copied_def)
  qed
  note ok2 = page_written_ok [OF s1(3) upath_path [OF va] p4 leaf w2]
  have e2: "lookup ?s2 root va = Some e" using ok2(2) [OF va] e(1) by simp
  then obtain t where t: "table ?s2 root (upper va) = Some t" "pte_present (pte_at ?s2 t (table_index 0 va))"
    by (auto simp: lookup_def Let_def split: option.splits if_splits)
  obtain s3 where s3: "vm_protect root va rd wr ex ?s2 = (True, s3)" "space_ok s3 root (drop (Suc i) ps)"
    "\<And>va'. va' < 2 ^ 47 \<Longrightarrow> lookup s3 root va' = (if path va' = path va then Some (set_rights e rd wr ex) else lookup ?s2 root va')"
    by (rule vm_protect_spec [OF ok2(1) va e2, of rd wr ex]) blast
  let ?s3 = "?s2\<lparr>mem := set_pte (mem ?s2) (slot (t + hhdm ?s2) (table_index 0 va))
      (set_rights (pte_at ?s2 t (table_index 0 va)) rd wr ex)\<rparr>"
  have s3': "s3 = invalidate_tlb va ?s3"
    using s3(1) vm_protect_mapped [OF t, of rd wr ex] by simp
  have leaf2: "table ?s2 root (path va) = Some f" using e2 e(2) by (simp add: table_path_lookup)
  have "f \<noteq> t"
    using space_okD(5) [OF ok2(1) upath_path [OF va] _ leaf2, of "upper va"] t(1) upath_path [OF va]
      upath_snocD [of "upper va" "table_index 0 va"] by (auto simp: path_def)
  have af: "page_aligned f" by (rule space_okD(8) [OF ok2(1) leaf2])
  have "pte_at s3 f j = pte_at ?s2 f j" if "j < 512" for j
    using leaf_write(1) [OF ok2(1) va t(1), of "set_rights (pte_at ?s2 t (table_index 0 va)) rd wr ex"]
      af that \<open>f \<noteq> t\<close> t(1) unfolding s3' by (auto simp: leaf_changed_def)
  then have bytes: "mem s3 (f + hhdm s + k) = mem ?s2 (f + hhdm s + k)" if "k < 4096" for k
    using same_ptes_same_bytes [of s3 f ?s2 k] that h by (simp add: s3' invalidate_tlb_def)
  show thesis
  proof (rule that [OF _ s3(2) f])
    show "load_chunk root rd wr ex va src sz s = Inr s3"
      by (simp add: load_chunk_def s1(1) cp s3(1))
    show "walk s3 root va' = (if drop_bit 12 va' = drop_bit 12 va
       then Some (f + take_bit 12 va', \<lparr>may_user = rd, may_write = wr, may_exec = ex\<rparr>) else walk s root va')"
      if "va' < 2 ^ 47" for va'
      using walk_lookup [OF s3(2) that] s3(3) [OF that] ok2(2) [OF that] walk1 [OF that] walk_lookup [OF s1(3) that]
        same_page_path [OF va that] e(2) by auto
    show "mem s3 (f + hhdm s + k) = (if k - take_bit 12 va < sz then mem s (src + (k - take_bit 12 va)) else 0)"
      if "k < 4096" for k
    proof -
      have "mem s1 (f + hhdm s1 + k) = 0"
        by (rule zero_ptes_zero_bytes [OF _ that]) (simp add: f_def s1(6))
      then show ?thesis
        using bytes [OF that] src1(1) [of "k - take_bit 12 va"] by (simp add: copied_def h add.assoc add_diff_eq)
    qed
  qed
qed

text \<open>
  Loading a segment of less than 2048 bytes that lies in one page the program has not mapped yet.
  When it returns, the page is mapped to a frame \<open>f\<close> of the pool with the rights asked for; the frame
  holds the bytes of the file at the offset the program addresses them by, and zeros elsewhere; every
  other page is mapped as before, and the address space is well formed with the rest of the pool.
\<close>

theorem load_segment_page:
  assumes "space_ok s root ps" "root = cr3_root s" "va < 2 ^ 47" "4 \<le> length ps" "walk s root va = None"
    and "0 < sz" "sz < 2048" "unat (take_bit 12 va) + unat sz \<le> 4096"
    and "\<And>k. k < sz \<Longrightarrow> foreign s root ps (ehdr + offset + k)"
  shows "\<exists>s' f n. load_segment root ehdr rd wr ex sz offset va s = Inr s'
    \<and> space_ok s' root (drop n ps) \<and> f \<in> set ps
    \<and> (\<forall>va' < 2 ^ 47. walk s' root va' = (if drop_bit 12 va' = drop_bit 12 va
         then Some (f + take_bit 12 va', \<lparr>may_user = rd, may_write = wr, may_exec = ex\<rparr>) else walk s root va'))
    \<and> (\<forall>k < 4096. mem s' (f + hhdm s + k) =
         (if k - take_bit 12 va < sz then mem s (ehdr + offset + (k - take_bit 12 va)) else 0))"
proof -
  have eq: "load_segment root ehdr rd wr ex sz offset va s = load_chunk root rd wr ex va (ehdr + offset) sz s"
    using assms(6,7) by (simp add: load_segment.simps)
  show ?thesis
    unfolding eq by (rule load_chunk_fresh [OF assms(1-5,8), of "ehdr + offset" rd wr ex]) (use assms(9) in blast)+
qed

lemma load_segment_page_witness:
  "\<exists>s' f. load_segment 0x1000 0xffffffff80100000 True False True 16 0x80 0x400100 sample = Inr s'
    \<and> walk s' 0x1000 0x400100 = Some (f + 0x100, \<lparr>may_user = True, may_write = False, may_exec = True\<rparr>)
    \<and> mem s' (f + sample_hhdm + 0x10F) = mem sample 0xffffffff8010008F"
proof -
  have src: "foreign sample 0x1000 sample_frames (0xffffffff80100000 + 0x80 + k)" if k: "k < 16" for k
  proof -
    have "high (0xffffffff80100000 + 0x80 + k)"
      using k by (simp add: high_def word_le_nat_alt word_less_nat_alt unat_word_ariths)
    moreover have "0x80 + k < 4096" using k by (simp add: word_less_nat_alt unat_word_ariths)
    moreover have "page_aligned 0x7FFF80100000" "0x7FFF80100000 \<notin> set sample_frames"
      by (simp_all add: page_aligned_def take_bit_eq_mod sample_frames_def)
    moreover have "table sample 0x1000 js \<noteq> Some 0x7FFF80100000" if "upath js" for js
      by (simp add: sample_table [OF that])
    moreover have "0xffffffff80100000 + 0x80 + k = 0x7FFF80100000 + hhdm sample + (0x80 + k)"
      by (simp add: sample_def sample_hhdm_def)
    ultimately show ?thesis unfolding foreign_def by blast
  qed
  have va: "take_bit 12 (0x400100 :: u64) = 0x100" by (simp add: take_bit_eq_mod)
  have r: "0x1000 = cr3_root sample" by (simp add: cr3_root_def sample_def)
  obtain s' f n where s': "load_segment 0x1000 0xffffffff80100000 True False True 16 0x80 0x400100 sample = Inr s'"
    "\<forall>va' < 2 ^ 47. walk s' 0x1000 va' = (if drop_bit 12 va' = drop_bit 12 0x400100
         then Some (f + take_bit 12 va', \<lparr>may_user = True, may_write = False, may_exec = True\<rparr>) else walk sample 0x1000 va')"
    "\<forall>k < 4096. mem s' (f + hhdm sample + k) =
         (if k - take_bit 12 0x400100 < 16 then mem sample (0xffffffff80100000 + 0x80 + (k - take_bit 12 0x400100)) else 0)"
    using load_segment_page [OF sample_space r, of "0x400100" 16 "0xffffffff80100000" "0x80" True False True] src
    by (auto simp: sample_frames_def sample_walk va)
  have "walk s' 0x1000 0x400100 = Some (f + 0x100, \<lparr>may_user = True, may_write = False, may_exec = True\<rparr>)"
    using s'(2) va by simp
  moreover have "mem s' (f + sample_hhdm + 0x10F) = mem sample 0xffffffff8010008F"
    using s'(3) [rule_format, of "0x10F"] by (simp add: va sample_def)
  ultimately show ?thesis using s'(1) by blast
qed

end
