(* ===== verification/Syscall.thy ===== *)
theory Syscall
  imports Sysio Loader Teardown
begin

text \<open>
  \<open>syscall_handler\<close> of \<open>kernel/idt.c\<close>: the five calls, dispatched on the number in \<open>rax\<close>.
  The addresses the linker and the bootloader fix are the fields of \<open>links\<close>: the modules tag, the
  literal \<open>"init"\<close>, and the array \<open>copy\<close> in the frame of the handler. The call returns a value, or
  the processor is in user mode at the entry point of a program and the kernel's call is gone.
\<close>

record links =
  mods :: u64
  init_name :: u64
  copy :: u64

datatype outcome = Return u64 | EnterUser u64 u64 u64 u64

subsection \<open>mmap\<close>

definition sys_mmap :: "u64 \<Rightarrow> kstate \<Rightarrow> fault + kstate" where
  "sys_mmap arg0 s =
     bindf (vm_map (read_cr3 s) (v_heap s) True True True s) (\<lambda>(mapped, s).
     bindf (kstore64 arg0 (v_heap s) s) (\<lambda>s.
     Inr (s\<lparr>v_heap := v_heap s + 2048\<rparr>)))"

subsection \<open>exec\<close>

text \<open>
  \<open>strcpy(copy, name)\<close> of \<open>stdlib/mystring.c\<close>, from the user's memory into the 20 bytes of \<open>copy\<close>: a
  byte past the array is undefined behaviour.
\<close>

function copy_loop :: "u64 \<Rightarrow> u64 \<Rightarrow> nat \<Rightarrow> kstate \<Rightarrow> fault + (nat \<times> kstate)" where
  "copy_loop buf src i s =
     bindf (kload8 s (src + of_nat i)) (\<lambda>c.
       if c \<noteq> 0
       then (if i < 20 then bindf (kstore8 (buf + of_nat i) c s) (copy_loop buf src (i + 1)) else Inl Undefined)
       else Inr (i, s))"
  by pat_completeness auto
termination
  by (relation "measure (\<lambda>(buf, src, i, s). 20 - i)") auto

declare copy_loop.simps [simp del]

definition copy_name :: "u64 \<Rightarrow> u64 \<Rightarrow> kstate \<Rightarrow> fault + kstate" where
  "copy_name buf src s =
     bindf (copy_loop buf src 0 (s\<lparr>mem := memset buf 20 (mem s)\<rparr>)) (\<lambda>(i, s).
       if i + 1 < 20 then kstore8 (buf + of_nat (i + 1)) 0 s else Inl Undefined)"

text \<open>The bytes of \<open>copy\<close>, for the message of \<open>execute_mod\<close>.\<close>

definition name_bytes :: "u64 \<Rightarrow> kstate \<Rightarrow> u8 list" where
  "name_bytes a s = map (\<lambda>i. mem s (a + of_nat i)) [0..<20]"

definition run_init :: "links \<Rightarrow> kstate \<Rightarrow> world \<Rightarrow> fault + (outcome \<times> world)" where
  "run_init lk s w =
     bindf (execute_mod (mods lk) (init_name lk) (str ''init'') s (screen w)) (\<lambda>(r, s, t).
       Inr (case r of UserMode ss sp cs ip \<Rightarrow> EnterUser ss sp cs ip | NotFound \<Rightarrow> Return 123,
            w\<lparr>machine := s, screen := t\<rparr>))"

definition sys_exec :: "links \<Rightarrow> u64 \<Rightarrow> world \<Rightarrow> fault + (outcome \<times> world)" where
  "sys_exec lk arg0 w =
     bindf (copy_name (copy lk) arg0 (machine w)) (\<lambda>s.
     bindf (check_mod (mods lk) (copy lk) s) (\<lambda>r.
       if r <s 0 then Inr (Return (- 1), w\<lparr>machine := s\<rparr>)
       else (let s = unmap_lower_half (read_cr3 s) s in
         bindf (execute_mod (mods lk) (copy lk) (name_bytes (copy lk) s) s (screen w)) (\<lambda>(r, s, t).
           case r of
             UserMode ss sp cs ip \<Rightarrow> Inr (EnterUser ss sp cs ip, w\<lparr>machine := s, screen := t\<rparr>)
           | NotFound \<Rightarrow> run_init lk s (w\<lparr>machine := s, screen := t\<rparr>)))))"

subsection \<open>The handler\<close>

definition syscall_handler :: "links \<Rightarrow> u64 \<Rightarrow> u64 \<Rightarrow> u64 \<Rightarrow> u64 \<Rightarrow> world \<Rightarrow> fault + (outcome \<times> world)" where
  "syscall_handler lk nr arg0 arg1 arg2 w =
     (if nr = 0 then bindf (syscall_read (ucast arg0) arg1 arg2 w) (\<lambda>(r, w). Inr (Return (scast r), w))
      else if nr = 1 then bindf (syscall_write (ucast arg0) arg1 arg2 w) (\<lambda>(r, w). Inr (Return (scast r), w))
      else if nr = 2 then bindf (sys_mmap arg0 (machine w)) (\<lambda>s. Inr (Return 0, w\<lparr>machine := s\<rparr>))
      else if nr = 3 then sys_exec lk arg0 w
      else if nr = 4 then
        bindf (kprintf (line ''Never gets here'') [] (screen w)) (\<lambda>t.
          run_init lk (unmap_lower_half (read_cr3 (machine w)) (machine w)) (w\<lparr>screen := t\<rparr>))
      else Inr (Return 123, w))"

text \<open>How a successful call splits into its cases.\<close>

lemma outcome_Inr:
  "(case r of Return v \<Rightarrow> f v | EnterUser a b c d \<Rightarrow> g a b c d) = Inr y
    \<longleftrightarrow> (\<exists>v. r = Return v \<and> f v = Inr y) \<or> (\<exists>a b c d. r = EnterUser a b c d \<and> g a b c d = Inr y)"
  by (cases r) auto

lemma exec_result_Inr:
  "(case r of NotFound \<Rightarrow> f | UserMode a b c d \<Rightarrow> g a b c d) = Inr y
    \<longleftrightarrow> r = NotFound \<and> f = Inr y \<or> (\<exists>a b c d. r = UserMode a b c d \<and> g a b c d = Inr y)"
  by (cases r) auto

end
