(* ===== verification/Userheap.thy ===== *)
theory Userheap
  imports Syscall
begin

text \<open>
  The \<open>mmap\<close> call of \<open>syscall_handler\<close> on a well-formed address space: stores through the page tables
  leave the tree and the pool as they are (\<open>store_word\<close>, \<open>store_byte\<close>), and one call either maps a fresh
  page or finds the page of the heap pointer mapped (\<open>sys_mmap_fresh\<close>, \<open>sys_mmap_mapped\<close>).
\<close>

subsection \<open>Storing a word in a mapped page\<close>

text \<open>An eight-byte variable of the program, in one writable page.\<close>

definition writable :: "kstate \<Rightarrow> u64 \<Rightarrow> u64 \<Rightarrow> bool" where
  "writable s root a \<longleftrightarrow> a < 2 ^ 47 \<and> take_bit 12 a \<le> 4088 \<and> (\<exists>p r. walk s root a = Some (p, r) \<and> may_write r)"

lemma word_page_written:
  assumes off: "off \<le> 4088" and m: "\<And>x. (\<And>j. j < 8 \<Longrightarrow> x \<noteq> f + hhdm s + off + j) \<Longrightarrow> m x = mem s x"
  shows "page_written f s (s\<lparr>mem := m\<rparr>)"
proof (rule page_written_mem)
  fix x assume out: "\<not> x - (f + hhdm s) < 4096"
  have "x \<noteq> f + hhdm s + off + j" if "j < 8" for j
  proof
    assume x: "x = f + hhdm s + off + j"
    have "off + j < 4096" using off that by unat_arith
    then show False using out by (simp add: x)
  qed
  then show "m x = mem s x" by (rule m)
qed

text \<open>An access to a mapped page, also while bytes of the page are being written.\<close>

lemma page_resolve:
  assumes ok: "space_ok s root ps" and root: "root = cr3_root s" and va: "a < 2 ^ 47"
    and e: "lookup s root a = Some e" "pte_writable e" and w: "page_written (pte_frame e) s s'"
    and i: "take_bit 12 a + i < 4096"
  shows "kresolve wr s' (a + i) = Inr (pte_frame e + hhdm s + take_bit 12 a + i)"
proof -
  have leaf: "table s root (path a) = Some (pte_frame e)" by (simp add: table_path_lookup e)
  have p4: "length (path a) = 4" by (simp add: path_def upper_def)
  note n = in_page_add [OF va i]
  have "lookup s root (a + i) = Some e"
    using e(1) same_page_path [OF va n(1)] n(2) lookup_path_cong [of "a + i" a] by simp
  then have "walk s' root (a + i) = Some (pte_frame e + (take_bit 12 a + i), rights_of e)"
    using page_written_ok(3) [OF ok upath_path [OF va] p4 leaf w n(1)] walk_lookup [OF ok n(1)] n(3) by simp
  moreover have "\<not> 0xffff800000000000 \<le> a + i" using n(1) by unat_arith
  ultimately show ?thesis
    using w root n(1) e(2) by (simp add: kresolve_def page_written_def cr3_root_def rights_of_def)
qed

lemma store_word:
  assumes ok: "space_ok s root ps" and root: "root = cr3_root s" and a: "writable s root a"
  obtains s' f where "kstore64 a v s = Inr s'" "page_written f s s'" "v_heap s' = v_heap s"
    "table s root (path a) = Some f" "kload64 s' a = Inr v"
proof -
  have va: "a < 2 ^ 47" and off: "take_bit 12 a \<le> 4088" using a by (simp_all add: writable_def)
  obtain e where e: "lookup s root a = Some e" "pte_writable e"
    using a by (auto simp: writable_def walk_lookup [OF ok] rights_of_def)
  define f where "f = pte_frame e"
  have leaf: "table s root (path a) = Some f" by (simp add: table_path_lookup e f_def)
  have p4: "length (path a) = 4" by (simp add: path_def upper_def)
  have al: "page_aligned f" "page_aligned (hhdm s)" using space_okD(8) [OF ok leaf] space_okD(4) [OF ok] by simp_all
  let ?b = "f + hhdm s + take_bit 12 a"
  let ?s' = "s\<lparr>mem := store64 (mem s) ?b v\<rparr>"
  have res: "kresolve wr s'' (a + i) = Inr (?b + i)" if w: "page_written f s s''" and i: "i < 8" for wr s'' i
  proof -
    have "take_bit 12 a + i < 4096" using off i by unat_arith
    from page_resolve [OF ok root va e w [unfolded f_def] this] show ?thesis by (simp add: f_def)
  qed
  have w': "page_written f s ?s'"
    by (rule word_page_written [OF off]) (auto intro: store64_other)
  show thesis
  proof (rule that)
    show "kstore64 a v s = Inr ?s'"
    proof (rule kstore64_at)
      fix i :: u64 and m assume i: "i < 8" and m: "\<And>x. (\<And>j. j < 8 \<Longrightarrow> x \<noteq> ?b + j) \<Longrightarrow> m x = mem s x"
      from res [OF word_page_written [OF off m] i] show "kresolve True (s\<lparr>mem := m\<rparr>) (a + i) = Inr (?b + i)" .
    qed
    show "kload64 ?s' a = Inr v"
      using kload64_at [OF res [OF w']] by simp
  qed (use w' leaf in simp_all)
qed

subsection \<open>One call\<close>

text \<open>\<open>v_heap += PAGE_SIZE\<close>.\<close>

definition advance :: "kstate \<Rightarrow> kstate" where
  "advance s = s\<lparr>v_heap := v_heap s + 2048\<rparr>"

lemma advance_simps [simp]:
  "mem (advance s) = mem s" "hhdm (advance s) = hhdm s" "cr3 (advance s) = cr3 s" "cr0_wp (advance s) = cr0_wp s"
  "free_list (advance s) = free_list s" "v_heap (advance s) = v_heap s + 2048"
  "walk (advance s) = walk s"
  by (simp_all add: advance_def walk_def fun_eq_iff)

lemma kresolve_advance [simp]: "kresolve wr (advance s) a = kresolve wr s a"
  by (simp add: kresolve_def cr3_root_def split: option.split)

lemma kload8_advance [simp]: "kload8 (advance s) a = kload8 s a"
  by (simp add: kload8_def)

lemma page_written_advance [simp]: "page_written f s (advance s') = page_written f s s'"
  by (simp add: page_written_def)

lemma kload_advance [simp]: "kload n (advance s) a = kload n s a"
  by (induction n arbitrary: a) simp_all

lemma cr3_root_aligned: "space_ok s (cr3 s) ps \<Longrightarrow> cr3_root s = cr3 s"
  by (drule space_okD(2), rule bit_word_eqI)
    (simp only: cr3_root_def bit_and_iff bit_page_mask, auto simp: page_aligned_iff bits)

lemma store_heap:
  assumes ok: "space_ok s (cr3 s) ps" and a: "writable s (cr3 s) a"
  obtains s' where "bindf (kstore64 a (v_heap s) s) (\<lambda>s. Inr (advance s)) = Inr s'"
    "space_ok s' (cr3 s) ps" "cr3 s' = cr3 s" "v_heap s' = v_heap s + 2048" "kload64 s' a = Inr (v_heap s)"
    "\<And>va. va < 2 ^ 47 \<Longrightarrow> walk s' (cr3 s) va = walk s (cr3 s) va"
proof -
  obtain s1 f where s1: "kstore64 a (v_heap s) s = Inr s1" "page_written f s s1" "v_heap s1 = v_heap s"
    "table s (cr3 s) (path a) = Some f" "kload64 s1 a = Inr (v_heap s)"
    by (rule store_word [OF ok cr3_root_aligned [OF ok, symmetric] a])
  have va: "a < 2 ^ 47" using a by (simp add: writable_def)
  have p4: "length (path a) = 4" by (simp add: path_def upper_def)
  have w: "page_written f s (advance s1)" using s1(2) by simp
  note ok1 = page_written_ok [OF ok upath_path [OF va] p4 s1(4) w]
  show thesis
    by (rule that [of "advance s1"]) (use s1 ok1 w in \<open>simp_all add: page_written_def\<close>)
qed

lemma byte_page_written:
  assumes ok: "space_ok s root ps" and a: "a < 2 ^ 47" "walk s root a = Some (p, r)"
  obtains f where "table s root (path a) = Some f" "length (path a) = 4"
    "page_written f s (s\<lparr>mem := (mem s)(p + hhdm s := c)\<rparr>)"
proof -
  obtain e where e: "lookup s root a = Some e" "p = pte_frame e + take_bit 12 a"
    using a(2) by (auto simp: walk_lookup [OF ok a(1)])
  have "take_bit 12 a < 4096" by (simp add: take_bit_eq_mod word_mod_less_divisor)
  then have "page_written (pte_frame e) s (s\<lparr>mem := (mem s)(p + hhdm s := c)\<rparr>)"
    by (intro page_written_mem) (auto simp: e(2) add.commute add.left_commute)
  moreover have "table s root (path a) = Some (pte_frame e)" by (simp add: table_path_lookup e(1))
  moreover have "length (path a) = 4" by (simp add: path_def upper_def)
  ultimately show thesis by (rule that [rotated 2])
qed

lemma store_byte:
  assumes ok: "space_ok s (cr3 s) ps" and a: "a < 2 ^ 47" "walk s (cr3 s) a = Some (p, r)" "may_write r"
  obtains s' where "kstore8 a c s = Inr s'" "space_ok s' (cr3 s) ps" "cr3 s' = cr3 s" "v_heap s' = v_heap s"
    "kload8 s' a = Inr c" "\<And>va. va < 2 ^ 47 \<Longrightarrow> walk s' (cr3 s) va = walk s (cr3 s) va"
proof -
  have low: "\<not> 0xffff800000000000 \<le> a" using a(1) by unat_arith
  let ?s' = "s\<lparr>mem := (mem s)(p + hhdm s := c)\<rparr>"
  obtain f where f: "table s (cr3 s) (path a) = Some f" "length (path a) = 4" "page_written f s ?s'"
    by (rule byte_page_written [OF ok a(1,2)])
  note ok' = page_written_ok [OF ok upath_path [OF a(1)] f(2,1,3)]
  have rt: "cr3_root s = cr3 s" by (rule cr3_root_aligned [OF ok])
  then have rt': "cr3_root ?s' = cr3 s" by (simp add: cr3_root_def)
  show thesis
  proof (rule that [of ?s'])
    show "kstore8 a c s = Inr ?s'" using a low rt by (simp add: kstore8_def kresolve_def)
    show "kload8 ?s' a = Inr c" using a low rt' ok'(3) [OF a(1)] by (simp add: kload8_def kresolve_def)
  qed (use ok' in simp_all)
qed

lemma sys_mmap_mapped:
  assumes ok: "space_ok s (cr3 s) ps" and v: "v_heap s < 2 ^ 47" "walk s (cr3 s) (v_heap s) \<noteq> None"
    and a: "writable s (cr3 s) a"
  obtains s' where "sys_mmap a s = Inr s'" "space_ok s' (cr3 s) ps" "cr3 s' = cr3 s" "v_heap s' = v_heap s + 2048"
    "kload64 s' a = Inr (v_heap s)" "\<And>va. va < 2 ^ 47 \<Longrightarrow> walk s' (cr3 s) va = walk s (cr3 s) va"
proof -
  obtain s' where s': "bindf (kstore64 a (v_heap s) s) (\<lambda>s. Inr (advance s)) = Inr s'"
    "space_ok s' (cr3 s) ps" "cr3 s' = cr3 s" "v_heap s' = v_heap s + 2048" "kload64 s' a = Inr (v_heap s)"
    "\<And>va. va < 2 ^ 47 \<Longrightarrow> walk s' (cr3 s) va = walk s (cr3 s) va"
    by (rule store_heap [OF ok a]) blast
  have "sys_mmap a s = Inr s'"
    using s'(1) vm_map_again [OF ok v, of True True True] by (simp add: sys_mmap_def read_cr3_def advance_def)
  then show thesis by (rule that [OF _ s'(2-6)])
qed

lemma sys_mmap_fresh:
  assumes ok: "space_ok s (cr3 s) ps" and v: "v_heap s < 2 ^ 47" "walk s (cr3 s) (v_heap s) = None" and len: "4 \<le> length ps"
    and a: "writable s (cr3 s) a \<or> a < 2 ^ 47 \<and> take_bit 12 a \<le> 4088 \<and> drop_bit 12 a = drop_bit 12 (v_heap s)"
  obtains s' k where "sys_mmap a s = Inr s'" "k < 4" "space_ok s' (cr3 s) (drop (Suc k) ps)" "cr3 s' = cr3 s"
    "v_heap s' = v_heap s + 2048" "kload64 s' a = Inr (v_heap s)"
    "\<And>va. va < 2 ^ 47 \<Longrightarrow> walk s' (cr3 s) va = (if drop_bit 12 va = drop_bit 12 (v_heap s)
       then Some (ps ! k + take_bit 12 va, all_rights) else walk s (cr3 s) va)"
proof -
  obtain s1 k where s1: "vm_map (cr3 s) (v_heap s) True True True s = Inr (True, s1)" "k < 4"
    "space_ok s1 (cr3 s) (drop (Suc k) ps)" "same_rest s s1"
    "maps_page s (cr3 s) (v_heap s) True True True (ps ! k) s1"
    using vm_map_spec [OF ok v(1) len, of True True True] v(2) by (auto simp: walk_lookup [OF ok v(1)])
  have w1: "walk s1 (cr3 s) va = (if drop_bit 12 va = drop_bit 12 (v_heap s)
       then Some (ps ! k + take_bit 12 va, all_rights) else walk s (cr3 s) va)" if "va < 2 ^ 47" for va
    using maps_page_walk [OF ok s1(3,5) v(1) that] by (simp add: all_rights_def)
  have c: "cr3 s1 = cr3 s" "v_heap s1 = v_heap s" using s1(4) by (simp_all add: same_rest_def)
  have "writable s1 (cr3 s1) a"
    using a w1 [of a] by (auto simp: writable_def c all_rights_def)
  then obtain s' where s': "bindf (kstore64 a (v_heap s1) s1) (\<lambda>s. Inr (advance s)) = Inr s'"
    "space_ok s' (cr3 s1) (drop (Suc k) ps)" "cr3 s' = cr3 s1" "v_heap s' = v_heap s1 + 2048" "kload64 s' a = Inr (v_heap s1)"
    "\<And>va. va < 2 ^ 47 \<Longrightarrow> walk s' (cr3 s1) va = walk s1 (cr3 s1) va"
    using store_heap [of s1 "drop (Suc k) ps" a] s1(3) c by metis
  show thesis
    by (rule that [of s' k]) (use s' s1 c w1 in \<open>simp_all add: sys_mmap_def read_cr3_def advance_def\<close>)
qed

end
