(* ===== verification/Addrspace.thy ===== *)
theory Addrspace
  imports Userheap
begin

text \<open>
  The life of an address space: whatever sequence of mappings, unmappings, changes of rights, stores
  through the page tables and tear-downs the kernel performs, the tree stays well formed and the free
  list is a pool; so no frame is mapped twice, and none is mapped and free.
\<close>

inductive space_step :: "u64 \<Rightarrow> kstate \<Rightarrow> kstate \<Rightarrow> bool" for root where
  map_page: "va < 2 ^ 47 \<Longrightarrow> pool s ps \<Longrightarrow> 4 \<le> length ps \<Longrightarrow> vm_map root va usr wr ex s = Inr (r, s') \<Longrightarrow> space_step root s s'"
| unmap_page: "va < 2 ^ 47 \<Longrightarrow> walk s root va \<noteq> None \<Longrightarrow> vm_unmap root va s = (r, s') \<Longrightarrow> space_step root s s'"
| protect_page: "va < 2 ^ 47 \<Longrightarrow> vm_protect root va usr wr ex s = (r, s') \<Longrightarrow> space_step root s s'"
| store_user: "va < 2 ^ 47 \<Longrightarrow> cr3 s = root \<Longrightarrow> kstore8 va c s = Inr s' \<Longrightarrow> space_step root s s'"
| tear_down: "space_step root s (unmap_lower_half root s)"

inductive space_reach :: "u64 \<Rightarrow> kstate \<Rightarrow> kstate \<Rightarrow> bool" for root where
  start: "space_reach root s s"
| step: "space_reach root s s' \<Longrightarrow> space_step root s' s'' \<Longrightarrow> space_reach root s s''"

inductive_cases space_stepE: "space_step root s s'"

lemma free_chain_unique: "free_chain m h a ps \<Longrightarrow> free_chain m h a qs \<Longrightarrow> 0 \<notin> (\<lambda>p. p + h) ` (set ps \<union> set qs) \<Longrightarrow> ps = qs"
proof (induction ps arbitrary: a qs)
  case Nil
  then show ?case by (cases qs) auto
next
  case (Cons p ps)
  then show ?case by (cases qs) auto
qed

lemma pool_unique: "pool s ps \<Longrightarrow> pool s qs \<Longrightarrow> ps = qs"
  by (rule free_chain_unique [of "mem s" "hhdm s" "free_list s"])
    (auto simp: pool_def list_all_iff dest: frame_virtual(3))

lemma space_step_ok:
  assumes "space_step root s s'" "space_ok s root ps"
  shows "\<exists>qs. space_ok s' root qs"
  using assms(1)
proof cases
  case (map_page va qs usr wr ex r)
  have "qs = ps" using map_page(2) space_okD(1) [OF assms(2)] by (rule pool_unique)
  then show ?thesis using vm_map_spec [OF assms(2) map_page(1), of usr wr ex] map_page(3,4) assms(2) by (auto split: if_splits)
next
  case (unmap_page va r)
  then obtain t where "table s root (upper va) = Some t"
    by (auto simp: walk_lookup [OF assms(2)] lookup_def split: option.splits)
  from vm_unmap_spec [OF assms(2) unmap_page(1) this] show ?thesis using unmap_page(3) by (metis prod.inject)
next
  case (protect_page va usr wr ex r)
  show ?thesis
  proof (cases "lookup s root va")
    case None
    then show ?thesis using vm_protect_unmapped [OF None, of usr wr ex] protect_page(2) assms(2) by auto
  next
    case (Some e)
    from vm_protect_spec [OF assms(2) protect_page(1) Some, of usr wr ex] show ?thesis using protect_page(2) by (metis prod.inject)
  qed
next
  case (store_user va c)
  have low: "\<not> 0xffff800000000000 \<le> va" using store_user(1) by unat_arith
  have rt: "cr3_root s = root" using cr3_root_aligned [of s ps] assms(2) store_user(2) by simp
  show ?thesis
  proof (cases "walk s root va")
    case None
    then show ?thesis using store_user low rt by (simp add: kstore8_def kresolve_def)
  next
    case (Some q)
    then obtain p r where q: "walk s root va = Some (p, r)" by (cases q) auto
    have s': "s' = s\<lparr>mem := (mem s)(p + hhdm s := c)\<rparr>"
      using store_user low rt q by (simp add: kstore8_def kresolve_def split: if_splits)
    obtain f where f: "table s root (path va) = Some f" "length (path va) = 4" "page_written f s s'"
      unfolding s' by (rule byte_page_written [OF assms(2) store_user(1) q])
    show ?thesis using page_written_ok(1) [OF assms(2) upath_path [OF store_user(1)] f(2,1,3)] by blast
  qed
next
  case tear_down
  then show ?thesis using unmap_lower_half_ok [OF assms(2)] by auto
qed

lemma space_reach_ok: "space_reach root s s' \<Longrightarrow> space_ok s root ps \<Longrightarrow> \<exists>qs. space_ok s' root qs"
  by (induction rule: space_reach.induct) (auto dest: space_step_ok)

text \<open>What a well-formed space means for the processor.\<close>

definition exclusive :: "u64 \<Rightarrow> kstate \<Rightarrow> u64 list \<Rightarrow> bool" where
  "exclusive root s ps \<longleftrightarrow>
     (\<forall>va < 2 ^ 47. \<forall>a r. walk s root va = Some (a, r) \<longrightarrow> drop_bit 12 a \<notin> drop_bit 12 ` set ps)
     \<and> (\<forall>va < 2 ^ 47. \<forall>va' < 2 ^ 47. \<forall>a r a' r'. walk s root va = Some (a, r) \<longrightarrow> walk s root va' = Some (a', r')
          \<longrightarrow> drop_bit 12 a = drop_bit 12 a' \<longrightarrow> drop_bit 12 va = drop_bit 12 va')"

lemma page_frame_eq: "page_aligned p \<Longrightarrow> page_aligned q \<Longrightarrow> drop_bit 12 p = drop_bit 12 q \<Longrightarrow> p = q"
  by (metis bits_ident page_aligned_def)

lemma walk_frame:
  assumes ok: "space_ok s root ps" and va: "va < 2 ^ 47" and w: "walk s root va = Some (a, r)"
  obtains f where "table s root (path va) = Some f" "page_aligned f" "drop_bit 12 a = drop_bit 12 f"
proof -
  obtain e where e: "lookup s root va = Some e" "a = pte_frame e + take_bit 12 va"
    using w by (auto simp: walk_lookup [OF ok va])
  have t: "table s root (path va) = Some (pte_frame e)" by (simp add: table_path_lookup e(1))
  have al: "page_aligned (pte_frame e)" by (rule space_okD(8) [OF ok t])
  have "take_bit 12 va < 4096" by (simp add: take_bit_eq_mod word_mod_less_divisor)
  then show thesis using that [OF t al] aligned_add(1) [OF al] e(2) by simp
qed

lemma space_ok_exclusive:
  assumes ok: "space_ok s root ps"
  shows "exclusive root s ps"
proof -
  have "drop_bit 12 a \<notin> drop_bit 12 ` set ps" if va: "va < 2 ^ 47" "walk s root va = Some (a, r)" for va a r
  proof
    obtain f where f: "table s root (path va) = Some f" "page_aligned f" "drop_bit 12 a = drop_bit 12 f"
      by (rule walk_frame [OF ok va])
    assume "drop_bit 12 a \<in> drop_bit 12 ` set ps"
    then obtain p where p: "p \<in> set ps" "drop_bit 12 f = drop_bit 12 p" using f(3) by auto
    then have "f = p" using page_frame_eq [OF f(2)] pool_frame [OF space_okD(1) [OF ok] p(1)] by (simp add: frame_def)
    then show False using space_okD(6) [OF ok upath_path [OF va(1)] f(1)] p(1) by simp
  qed
  moreover have "drop_bit 12 va = drop_bit 12 va'"
    if va: "va < 2 ^ 47" "walk s root va = Some (a, r)" and va': "va' < 2 ^ 47" "walk s root va' = Some (a', r')"
      and eq: "drop_bit 12 a = drop_bit 12 a'" for va va' a a' r r'
  proof -
    obtain f where f: "table s root (path va) = Some f" "page_aligned f" "drop_bit 12 a = drop_bit 12 f"
      by (rule walk_frame [OF ok va])
    obtain g where g: "table s root (path va') = Some g" "page_aligned g" "drop_bit 12 a' = drop_bit 12 g"
      by (rule walk_frame [OF ok va'])
    have "f = g" using page_frame_eq [OF f(2) g(2)] f(3) g(3) eq by simp
    then have "path va = path va'"
      using space_okD(5) [OF ok upath_path [OF va(1)] upath_path [OF va'(1)]] f(1) g(1) by simp
    then show ?thesis using same_page_path [OF va'(1) va(1)] by simp
  qed
  ultimately show ?thesis unfolding exclusive_def by blast
qed

subsection \<open>Properties\<close>

text \<open>
  C23: from a well-formed address space, whatever is mapped, unmapped, protected, stored through the
  page tables or torn down, in any order, the space and the free list stay well formed: there is a list
  of free frames, each once, which is the allocator's, no mapped page lies in a free frame, and no two
  pages share a frame.
\<close>

theorem address_space_exclusive:
  assumes "space_reach root s s'" "space_ok s root ps"
  shows "\<exists>qs. space_ok s' root qs \<and> pool s' qs \<and> exclusive root s' qs"
  using space_reach_ok [OF assms] space_ok_exclusive space_okD(1) by blast

lemma address_space_exclusive_witness:
  "\<exists>s. vm_map 0x1000 0x400000 True False True sample = Inr (True, s)
    \<and> (\<exists>qs. pool (unmap_lower_half 0x1000 s) qs \<and> exclusive 0x1000 (unmap_lower_half 0x1000 s) qs)"
proof -
  obtain s k where s: "vm_map 0x1000 0x400000 True False True sample = Inr (True, s)"
    "space_ok s 0x1000 (drop (Suc k) sample_frames)" by (rule sample_fresh)
  have "space_step 0x1000 sample s"
    by (rule map_page [OF _ sample_pool _ s(1)]) (simp_all add: sample_frames_def)
  then have "space_reach 0x1000 sample (unmap_lower_half 0x1000 s)"
    by (rule space_reach.step [OF space_reach.step [OF start] tear_down])
  from address_space_exclusive [OF this sample_space] s(1) show ?thesis by blast
qed

end
