(* ===== verification/Malloc.thy ===== *)
theory Malloc
  imports Userheap
begin

text \<open>
  \<open>malloc\<close>, \<open>free\<close> and \<open>mmap\<close> of \<open>stdlib/mem.c\<close>. \<open>heap\<close> is the pair of globals \<open>bump\<close> and
  \<open>space_remaining\<close>. \<open>malloc\<close> is over any source of memory: the locale \<open>page_source\<close> is what it needs of
  \<open>mmap\<close>, namely 2048 fresh bytes a call, each block right after the last; the interpretation shows that
  the library's \<open>mmap\<close>, through the system call and the page tables, provides it as long as there are
  free frames (\<open>heap_room\<close>).
\<close>

subsection \<open>malloc\<close>

definition ROUND_UP :: "u64 \<Rightarrow> u64 \<Rightarrow> u64" where
  "ROUND_UP x y = (if x mod y = 0 then x else x + (y - x mod y))"

record heap =
  bump :: u64
  space_remaining :: u64

definition heap_boot :: heap where
  "heap_boot = \<lparr>bump = 0, space_remaining = 0\<rparr>"

text \<open>The end of \<open>malloc\<close>: the block at \<open>bump\<close>, and the heap behind it.\<close>

definition grab :: "u64 \<Rightarrow> heap \<Rightarrow> u64 \<times> heap" where
  "grab sz h = (bump h, h\<lparr>bump := bump h + sz, space_remaining := space_remaining h - sz\<rparr>)"

definition malloc :: "('s \<Rightarrow> fault + (u64 \<times> 's)) \<Rightarrow> u64 \<Rightarrow> heap \<Rightarrow> 's \<Rightarrow> fault + (u64 \<times> heap \<times> 's)" where
  "malloc mmap sz h s =
     (let sz = ROUND_UP sz 16 in
      if space_remaining h < sz
      then (let rounded_up = ROUND_UP sz 2048 in
            bindf (mmap s) (\<lambda>(newmem, s).
              if newmem = 0 then Inr (0, h, s)
              else (let (result, h) = grab sz (h\<lparr>bump := newmem, space_remaining := rounded_up\<rparr>)
                    in Inr (result, h, s))))
      else (let (result, h) = grab sz h in Inr (result, h, s)))"

definition free :: "u64 \<Rightarrow> heap \<Rightarrow> heap" where
  "free p h = h"

text \<open>One block for each size.\<close>

primrec malloc_all :: "('s \<Rightarrow> fault + (u64 \<times> 's)) \<Rightarrow> u64 list \<Rightarrow> heap \<Rightarrow> 's \<Rightarrow> fault + (u64 list \<times> heap \<times> 's)" where
  "malloc_all mmap [] h s = Inr ([], h, s)"
| "malloc_all mmap (sz # szs) h s =
     bindf (malloc mmap sz h s) (\<lambda>(p, h, s).
     bindf (malloc_all mmap szs h s) (\<lambda>(ps, h, s). Inr (p # ps, h, s)))"

lemma unat_ROUND_UP:
  assumes y: "0 < unat y" and fits: "unat x + unat y < 2 ^ 64"
  shows "unat (ROUND_UP x y) = unat y * ((unat x + (unat y - 1)) div unat y)"
proof -
  define q where "q = unat x div unat y"
  define r where "r = unat x mod unat y"
  have qr: "unat x = q * unat y + r" "r < unat y" using y by (simp_all add: q_def r_def)
  have m: "unat (x mod y) = r" by (simp add: unat_mod_distrib r_def)
  show ?thesis
  proof (cases "r = 0")
    case True
    have "(q * unat y + (unat y - 1)) div unat y = q" using y by (simp only: div_mult_self3) simp
    then show ?thesis using True m qr(1) by (simp add: ROUND_UP_def word_unat_eq_iff mult.commute)
  next
    case False
    have "unat (y - x mod y) = unat y - r"
      using m qr(2) by (subst unat_sub) (simp_all add: word_le_nat_alt)
    moreover have "x mod y \<noteq> 0" using False m by (metis unat_0)
    then have "ROUND_UP x y = x + (y - x mod y)" by (simp only: ROUND_UP_def if_False)
    ultimately have l: "unat (ROUND_UP x y) = unat x + (unat y - r)"
      using fits by (simp add: unat_word_ariths)
    have e: "unat x + (unat y - 1) = (r - 1) + (q + 1) * unat y" using False y qr(1) by (simp add: algebra_simps)
    have "(unat x + (unat y - 1)) div unat y = q + 1"
      unfolding e using y qr(2) by (subst div_mult_self1) simp_all
    then show ?thesis unfolding l using qr by (simp add: algebra_simps)
  qed
qed

lemma round_16:
  assumes "sz \<le> 4096"
  shows "sz \<le> ROUND_UP sz 16" "ROUND_UP sz 16 \<le> 4096" "take_bit 4 (ROUND_UP sz 16) = 0"
    and "sz \<le> 2048 \<Longrightarrow> ROUND_UP sz 16 \<le> 2048"
proof -
  have s: "unat sz \<le> 4096" using assms by (simp add: word_le_nat_alt)
  then have u: "unat (ROUND_UP sz 16) = 16 * ((unat sz + 15) div 16)" using unat_ROUND_UP [of 16 sz] by simp
  show "sz \<le> ROUND_UP sz 16" "ROUND_UP sz 16 \<le> 4096" "sz \<le> 2048 \<Longrightarrow> ROUND_UP sz 16 \<le> 2048"
    unfolding word_le_nat_alt u using s by simp_all
  show "take_bit 4 (ROUND_UP sz 16) = 0"
    unfolding word_unat_eq_iff unsigned_take_bit_eq u by (simp add: take_bit_eq_mod)
qed

lemma round_page:
  shows "r \<noteq> 0 \<Longrightarrow> r \<le> 2048 \<Longrightarrow> ROUND_UP r 2048 = 2048"
    and "2048 < r \<Longrightarrow> r \<le> 4096 \<Longrightarrow> ROUND_UP r 2048 = 4096"
proof -
  have u: "unat (ROUND_UP r 2048) = 2048 * ((unat r + 2047) div 2048)" if "r \<le> 4096"
    using unat_ROUND_UP [of 2048 r] that by (simp add: word_le_nat_alt)
  show "ROUND_UP r 2048 = 4096" if "2048 < r" "r \<le> 4096"
  proof -
    have "(unat r + 2047) div 2048 = 2" using that by (simp add: word_less_nat_alt word_le_nat_alt)
    then show ?thesis using u that(2) by (simp add: word_unat_eq_iff)
  qed
  assume r: "r \<noteq> 0" "r \<le> 2048"
  then have "0 < unat r" "unat r \<le> 2048" "r \<le> 4096" by (auto simp: unat_gt_0 word_le_nat_alt)
  then show "ROUND_UP r 2048 = 2048" using u by (simp add: word_unat_eq_iff)
qed

subsection \<open>Where the memory comes from\<close>

locale page_source =
  fixes more :: "'s \<Rightarrow> fault + (u64 \<times> 's)"
    and brk :: "'s \<Rightarrow> u64"
    and room :: "'s \<Rightarrow> nat \<Rightarrow> bool"
    and usable :: "'s \<Rightarrow> u64 \<Rightarrow> bool"
  assumes more: "room s (Suc n) \<Longrightarrow> \<exists>s'. more s = Inr (brk s, s') \<and> brk s' = brk s + 2048 \<and> room s' n
      \<and> (\<forall>a. a - brk s < 2048 \<longrightarrow> usable s' a) \<and> (\<forall>a. usable s a \<longrightarrow> usable s' a)"
    and room_less: "room s (Suc n) \<Longrightarrow> room s n"
    and room_brk: "room s n \<Longrightarrow> 0 < brk s \<and> take_bit 4 (brk s) = 0 \<and> unat (brk s) + 2048 * n \<le> 2 ^ 47"

text \<open>The heap lies below the source's next block and may be written.\<close>

definition heap_wf :: "('s \<Rightarrow> u64) \<Rightarrow> ('s \<Rightarrow> u64 \<Rightarrow> bool) \<Rightarrow> heap \<Rightarrow> 's \<Rightarrow> bool" where
  "heap_wf brk usable h s \<longleftrightarrow> unat (bump h) + unat (space_remaining h) \<le> unat (brk s)
     \<and> take_bit 4 (bump h) = 0
     \<and> (\<forall>a. a - bump h < space_remaining h \<longrightarrow> usable s a)"

lemma heap_boot_wf: "heap_wf brk usable heap_boot s"
  by (simp add: heap_wf_def heap_boot_def)

lemma take_bit_4_add:
  assumes "take_bit 4 a = 0" "take_bit 4 b = (0 :: u64)"
  shows "take_bit 4 (a + b) = 0"
proof -
  have "a = push_bit 4 (drop_bit 4 a)" "b = push_bit 4 (drop_bit 4 b)"
    using bits_ident [of 4 a] bits_ident [of 4 b] assms by simp_all
  then have "a + b = push_bit 4 (drop_bit 4 a + drop_bit 4 b)" by (simp only: push_bit_add)
  then show ?thesis by (auto intro!: bit_word_eqI simp: bits)
qed

lemma less_diff_add: "(d :: u64) < n - r \<Longrightarrow> r \<le> n \<Longrightarrow> d + r < n"
  by (simp add: word_less_nat_alt unat_word_ariths unat_sub word_le_nat_alt)

lemma grab_wf:
  assumes wf: "heap_wf brk usable h s" and sz: "r \<le> space_remaining h" "take_bit 4 r = 0" "unat (brk s) \<le> 2 ^ 47"
  shows "heap_wf brk usable (snd (grab r h)) s" "fst (grab r h) = bump h"
    "unat (bump (snd (grab r h))) = unat (bump h) + unat r"
proof -
  have le: "unat r \<le> unat (space_remaining h)" using sz(1) by (simp add: word_le_nat_alt)
  have w: "unat (bump h) + unat (space_remaining h) \<le> unat (brk s)" using wf by (simp add: heap_wf_def)
  show b: "unat (bump (snd (grab r h))) = unat (bump h) + unat r"
    using le w sz(3) by (simp add: grab_def unat_word_ariths)
  show "fst (grab r h) = bump h" by (simp add: grab_def)
  have sp: "unat (space_remaining (snd (grab r h))) = unat (space_remaining h) - unat r"
    using sz(1) by (simp add: grab_def unat_sub)
  have "usable s a" if "a - (bump h + r) < space_remaining h - r" for a
  proof -
    have "a - bump h < space_remaining h" using less_diff_add [OF that sz(1)] by simp
    then show ?thesis using wf by (simp add: heap_wf_def)
  qed
  then show "heap_wf brk usable (snd (grab r h)) s"
    using wf sz(2) b sp w le unfolding heap_wf_def by (simp add: grab_def take_bit_4_add)
qed

context page_source begin

lemma malloc_small:
  assumes wf: "heap_wf brk usable h s" and rm: "room s (Suc n)" and sz: "sz \<le> 2048"
  shows "\<exists>p h' s'. malloc more sz h s = Inr (p, h', s') \<and> heap_wf brk usable h' s' \<and> room s' n
    \<and> (\<forall>a. usable s a \<longrightarrow> usable s' a) \<and> (\<forall>a. a - p < sz \<longrightarrow> usable s' a) \<and> take_bit 4 p = 0
    \<and> unat (bump h) \<le> unat p \<and> unat p + unat sz \<le> unat (bump h') \<and> unat (brk s') \<le> unat (brk s) + 2048"
proof -
  let ?r = "ROUND_UP sz 16"
  have sz4: "sz \<le> 4096" using sz by (simp add: word_le_nat_alt)
  note r = round_16(1) [OF sz4] round_16(4) [OF sz4 sz] round_16(3) [OF sz4] round_page(1) [OF _ round_16(4) [OF sz4 sz]]
  have rl: "unat sz \<le> unat ?r" using r(1) by (simp add: word_le_nat_alt)
  have step: "\<exists>p h' s''. (let (result, h) = grab ?r h1 in Inr (result, h, s1)) = (Inr (p, h', s'') :: fault + _)
      \<and> heap_wf brk usable h' s'' \<and> s'' = s1 \<and> (\<forall>a. a - p < sz \<longrightarrow> usable s1 a) \<and> take_bit 4 p = 0
      \<and> p = bump h1 \<and> unat p + unat sz \<le> unat (bump h')"
    if "heap_wf brk usable h1 s1" "?r \<le> space_remaining h1" "unat (brk s1) \<le> 2 ^ 47" for h1 s1
  proof -
    note g = grab_wf [OF that(1,2) r(3) that(3)]
    have "usable s1 a" if "a - bump h1 < sz" for a
      using that r(1) \<open>?r \<le> space_remaining h1\<close> \<open>heap_wf brk usable h1 s1\<close> unfolding heap_wf_def
      by (meson less_le_trans)
    then show ?thesis
      using g rl \<open>heap_wf brk usable h1 s1\<close>
      by (intro exI [of _ "bump h1"] exI [of _ "snd (grab ?r h1)"] exI [of _ s1])
        (simp add: split_beta heap_wf_def)
  qed
  show ?thesis
  proof (cases "space_remaining h < ?r")
    case False
    then have "?r \<le> space_remaining h" by simp
    moreover have "unat (brk s) \<le> 2 ^ 47" using room_brk [OF rm] by simp
    ultimately obtain p h' where p: "(let (result, h) = grab ?r h in Inr (result, h, s)) = (Inr (p, h', s) :: fault + _)"
      "heap_wf brk usable h' s" "\<forall>a. a - p < sz \<longrightarrow> usable s a" "take_bit 4 p = 0" "p = bump h"
      "unat p + unat sz \<le> unat (bump h')"
      using step [OF wf] by blast
    then show ?thesis using False room_less [OF rm] by (simp add: malloc_def)
  next
    case True
    then have r0: "?r \<noteq> 0" by auto
    obtain s1 where s1: "more s = Inr (brk s, s1)" "brk s1 = brk s + 2048" "room s1 n"
      "\<forall>a. a - brk s < 2048 \<longrightarrow> usable s1 a" "\<forall>a. usable s a \<longrightarrow> usable s1 a"
      using more [OF rm] by blast
    have b: "0 < brk s" "take_bit 4 (brk s) = 0" "unat (brk s) + 2048 \<le> 2 ^ 47"
      using room_brk [OF rm] by simp_all
    have b1: "unat (brk s1) = unat (brk s) + 2048" using b(3) by (simp add: s1(2) unat_word_ariths)
    let ?h1 = "h\<lparr>bump := brk s, space_remaining := 2048\<rparr>"
    have "heap_wf brk usable ?h1 s1"
      using s1(4) b(2) b1 by (simp add: heap_wf_def take_bit_eq_mod)
    moreover have "?r \<le> space_remaining ?h1" using r(2) by simp
    moreover have "unat (brk s1) \<le> 2 ^ 47" using b(3) b1 by simp
    ultimately obtain p h' where p: "(let (result, h) = grab ?r ?h1 in Inr (result, h, s1)) = (Inr (p, h', s1) :: fault + _)"
      "heap_wf brk usable h' s1" "\<forall>a. a - p < sz \<longrightarrow> usable s1 a" "take_bit 4 p = 0" "p = brk s"
      "unat p + unat sz \<le> unat (bump h')"
      using step [of ?h1 s1] by auto
    moreover have "unat (bump h) \<le> unat (brk s)" using wf by (simp add: heap_wf_def)
    ultimately show ?thesis using True b(1) b1 s1 r(4) [OF r0] by (auto simp: malloc_def Let_def)
  qed
qed

lemma malloc_all_blocks:
  assumes "heap_wf brk usable h s" "room s (length szs)" "\<forall>sz \<in> set szs. sz \<le> 2048"
  shows "\<exists>ps h' s'. malloc_all more szs h s = Inr (ps, h', s') \<and> length ps = length szs
    \<and> heap_wf brk usable h' s' \<and> (\<forall>a. usable s a \<longrightarrow> usable s' a) \<and> unat (bump h) \<le> unat (bump h')
    \<and> (\<forall>i < length szs. take_bit 4 (ps ! i) = 0 \<and> unat (bump h) \<le> unat (ps ! i)
         \<and> (\<forall>a. a - ps ! i < szs ! i \<longrightarrow> usable s' a))
    \<and> (\<forall>i j. i < j \<longrightarrow> j < length szs \<longrightarrow> unat (ps ! i) + unat (szs ! i) \<le> unat (ps ! j))"
  using assms
proof (induction szs arbitrary: h s)
  case (Cons sz szs)
  obtain p h1 s1 where 1: "malloc more sz h s = Inr (p, h1, s1)" "heap_wf brk usable h1 s1" "room s1 (length szs)"
    "\<forall>a. usable s a \<longrightarrow> usable s1 a" "\<forall>a. a - p < sz \<longrightarrow> usable s1 a" "take_bit 4 p = 0"
    "unat (bump h) \<le> unat p" "unat p + unat sz \<le> unat (bump h1)"
    using malloc_small [OF Cons.prems(1), of "length szs" sz] Cons.prems(2,3) by auto
  obtain ps h2 s2 where 2: "malloc_all more szs h1 s1 = Inr (ps, h2, s2)" "length ps = length szs"
    "heap_wf brk usable h2 s2" "\<forall>a. usable s1 a \<longrightarrow> usable s2 a" "unat (bump h1) \<le> unat (bump h2)"
    "\<forall>i < length szs. take_bit 4 (ps ! i) = 0 \<and> unat (bump h1) \<le> unat (ps ! i)
         \<and> (\<forall>a. a - ps ! i < szs ! i \<longrightarrow> usable s2 a)"
    "\<forall>i j. i < j \<longrightarrow> j < length szs \<longrightarrow> unat (ps ! i) + unat (szs ! i) \<le> unat (ps ! j)"
    using Cons.IH [OF 1(2,3)] Cons.prems(3) by auto
  show ?case
  proof (intro exI conjI)
    show "malloc_all more (sz # szs) h s = Inr (p # ps, h2, s2)" using 1(1) 2(1) by simp
    show "\<forall>i < length (sz # szs). take_bit 4 ((p # ps) ! i) = 0 \<and> unat (bump h) \<le> unat ((p # ps) ! i)
         \<and> (\<forall>a. a - (p # ps) ! i < (sz # szs) ! i \<longrightarrow> usable s2 a)"
      using 1 2 by (auto simp: less_Suc_eq_0_disj intro: order_trans)
    show "\<forall>i j. i < j \<longrightarrow> j < length (sz # szs) \<longrightarrow> unat ((p # ps) ! i) + unat ((sz # szs) ! i) \<le> unat ((p # ps) ! j)"
      using 1(8) 2(6,7) by (fastforce simp: less_Suc_eq_0_disj nth_Cons split: nat.split intro: order_trans)
  qed (use 1 2 in auto)
qed (auto intro!: exI)

end

subsection \<open>The kernel as a source of memory\<close>

text \<open>
  \<open>p\<close> is the address of the variable that the call fills; the size and the address asked for do not
  reach the system call.
\<close>

definition mmap :: "links \<Rightarrow> u64 \<Rightarrow> world \<Rightarrow> fault + (u64 \<times> world)" where
  "mmap lk p w =
     bindf (syscall_handler lk 2 p 0 0 w) (\<lambda>(r, w).
       case r of
         Return rc \<Rightarrow> bindf (kload64 (machine w) p) (\<lambda>v. Inr (v, w))
       | EnterUser ss sp cs ip \<Rightarrow> Inl Undefined)"

text \<open>
  The kernel hands out half pages. \<open>page_top\<close> is the first page that is not yet mapped, \<open>pages_for\<close> the
  number of pages that \<open>n\<close> calls will map, each of which takes at most four frames.
\<close>

definition page_top :: "u64 \<Rightarrow> u64" where
  "page_top v = (if page_aligned v then v else v + 2048)"

definition pages_for :: "u64 \<Rightarrow> nat \<Rightarrow> nat" where
  "pages_for v n = (if page_aligned v then (n + 1) div 2 else n div 2)"

definition user_writes :: "world \<Rightarrow> u64 \<Rightarrow> bool" where
  "user_writes w a \<longleftrightarrow> a < 2 ^ 47 \<and> (\<exists>p r. walk (machine w) (cr3 (machine w)) a = Some (p, r) \<and> may_user r \<and> may_write r)"

definition heap_room :: "u64 \<Rightarrow> world \<Rightarrow> nat \<Rightarrow> bool" where
  "heap_room p w n \<longleftrightarrow> (let s = machine w; v = v_heap s in
     take_bit 11 v = 0 \<and> 0 < v \<and> unat (page_top v) + 4096 * pages_for v n \<le> 2 ^ 47
     \<and> (page_aligned v \<or> user_writes w v)
     \<and> p < 2 ^ 47 \<and> take_bit 12 p \<le> 4088 \<and> (writable s (cr3 s) p \<or> drop_bit 12 p = drop_bit 12 v)
     \<and> (\<exists>ps. space_ok s (cr3 s) ps \<and> 4 * pages_for v n \<le> length ps)
     \<and> (\<forall>i < pages_for v n. walk s (cr3 s) (page_top v + of_nat (4096 * i)) = None))"

lemma half_page:
  assumes "take_bit 11 (v :: u64) = 0"
  shows "page_aligned v \<Longrightarrow> \<not> page_aligned (v + 2048) \<and> take_bit 12 v = 0 \<and> page_aligned (v + 4096)"
    and "\<not> page_aligned v \<Longrightarrow> take_bit 12 v = 2048 \<and> page_aligned (v + 2048)"
proof -
  have al: "page_aligned (4096 :: u64)" by (simp add: page_aligned_def)
  show "\<not> page_aligned (v + 2048) \<and> take_bit 12 v = 0 \<and> page_aligned (v + 4096)" if v: "page_aligned v"
    using aligned_add(2) [OF v, of 2048] page_aligned_add [OF v al] v by (auto simp: page_aligned_def)
  assume n: "\<not> page_aligned v"
  have lo: "\<not> bit v i" if "i < 11" for i
    using assms that by (metis bit_take_bit_iff bit_0_eq bot_apply bot_bool_def)
  have "bit v 11"
  proof (rule ccontr)
    assume "\<not> bit v 11"
    then have "\<not> bit v i" if "i < 12" for i using lo [of i] that by (cases "i = 11") auto
    then have "take_bit 12 v = 0" by (intro bit_word_eqI) (auto simp: bits)
    then show False using n by (simp add: page_aligned_def)
  qed
  then have "bit (take_bit 12 v) i \<longleftrightarrow> bit (push_bit 11 (1 :: u64)) i" if "i < 64" for i
    using lo [of i] that \<open>bit v 11\<close> unfolding bit_push_bit_iff bit_1_iff bit_take_bit_iff possible_bit_word
    by (cases "i = 11") auto
  then have t: "take_bit 12 v = push_bit 11 1" by (intro bit_word_eqI) simp
  have "v + 2048 = page_of v + (take_bit 12 v + 2048)"
    using page_of_split(2) [of v] by (metis add.assoc)
  moreover have "take_bit 12 v + 2048 = 4096" by (simp add: t)
  ultimately have "v + 2048 = page_of v + 4096" by (simp only:)
  then have "page_aligned (v + 2048)" using page_aligned_add [OF page_of_split(1) [of v] al] by (simp only:)
  then show "take_bit 12 v = 2048 \<and> page_aligned (v + 2048)" by (simp add: t)
qed

lemma half_bits: "take_bit 11 v = 0 \<Longrightarrow> take_bit 11 (v + 2048) = (0 :: u64)" "take_bit 11 v = 0 \<Longrightarrow> take_bit 4 v = (0 :: u64)"
proof -
  assume v: "take_bit 11 v = 0"
  have "v = push_bit 11 (drop_bit 11 v)" using bits_ident [of 11 v] v by simp
  then have "v + 2048 = push_bit 11 (drop_bit 11 v + 1)" by (simp add: push_bit_add push_bit_eq_mult)
  then show "take_bit 11 (v + 2048) = 0" by (simp only: take_bit_push_bit) simp
  have "take_bit 4 v = take_bit 4 (take_bit 11 v)" by simp
  then show "take_bit 4 v = 0" by (simp add: v)
qed

text \<open>One call less.\<close>

lemma pages_for_step:
  assumes "take_bit 11 v = 0"
  shows "page_aligned v \<Longrightarrow> page_top (v + 2048) = page_top v + 4096 \<and> pages_for v (Suc n) = Suc (pages_for (v + 2048) n)"
    and "\<not> page_aligned v \<Longrightarrow> page_top (v + 2048) = page_top v \<and> pages_for v (Suc n) = pages_for (v + 2048) n"
  using half_page [OF assms] by (auto simp: page_top_def pages_for_def)

lemma same_page_rights:
  assumes ok: "space_ok s root ps" and v: "v < 2 ^ 47" "a < 2 ^ 47" "drop_bit 12 a = drop_bit 12 v"
    and w: "walk s root v = Some (q, r)"
  shows "\<exists>q'. walk s root a = Some (q', r)"
proof -
  have "lookup s root a = lookup s root v"
    by (rule lookup_path_cong) (use same_page_path [OF v(1,2)] v(3) in simp)
  then show ?thesis using w by (auto simp: walk_lookup [OF ok v(1)] walk_lookup [OF ok v(2)])
qed

lemma user_writes_page:
  assumes "space_ok (machine w) (cr3 (machine w)) ps" "user_writes w v" "take_bit 12 v + k < 4096"
  shows "user_writes w (v + k)"
  using assms in_page_add [of v k] same_page_rights [OF assms(1), of v "v + k"] by (fastforce simp: user_writes_def)

lemma later_page:
  assumes "unat v + 4096 * j < 2 ^ 47"
  shows "v + of_nat (4096 * j) < 2 ^ 47" "0 < j \<Longrightarrow> drop_bit 12 (v + of_nat (4096 * j)) \<noteq> drop_bit 12 (v :: u64)"
proof -
  have u: "unat (v + of_nat (4096 * j)) = unat v + 4096 * j"
    using assms(1) by (simp add: unat_word_ariths unat_of_nat del: of_nat_mult)
  then show "v + of_nat (4096 * j) < 2 ^ 47" using assms(1) by (simp add: word_less_nat_alt)
  have "(unat v + 4096 * j) div 4096 = unat v div 4096 + j" by simp
  then show "drop_bit 12 (v + of_nat (4096 * j)) \<noteq> drop_bit 12 v" if "0 < j"
    using u that by (simp add: word_unat_eq_iff unsigned_drop_bit_eq drop_bit_eq_div unat_div_distrib del: of_nat_mult)
qed

lemma room_fresh:
  assumes r: "heap_room p w (Suc n)" and al: "page_aligned (v_heap (machine w))"
  shows "\<exists>s'. sys_mmap p (machine w) = Inr s' \<and> kload64 s' p = Inr (v_heap (machine w))
    \<and> v_heap s' = v_heap (machine w) + 2048 \<and> heap_room p (w\<lparr>machine := s'\<rparr>) n
    \<and> user_writes (w\<lparr>machine := s'\<rparr>) (v_heap (machine w)) \<and> (\<exists>ps. space_ok s' (cr3 s') ps)
    \<and> (\<forall>a. user_writes w a \<longrightarrow> user_writes (w\<lparr>machine := s'\<rparr>) a)"
proof -
  define s where "s = machine w"
  define v where "v = v_heap s"
  have al: "page_aligned v" using al by (simp add: v_def s_def)
  define m where "m = pages_for (v + 2048) n"
  have v11: "take_bit 11 v = 0" and v0: "0 < v" and p: "p < 2 ^ 47" "take_bit 12 p \<le> 4088"
    "writable s (cr3 s) p \<or> drop_bit 12 p = drop_bit 12 v"
    using r by (auto simp: heap_room_def Let_def s_def v_def)
  note st = pages_for_step(1) [OF v11 al] half_page(1) [OF v11 al]
  have top: "page_top v = v" using al by (simp add: page_top_def)
  have pf: "pages_for v (Suc n) = Suc m" using st by (simp add: m_def)
  obtain ps where ps: "space_ok s (cr3 s) ps" "4 * Suc m \<le> length ps"
    using r pf by (auto simp: heap_room_def Let_def s_def v_def)
  have bound: "unat v + 4096 * Suc m \<le> 2 ^ 47" and none: "\<And>i. i < Suc m \<Longrightarrow> walk s (cr3 s) (v + of_nat (4096 * i)) = None"
    using r pf top by (auto simp: heap_room_def Let_def s_def v_def)
  have v47: "v < 2 ^ 47" using bound by (simp add: word_less_nat_alt)
  obtain s' k where s': "sys_mmap p s = Inr s'" "k < 4" "space_ok s' (cr3 s) (drop (Suc k) ps)" "cr3 s' = cr3 s"
    "v_heap s' = v + 2048" "kload64 s' p = Inr v"
    "\<And>va. va < 2 ^ 47 \<Longrightarrow> walk s' (cr3 s) va = (if drop_bit 12 va = drop_bit 12 v
       then Some (ps ! k + take_bit 12 va, all_rights) else walk s (cr3 s) va)"
    using sys_mmap_fresh [OF ps(1), of p] v47 none [of 0] ps(2) p unfolding v_def by auto
  have uw: "user_writes (w\<lparr>machine := s'\<rparr>) a" if "a < 2 ^ 47" "drop_bit 12 a = drop_bit 12 v" for a
    using s'(7) [OF that(1)] that by (simp add: user_writes_def s'(4) all_rights_def)
  have "writable s' (cr3 s') p"
    using p s'(7) [OF p(1)] by (auto simp: writable_def s'(4) all_rights_def)
  moreover have "user_writes (w\<lparr>machine := s'\<rparr>) (v + 2048)"
    using in_page_add [OF v47, of 2048] st by (intro uw) simp_all
  moreover have "walk s' (cr3 s') (v + 4096 + of_nat (4096 * i)) = None" if i: "i < m" for i
  proof -
    have e: "v + 4096 + of_nat (4096 * i) = v + of_nat (4096 * Suc i)" by simp
    have "unat v + 4096 * Suc i < 2 ^ 47" using bound i by simp
    from later_page [OF this] show ?thesis
      unfolding e s'(4) using s'(7) none [of "Suc i"] i by simp
  qed
  moreover have "unat (v + 4096) + 4096 * m \<le> 2 ^ 47" "0 < v + 2048"
    using bound by (simp_all add: unat_word_ariths word_less_nat_alt)
  moreover have "4 * m \<le> length (drop (Suc k) ps)" using ps(2) s'(2) by simp
  ultimately have "heap_room p (w\<lparr>machine := s'\<rparr>) n"
    using st p s'(3) half_bits(1) [OF v11] top
    by (auto simp: heap_room_def Let_def s'(4,5) m_def [symmetric] simp del: of_nat_mult)
  moreover have "user_writes (w\<lparr>machine := s'\<rparr>) a" if "user_writes w a" for a
  proof (cases "drop_bit 12 a = drop_bit 12 v")
    case True
    then show ?thesis using that by (intro uw) (simp_all add: user_writes_def)
  next
    case False
    then show ?thesis using that s'(7) [of a] by (simp add: user_writes_def s'(4) s_def [symmetric])
  qed
  ultimately show ?thesis
    using s' uw [OF v47 refl] unfolding s_def [symmetric] v_def [symmetric] by auto
qed

lemma room_mapped:
  assumes r: "heap_room p w (Suc n)" and al: "\<not> page_aligned (v_heap (machine w))"
  shows "\<exists>s'. sys_mmap p (machine w) = Inr s' \<and> kload64 s' p = Inr (v_heap (machine w))
    \<and> v_heap s' = v_heap (machine w) + 2048 \<and> heap_room p (w\<lparr>machine := s'\<rparr>) n
    \<and> user_writes (w\<lparr>machine := s'\<rparr>) (v_heap (machine w)) \<and> (\<exists>ps. space_ok s' (cr3 s') ps)
    \<and> (\<forall>a. user_writes w a \<longrightarrow> user_writes (w\<lparr>machine := s'\<rparr>) a)"
proof -
  define s where "s = machine w"
  define v where "v = v_heap s"
  have al: "\<not> page_aligned v" using al by (simp add: v_def s_def)
  have v11: "take_bit 11 v = 0" and v0: "0 < v" and p: "p < 2 ^ 47" "take_bit 12 p \<le> 4088"
    "writable s (cr3 s) p \<or> drop_bit 12 p = drop_bit 12 v" and uv: "user_writes w v"
    using r al by (auto simp: heap_room_def Let_def s_def v_def)
  note st = pages_for_step(2) [OF v11 al] half_page(2) [OF v11 al]
  obtain ps where ps: "space_ok s (cr3 s) ps" "4 * pages_for (v + 2048) n \<le> length ps"
    using r st by (auto simp: heap_room_def Let_def s_def v_def)
  obtain q ri where q: "v < 2 ^ 47" "walk s (cr3 s) v = Some (q, ri)" "may_user ri" "may_write ri"
    using uv by (auto simp: user_writes_def s_def)
  have wp: "writable s (cr3 s) p"
    using p same_page_rights [OF ps(1) q(1) p(1) _ q(2)] q(4) by (auto simp: writable_def)
  obtain s' where s': "sys_mmap p s = Inr s'" "space_ok s' (cr3 s) ps" "cr3 s' = cr3 s" "v_heap s' = v + 2048"
    "kload64 s' p = Inr v" "\<And>va. va < 2 ^ 47 \<Longrightarrow> walk s' (cr3 s) va = walk s (cr3 s) va"
    using sys_mmap_mapped [OF ps(1) _ _ wp] q unfolding v_def by auto
  have uw: "user_writes (w\<lparr>machine := s'\<rparr>) a \<longleftrightarrow> user_writes w a" for a
    using s'(6) [of a] by (cases "a < 2 ^ 47") (simp_all add: user_writes_def s'(3) s_def)
  have "walk s' (cr3 s') (page_top v + of_nat (4096 * i)) = None" if i: "i < pages_for (v + 2048) n" for i
  proof -
    have "unat (page_top v) + 4096 * i < 2 ^ 47" "walk s (cr3 s) (page_top v + of_nat (4096 * i)) = None"
      using r st i by (auto simp: heap_room_def Let_def s_def v_def)
    then show ?thesis unfolding s'(3) using s'(6) [OF later_page(1)] by simp
  qed
  moreover have "unat (page_top v) + 4096 * pages_for (v + 2048) n \<le> 2 ^ 47" "0 < v + 2048"
    using r st q(1) by (auto simp: heap_room_def Let_def s_def v_def word_less_nat_alt unat_word_ariths)
  moreover have "writable s' (cr3 s') p" using wp s'(6) [OF p(1)] by (simp add: writable_def s'(3))
  ultimately have "heap_room p (w\<lparr>machine := s'\<rparr>) n"
    using st p ps s'(2) half_bits(1) [OF v11]
    by (auto simp: heap_room_def Let_def s'(3,4) simp del: of_nat_mult)
  then show ?thesis
    using s' uw uv unfolding s_def [symmetric] v_def [symmetric] by auto
qed

lemma sys_mmap_room:
  assumes "heap_room p w (Suc n)"
  shows "\<exists>s'. sys_mmap p (machine w) = Inr s' \<and> kload64 s' p = Inr (v_heap (machine w))
    \<and> v_heap s' = v_heap (machine w) + 2048 \<and> heap_room p (w\<lparr>machine := s'\<rparr>) n
    \<and> (\<forall>a. a - v_heap (machine w) < 2048 \<longrightarrow> user_writes (w\<lparr>machine := s'\<rparr>) a)
    \<and> (\<forall>a. user_writes w a \<longrightarrow> user_writes (w\<lparr>machine := s'\<rparr>) a)"
proof -
  let ?v = "v_heap (machine w)"
  obtain s' ps where s': "sys_mmap p (machine w) = Inr s'" "kload64 s' p = Inr ?v"
    "v_heap s' = ?v + 2048" "heap_room p (w\<lparr>machine := s'\<rparr>) n"
    "user_writes (w\<lparr>machine := s'\<rparr>) ?v" "space_ok s' (cr3 s') ps"
    "\<forall>a. user_writes w a \<longrightarrow> user_writes (w\<lparr>machine := s'\<rparr>) a"
    using room_fresh [OF assms] room_mapped [OF assms] by (cases "page_aligned ?v") blast+
  have "take_bit 11 ?v = 0" using assms by (simp add: heap_room_def Let_def)
  then have "take_bit 12 ?v \<in> {0, 2048}" using half_page [of ?v] by blast
  then have "take_bit 12 ?v + k < 4096" if "k < 2048" for k
    using that by (auto simp: word_less_nat_alt unat_word_ariths)
  then have "user_writes (w\<lparr>machine := s'\<rparr>) a" if "a - ?v < 2048" for a
    using user_writes_page [of "w\<lparr>machine := s'\<rparr>" ps ?v "a - ?v"] s'(5,6) that by simp
  then show ?thesis using s' by blast
qed

lemma mmap_room:
  assumes "heap_room p w (Suc n)"
  shows "\<exists>w'. mmap lk p w = Inr (v_heap (machine w), w') \<and> v_heap (machine w') = v_heap (machine w) + 2048
    \<and> heap_room p w' n
    \<and> (\<forall>a. a - v_heap (machine w) < 2048 \<longrightarrow> user_writes w' a) \<and> (\<forall>a. user_writes w a \<longrightarrow> user_writes w' a)"
  using sys_mmap_room [OF assms] by (auto simp: mmap_def syscall_handler_def)

lemma heap_room_less: "heap_room p w (Suc n) \<Longrightarrow> heap_room p w n"
  by (auto simp: heap_room_def Let_def pages_for_def)

lemma heap_room_bound:
  assumes "heap_room p w n"
  shows "unat (v_heap (machine w)) + 2048 * n \<le> 2 ^ 47"
proof -
  define v where "v = v_heap (machine w)"
  have h: "unat (page_top v) + 4096 * pages_for v n \<le> 2 ^ 47" "page_aligned v \<or> v < 2 ^ 47"
    using assms by (auto simp: heap_room_def Let_def v_def user_writes_def)
  have "unat v + 2048 * n \<le> 2 ^ 47"
  proof (cases "page_aligned v")
    case True
    have "n \<le> 2 * ((n + 1) div 2)" by simp
    then show ?thesis using True h(1) by (simp add: page_top_def pages_for_def)
  next
    case False
    then have "unat (v + 2048) = unat v + 2048" using h(2) by (simp add: unat_word_ariths word_less_nat_alt)
    moreover have "n \<le> 2 * (n div 2) + 1" by simp
    ultimately show ?thesis using False h(1) by (simp add: page_top_def pages_for_def)
  qed
  then show ?thesis by (simp add: v_def)
qed

interpretation user_heap: page_source "mmap lk p" "\<lambda>w. v_heap (machine w)" "heap_room p" user_writes for lk p
proof
  show "heap_room p w n \<Longrightarrow> 0 < v_heap (machine w) \<and> take_bit 4 (v_heap (machine w)) = 0
      \<and> unat (v_heap (machine w)) + 2048 * n \<le> 2 ^ 47" for w n
    using heap_room_bound [of p w n] by (auto simp: heap_room_def Let_def half_bits)
qed (use mmap_room heap_room_less in auto)

subsection \<open>Properties\<close>

text \<open>
  C37: any sequence of allocations of at most 2048 bytes, on a heap the kernel can extend by that many
  calls of \<open>mmap\<close>, succeeds; every block is 16-byte aligned, every byte of it is mapped for the user
  to write, and a block ends before every later block starts.
\<close>

theorem malloc_blocks:
  assumes "heap_room p w (length szs)" "\<forall>sz \<in> set szs. sz \<le> 2048"
  shows "\<exists>bs h' w'. malloc_all (mmap lk p) szs heap_boot w = Inr (bs, h', w') \<and> length bs = length szs
    \<and> (\<forall>i < length szs. take_bit 4 (bs ! i) = 0 \<and> (\<forall>a. a - bs ! i < szs ! i \<longrightarrow> user_writes w' a))
    \<and> (\<forall>i j. i < j \<longrightarrow> j < length szs \<longrightarrow> unat (bs ! i) + unat (szs ! i) \<le> unat (bs ! j))"
  using user_heap.malloc_all_blocks [OF heap_boot_wf assms, of lk] by blast

definition sample_links :: links where
  "sample_links = \<lparr>mods = 0, init_name = 0, copy = 0\<rparr>"

lemma sample_room: "heap_room 0x10008 (sample_world\<lparr>machine := sample\<rparr>) 2"
proof -
  have v: "page_aligned (0x10000 :: u64)" "take_bit 11 (0x10000 :: u64) = 0" "take_bit 12 (0x10008 :: u64) = 8"
    "drop_bit 12 (0x10008 :: u64) = drop_bit 12 0x10000"
    by (simp_all add: page_aligned_def take_bit_eq_mod drop_bit_eq_div)
  have c: "cr3 sample = 0x1000" "v_heap sample = 0x10000" by (simp_all add: sample_def)
  show ?thesis
    using v sample_space sample_walk [of "0x10000"] by (auto simp: heap_room_def Let_def c page_top_def pages_for_def sample_frames_def)
qed

lemma malloc_blocks_witness:
  "\<exists>b c h' w'. malloc_all (mmap sample_links 0x10008) [24, 100] heap_boot (sample_world\<lparr>machine := sample\<rparr>) = Inr ([b, c], h', w')
    \<and> unat b + 24 \<le> unat c \<and> user_writes w' c"
proof -
  have len: "length [24, 100 :: u64] = 2" and small: "\<forall>sz \<in> set [24, 100 :: u64]. sz \<le> 2048" by simp_all
  obtain bs h' w' where r: "malloc_all (mmap sample_links 0x10008) [24, 100] heap_boot (sample_world\<lparr>machine := sample\<rparr>) = Inr (bs, h', w')"
    "length bs = 2" "\<forall>i < 2. \<forall>a. a - bs ! i < [24, 100] ! i \<longrightarrow> user_writes w' a"
    "\<forall>i j. i < j \<longrightarrow> j < 2 \<longrightarrow> unat (bs ! i) + unat ([24, 100 :: u64] ! i) \<le> unat (bs ! j)"
    using malloc_blocks [of "0x10008" "sample_world\<lparr>machine := sample\<rparr>" "[24, 100]" sample_links, unfolded len, OF sample_room small] by blast
  obtain b c where bs: "bs = [b, c]" using r(2) by (auto simp: length_Suc_conv numeral_2_eq_2)
  have "unat b + 24 \<le> unat c" using r(4) [rule_format, of 0 1] by (simp add: bs)
  moreover have "user_writes w' c" using r(3) [rule_format, of 1 c] by (simp add: bs)
  ultimately show ?thesis using r(1) unfolding bs by blast
qed

text \<open>
  C38: a block of more than 2048 bytes is the program's alone only as long as what follows fits behind it.
  \<open>malloc\<close> asks \<open>mmap\<close> for the size rounded up and books that much, but the kernel's \<open>mmap\<close> takes no size
  and moves its heap by 2048. Of two blocks, the first of more than 2048 and both of at most 4096 bytes, the second
  starts behind the first when together, each rounded up to 16, they have at most 4096 bytes; otherwise it starts
  2048 bytes into the first, and overlaps it.
\<close>

theorem malloc_overlaps:
  assumes "heap_room p w 2" "2048 < sz" "sz \<le> 4096" "0 < sz'" "sz' \<le> 4096"
  shows "\<exists>b b' h' w'. malloc_all (mmap lk p) [sz, sz'] heap_boot w = Inr ([b, b'], h', w')
    \<and> b' = (if unat (ROUND_UP sz 16) + unat (ROUND_UP sz' 16) \<le> 4096 then b + ROUND_UP sz 16 else b + 2048)
    \<and> (b' - b < sz \<longleftrightarrow> 4096 < unat (ROUND_UP sz 16) + unat (ROUND_UP sz' 16))"
proof -
  let ?b = "v_heap (machine w)" and ?r = "ROUND_UP sz 16" and ?r' = "ROUND_UP sz' 16"
  have two: "2 = Suc (Suc 0)" by simp
  obtain w1 w2 where m: "mmap lk p w = Inr (?b, w1)" "mmap lk p w1 = Inr (?b + 2048, w2)"
    using user_heap.more [OF assms(1) [unfolded two], of lk] user_heap.more [of p _ 0 lk] by metis
  have "0 < ?b" "unat ?b + 4096 \<le> 2 ^ 47" using user_heap.room_brk [OF assms(1)] by simp_all
  then have b: "?b \<noteq> 0" "?b + 2048 \<noteq> 0" by (auto simp: word_unat_eq_iff unat_word_ariths word_less_nat_alt)
  note r = round_16(1,2) [OF assms(3)] round_16(1,2) [OF assms(5)]
  have r1: "2048 < ?r" using less_le_trans [OF assms(2) r(1)] .
  then have r0: "0 < ?r" by (simp add: word_less_nat_alt)
  have room: "4096 - ?r < ?r' \<longleftrightarrow> 4096 < unat ?r + unat ?r'"
    using r(2) by (auto simp: word_less_nat_alt word_le_nat_alt unat_sub)
  let ?c = "if unat ?r + unat ?r' \<le> 4096 then ?b + ?r else ?b + 2048"
  have "\<exists>h' w'. malloc_all (mmap lk p) [sz, sz'] heap_boot w = Inr ([?b, ?c], h', w')"
    using m b r0 room round_page(2) [OF r1 r(2)] by (auto simp: malloc_def grab_def heap_boot_def Let_def)
  moreover have "?c - ?b < sz \<longleftrightarrow> 4096 < unat ?r + unat ?r'" using assms(2) r(1) by (auto simp: not_less)
  ultimately show ?thesis by blast
qed

lemma malloc_overlaps_witness:
  "(\<exists>b b' h' w'. malloc_all (mmap sample_links 0x10008) [4096, 16] heap_boot (sample_world\<lparr>machine := sample\<rparr>) = Inr ([b, b'], h', w')
      \<and> b' = b + 2048 \<and> b' - b < (4096 :: u64))
    \<and> (\<exists>b b' h' w'. malloc_all (mmap sample_links 0x10008) [2064, 16] heap_boot (sample_world\<lparr>machine := sample\<rparr>) = Inr ([b, b'], h', w')
      \<and> b' = b + 2064)"
proof -
  have r: "ROUND_UP 4096 16 = 4096" "ROUND_UP 2064 16 = 2064" "ROUND_UP 16 16 = 16" by (simp_all add: ROUND_UP_def)
  show ?thesis
    using malloc_overlaps [OF sample_room, of 4096 16 sample_links] malloc_overlaps [OF sample_room, of 2064 16 sample_links]
    by (simp add: r)
qed

end
