(* ===== verification/Debug.thy ===== *)
theory Debug
  imports Sysio MyString
begin

text \<open>
  \<open>kernel/debug.c\<close>: the debugger that \<open>exception3\<close> enters, over the whole machine. \<open>debug_links\<close> holds
  the addresses that the linker and the compiler fix: the literals the commands are compared with, the
  array \<open>buf\<close> in the frame of \<open>debug_loop\<close>, and the local of \<open>dump_stack\<close>. A character that is no
  hexadecimal digit makes \<open>translate_hex_char\<close> end without a \<open>return\<close>: what its caller then finds in the
  result register is the parameter \<open>junk\<close>.
\<close>

record debug_links =
  lit_print :: u64
  lit_stack :: u64
  lit_string :: u64
  lit_continue :: u64
  line_buf :: u64
  dummy :: u64

definition kput :: "u8 list \<Rightarrow> vararg list \<Rightarrow> world \<Rightarrow> fault + world" where
  "kput format args w = bindf (kprintf format args (screen w)) (\<lambda>t. Inr (w\<lparr>screen := t\<rparr>))"

subsection \<open>Addresses\<close>

definition hex_value :: "u8 \<Rightarrow> u8 option" where
  "hex_value c =
     (if chr CHR ''0'' \<le> c \<and> c \<le> chr CHR ''9'' then Some (c - chr CHR ''0'')
      else if chr CHR ''A'' \<le> c \<and> c \<le> chr CHR ''F'' then Some (c - chr CHR ''A'' + 10)
      else if chr CHR ''a'' \<le> c \<and> c \<le> chr CHR ''f'' then Some (c - chr CHR ''a'' + 10)
      else None)"

definition translate_hex_char :: "(u8 \<Rightarrow> u32) \<Rightarrow> u8 \<Rightarrow> u32" where
  "translate_hex_char junk c = (case hex_value c of Some d \<Rightarrow> ucast d | None \<Rightarrow> junk c)"

text \<open>The last loop of both functions: \<open>addr += nums[i] * curr_multiple\<close> for the indices downwards.\<close>

definition weigh :: "u64 list \<Rightarrow> nat \<Rightarrow> u64" where
  "weigh nums n = fst (fold (\<lambda>i (addr, multiple). (addr + nums ! i * multiple, multiple * 16)) (rev [0..<n]) (0, 1))"

definition conv_addr :: "(u8 \<Rightarrow> u32) \<Rightarrow> mem \<Rightarrow> u64 \<Rightarrow> fault + u64" where
  "conv_addr junk m inp =
     bindf (strlen m inp) (\<lambda>len.
     bindf (foldf (\<lambda>i nums. if i - 2 < 16 then Inr (nums[i - 2 := translate_hex_char junk (byte_at m inp i)])
                            else Inl Undefined) (rev [2..<len]) (replicate 16 0)) (\<lambda>nums.
     Inr (weigh (map scast nums) (len - 3))))"

function get_addr_loop :: "u64 list \<Rightarrow> nat \<Rightarrow> world \<Rightarrow> fault + (u64 list \<times> nat \<times> world)" where
  "get_addr_loop nums curr_ind w =
     bindf (kgetc (kbd w)) (\<lambda>(c, k).
       if c = 0x0A then Inr (nums, curr_ind, w\<lparr>kbd := k\<rparr>)
       else if curr_ind = 16 then Inr (nums, 15, w\<lparr>kbd := k\<rparr>)
       else bindf (kprintf (str ''%c'') [WordArg (scast c)] (screen w)) (\<lambda>t.
              get_addr_loop (case hex_value c of Some d \<Rightarrow> nums[curr_ind := ucast d] | None \<Rightarrow> nums)
                (curr_ind + 1) (w\<lparr>kbd := k, screen := t\<rparr>)))"
  by pat_completeness auto
termination
  by (relation "measure (\<lambda>(nums, curr_ind, w). unat (avail (kbd w)))") (auto dest: kgetc_avail)

declare get_addr_loop.simps [simp del]

definition get_addr :: "world \<Rightarrow> fault + (u64 \<times> world)" where
  "get_addr w =
     bindf (kput (str ''Input address -> 0x'') [] w) (\<lambda>w.
     bindf (get_addr_loop (replicate 16 0) 0 w) (\<lambda>(nums, curr_ind, w).
     let curr_ind = (if curr_ind = 16 then 15 else curr_ind) in
     bindf (kput [0x0A] [] w) (\<lambda>w.
     Inr (weigh nums (curr_ind + 1), w))))"

subsection \<open>Dumps\<close>

abbreviation (input) HEXDUMP :: nat where "HEXDUMP \<equiv> 0"
abbreviation (input) DECDUMP :: nat where "DECDUMP \<equiv> 1"
abbreviation (input) CHARDUMP :: nat where "CHARDUMP \<equiv> 2"

definition dump_cell :: "u64 \<Rightarrow> nat \<Rightarrow> nat \<Rightarrow> world \<Rightarrow> fault + world" where
  "dump_cell row flag j w =
     bindf (kload8 (machine w) (row + of_nat j)) (\<lambda>v.
       let val = ucast v in
       if flag = HEXDUMP then
         bindf (kput (str '' '') [] w) (\<lambda>w.
         bindf (if v \<le> 0xF then kput (str ''0'') [] w else Inr w)
           (kput (str ''%x'') [WordArg val]))
       else if flag = DECDUMP then kput (str '' %d'') [WordArg val] w
       else kput (str '' %c'') [WordArg val] w)"

definition dump_row :: "u64 \<Rightarrow> nat \<Rightarrow> nat \<Rightarrow> nat \<Rightarrow> world \<Rightarrow> fault + world" where
  "dump_row start flag cols i w =
     (if INT_MAX < cols * i then Inl Undefined
      else bindf (kput (str ''%p:'') [WordArg (start + of_nat (cols * i))] w) (\<lambda>w.
           bindf (foldf (dump_cell (start + of_nat (cols * i)) flag) [0..<cols] w)
             (kput [0x0A] [])))"

definition dump_mem :: "u64 \<Rightarrow> nat \<Rightarrow> nat \<Rightarrow> nat \<Rightarrow> world \<Rightarrow> fault + world" where
  "dump_mem start flag rows cols w = foldf (dump_row start flag cols) [0..<rows] w"

definition print_int :: "u64 \<Rightarrow> world \<Rightarrow> fault + world" where
  "print_int p w = bindf (kload32 (machine w) p) (\<lambda>v. kput (line ''%p: %d'') [WordArg p, WordArg v] w)"

text \<open>\<open>strlen\<close> of a string anywhere, each byte read through the page tables.\<close>

function kstrlen_loop :: "kstate \<Rightarrow> u64 \<Rightarrow> nat \<Rightarrow> fault + nat" where
  "kstrlen_loop s p i =
     bindf (kload8 s (p + of_nat i)) (\<lambda>c.
       if c \<noteq> 0 then (if i < INT_MAX then kstrlen_loop s p (i + 1) else Inl Undefined) else Inr i)"
  by pat_completeness auto
termination
  by (relation "measure (\<lambda>(s, p, i). INT_MAX - i)") auto

declare kstrlen_loop.simps [simp del]

definition kstrlen :: "kstate \<Rightarrow> u64 \<Rightarrow> fault + nat" where
  "kstrlen s p = bindf (kstrlen_loop s p 0) (\<lambda>i. if i < INT_MAX then Inr (i + 1) else Inl Undefined)"

definition print_string :: "u64 \<Rightarrow> world \<Rightarrow> fault + world" where
  "print_string p w =
     bindf (kstrlen (machine w) p) (\<lambda>n.
     bindf (kput (line ''len: %d'') [WordArg (of_nat n)] w) (\<lambda>w.
     bindf (kstrlen (machine w) p) (\<lambda>n. dump_mem p CHARDUMP 1 n w)))"

definition dump_stack :: "debug_links \<Rightarrow> world \<Rightarrow> fault + world" where
  "dump_stack dl w = dump_mem (dummy dl) HEXDUMP 20 20 w"

subsection \<open>The command line\<close>

function read_line :: "u64 \<Rightarrow> int \<Rightarrow> u8 \<Rightarrow> world \<Rightarrow> fault + (int \<times> world)" where
  "read_line buf i c w =
     (if c = 0x0A then Inr (i, w)
      else bindf (if c = 0x08 then Inr (i - 1, machine w)
                  else if 0 \<le> i \<and> i < 70
                  then bindf (kstore8 (buf + word_of_int i) c (machine w)) (\<lambda>s. Inr (i + 1, s))
                  else Inl Undefined) (\<lambda>(i, s).
           bindf (kgetc (kbd w)) (\<lambda>(d, k).
           bindf (kprintf (str ''%c'') [WordArg (scast d)] (screen w)) (\<lambda>t.
             read_line buf i d (w\<lparr>machine := s, kbd := k, screen := t\<rparr>)))))"
  by pat_completeness auto
termination
  by (relation "measure (\<lambda>(buf, i, c, w). unat (avail (kbd w)))") (auto dest: kgetc_avail)

declare read_line.simps [simp del]

text \<open>The prompt, \<open>char buf[70] = { 0 }\<close>, and the line read into it.\<close>

definition prompt :: "u64 \<Rightarrow> world \<Rightarrow> fault + world" where
  "prompt buf w =
     bindf (kput (str ''(debug) >>> '') [] w) (\<lambda>w.
     let w = w\<lparr>machine := (machine w)\<lparr>mem := memset buf 70 (mem (machine w))\<rparr>\<rparr> in
     bindf (kgetc (kbd w)) (\<lambda>(c, k).
     bindf (kput (str ''%c'') [WordArg (scast c)] (w\<lparr>kbd := k\<rparr>)) (\<lambda>w.
     bindf (read_line buf 0 c w) (\<lambda>(i, w).
     if 0 \<le> i \<and> i < 70
     then bindf (kstore8 (buf + word_of_int i) 0 (machine w)) (\<lambda>s. Inr (w\<lparr>machine := s\<rparr>))
     else Inl Undefined))))"

definition debug_print :: "debug_links \<Rightarrow> (u8 \<Rightarrow> u32) \<Rightarrow> (nat \<Rightarrow> u64) \<Rightarrow> world \<Rightarrow> fault + world" where
  "debug_print dl junk word w =
     (let m = mem (machine w) in
      if word 1 = 0 then bindf (get_addr w) (\<lambda>(ptr, w). print_int ptr w)
      else bindf (my_strcmp m (lit_stack dl) (word 1)) (\<lambda>r.
        if r = 0 then dump_stack dl w
        else bindf (my_strcmp m (lit_string dl) (word 1)) (\<lambda>r.
          if r = 0
          then (if word 2 = 0 then kput (line ''The next argument must be an address'') [] w
                else bindf (conv_addr junk m (word 2)) (\<lambda>p. print_string p w))
          else if m (word 1) = chr CHR ''0''
          then bindf (conv_addr junk m (word 1)) (\<lambda>ptr. print_int ptr w)
          else kput (line ''Valid arguments are an address or [string], followed by an address'') [] w)))"

text \<open>One command: whether it was \<open>continue\<close>. \<open>line_words\<close> has room for five words.\<close>

definition debug_command :: "debug_links \<Rightarrow> (u8 \<Rightarrow> u32) \<Rightarrow> world \<Rightarrow> fault + (bool \<times> world)" where
  "debug_command dl junk w =
     bindf (words (mem (machine w)) (line_buf dl)) (\<lambda>(m, ptrs).
       if 5 < length ptrs then Inl Undefined
       else let w = w\<lparr>machine := (machine w)\<lparr>mem := m\<rparr>\<rparr>;
                word = (\<lambda>i. if i < length ptrs then ptrs ! i else 0);
                usage = bindf (kput (line ''Valid commands are: [print] [continue]'') [] w) (\<lambda>w. Inr (False, w))
            in if word 0 = 0 then usage
               else bindf (my_strcmp m (lit_print dl) (word 0)) (\<lambda>r.
                 if r = 0 then bindf (debug_print dl junk word w) (\<lambda>w. Inr (False, w))
                 else bindf (my_strcmp m (lit_continue dl) (word 0)) (\<lambda>r.
                   if r = 0 then Inr (True, w) else usage)))"

subsection \<open>The loop\<close>

text \<open>Every round takes a key, so the loop ends or waits for one.\<close>

definition keys_left :: "world \<Rightarrow> nat" where
  "keys_left w = unat (avail (kbd w))"

lemma kput_keys: "kput format args w = Inr w' \<Longrightarrow> kbd w' = kbd w"
  by (auto simp: kput_def bindf_Inr)

lemma foldf_keys:
  "(\<And>x w w'. f x w = Inr w' \<Longrightarrow> kbd w' = kbd w) \<Longrightarrow> foldf f xs w = Inr w' \<Longrightarrow> kbd w' = kbd w"
  by (induction xs arbitrary: w) (auto simp: bindf_Inr)

lemma dump_cell_keys: "dump_cell row flag j w = Inr w' \<Longrightarrow> kbd w' = kbd w"
  by (auto simp: dump_cell_def bindf_Inr Let_def dest!: kput_keys split: if_splits)

lemma dump_cells_keys: "foldf (dump_cell row flag) js w = Inr w' \<Longrightarrow> kbd w' = kbd w"
  by (rule foldf_keys [where f = "dump_cell row flag"]) (rule dump_cell_keys)

lemma dump_row_keys: "dump_row start flag cols i w = Inr w' \<Longrightarrow> kbd w' = kbd w"
  by (auto simp: dump_row_def bindf_Inr simp del: of_nat_mult dest!: kput_keys dump_cells_keys split: if_splits)

lemma dump_mem_keys: "dump_mem start flag rows cols w = Inr w' \<Longrightarrow> kbd w' = kbd w"
  unfolding dump_mem_def by (rule foldf_keys [where f = "dump_row start flag cols"]) (rule dump_row_keys)

lemma dump_keys:
  "print_int p w = Inr w' \<Longrightarrow> kbd w' = kbd w"
  "print_string p w = Inr w' \<Longrightarrow> kbd w' = kbd w"
  "dump_stack dl w = Inr w' \<Longrightarrow> kbd w' = kbd w"
  by (auto simp: print_int_def print_string_def dump_stack_def bindf_Inr dest!: kput_keys dump_mem_keys)

lemma get_addr_loop_keys: "get_addr_loop nums n w = Inr (ns, m, w') \<Longrightarrow> keys_left w' < keys_left w"
proof (induction nums n w rule: get_addr_loop.induct)
  case (1 nums n w)
  then show ?case
    by (subst (asm) (2) get_addr_loop.simps)
      (fastforce simp: bindf_Inr keys_left_def split: if_splits dest: kgetc_avail less_trans)
qed

lemma get_addr_keys: "get_addr w = Inr (a, w') \<Longrightarrow> keys_left w' < keys_left w"
  by (auto simp: get_addr_def bindf_Inr Let_def dest!: kput_keys get_addr_loop_keys) (simp_all add: keys_left_def)

lemma read_line_keys: "read_line buf i c w = Inr (j, w') \<Longrightarrow> keys_left w' \<le> keys_left w"
proof (induction buf i c w rule: read_line.induct)
  case (1 buf i c w)
  then show ?case
    by (subst (asm) (2) read_line.simps)
      (fastforce simp: bindf_Inr keys_left_def split: if_splits dest: kgetc_avail)
qed

lemma prompt_keys: "prompt buf w = Inr w' \<Longrightarrow> keys_left w' < keys_left w"
  by (fastforce simp: prompt_def bindf_Inr Let_def keys_left_def split: if_splits
      dest!: kput_keys read_line_keys kgetc_avail)

lemma debug_print_keys: "debug_print dl junk word w = Inr w' \<Longrightarrow> unat (avail (kbd w')) \<le> unat (avail (kbd w))"
  by (fastforce simp: debug_print_def bindf_Inr Let_def keys_left_def split: if_splits
      dest: kput_keys dump_keys dest!: get_addr_keys)

lemma debug_command_keys: "debug_command dl junk w = Inr (b, w') \<Longrightarrow> keys_left w' \<le> keys_left w"
  by (auto simp: debug_command_def bindf_Inr Let_def keys_left_def split: if_splits dest!: kput_keys debug_print_keys)

function debug_loop :: "debug_links \<Rightarrow> (u8 \<Rightarrow> u32) \<Rightarrow> world \<Rightarrow> fault + world" where
  "debug_loop dl junk w =
     bindf (prompt (line_buf dl) w) (\<lambda>w1.
     bindf (debug_command dl junk w1) (\<lambda>(stop, w2).
     if stop then Inr w2 else debug_loop dl junk w2))"
  by pat_completeness auto
termination
  by (relation "measure (\<lambda>(dl, junk, w). keys_left w)") (auto dest: prompt_keys debug_command_keys le_less_trans)

declare debug_loop.simps [simp del]

definition exception3 :: "debug_links \<Rightarrow> (u8 \<Rightarrow> u32) \<Rightarrow> world \<Rightarrow> fault + world" where
  "exception3 dl junk w = debug_loop dl junk w"

subsection \<open>Hexadecimal input\<close>

text \<open>The digits a text denotes, and their value.\<close>

definition hex_digits :: "u8 list \<Rightarrow> u8 list \<Rightarrow> bool" where
  "hex_digits cs ds \<longleftrightarrow> map hex_value cs = map Some ds"

definition hex_number :: "u8 list \<Rightarrow> u64" where
  "hex_number ds = of_nat (value_of 16 (map unat ds))"

lemma hex_value_less: "hex_value c = Some d \<Longrightarrow> d < 16"
  by (auto simp: hex_value_def word_less_nat_alt word_le_nat_alt unat_word_ariths unat_sub split: if_splits)

lemma hex_number_snoc: "hex_number (ds @ [d]) = 16 * hex_number ds + ucast d"
  by (simp add: hex_number_def value_of_def mult.commute unsigned_of_nat)

lemma weigh_fold:
  "fold (\<lambda>i (addr, multiple). (addr + nums ! i * multiple, multiple * 16)) (rev [0..<length ds]) (a, m)
     = (a + m * hex_number ds, m * 16 ^ length ds)"
  if "\<And>i. i < length ds \<Longrightarrow> nums ! i = ucast (ds ! i)"
  using that
proof (induction ds arbitrary: a m rule: rev_induct)
  case Nil
  then show ?case by (simp add: hex_number_def value_of_def)
next
  case (snoc d ds)
  have "nums ! i = ucast (ds ! i)" if "i < length ds" for i
    using snoc.prems [of i] that by (simp add: nth_append)
  note IH = snoc.IH [OF this]
  have "nums ! length ds = ucast d" using snoc.prems [of "length ds"] by simp
  then show ?case by (simp add: IH) (simp add: hex_number_snoc algebra_simps)
qed

lemma weigh_digits: "(\<And>i. i < length ds \<Longrightarrow> nums ! i = ucast (ds ! i)) \<Longrightarrow> weigh nums (length ds) = hex_number ds"
  using weigh_fold [of ds nums 0 1] by (simp add: weigh_def)

lemma foldf_updates:
  assumes "n \<le> 18"
  shows "\<exists>ys. foldf (\<lambda>i nums. if i - 2 < 16 then Inr (nums[i - 2 := g i]) else Inl Undefined) (rev [2..<n]) xs = Inr ys
    \<and> length ys = length xs \<and> (\<forall>k < length xs. ys ! k = (if k + 2 < n then g (k + 2) else xs ! k))"
  using assms
proof (induction n arbitrary: xs)
  case (Suc n)
  show ?case
  proof (cases "2 \<le> n")
    case True
    obtain ys where ys: "foldf (\<lambda>i nums. if i - 2 < 16 then Inr (nums[i - 2 := g i]) else Inl Undefined) (rev [2..<n]) (xs[n - 2 := g n]) = Inr ys"
      "length ys = length xs" "\<forall>k < length xs. ys ! k = (if k + 2 < n then g (k + 2) else xs[n - 2 := g n] ! k)"
      using Suc.IH [of "xs[n - 2 := g n]"] Suc.prems by auto
    have "rev [2..<Suc n] = n # rev [2..<n]" "n - 2 < 16" using True Suc.prems by simp_all
    then have "foldf (\<lambda>i nums. if i - 2 < 16 then Inr (nums[i - 2 := g i]) else Inl Undefined) (rev [2..<Suc n]) xs = Inr ys"
      using ys(1) by simp
    moreover have "ys ! k = (if k + 2 < Suc n then g (k + 2) else xs ! k)" if "k < length xs" for k
    proof (cases "k = n - 2")
      case True
      then have "k + 2 = n" using \<open>2 \<le> n\<close> by simp
      then show ?thesis using ys(3) that True by simp
    next
      case False
      then have "k + 2 < Suc n \<longleftrightarrow> k + 2 < n" using \<open>2 \<le> n\<close> by auto
      then show ?thesis using ys(3) that False by simp
    qed
    ultimately show ?thesis using ys(2) by blast
  qed (simp add: not_le)
qed simp

lemma hex_digits_nth: "hex_digits cs ds \<Longrightarrow> length cs = length ds \<and> (\<forall>i < length ds. hex_value (cs ! i) = Some (ds ! i))"
  unfolding hex_digits_def by (metis length_map nth_map)

lemma conv_addr_digits:
  assumes m: "cstring m p (z # x # cs)" and d: "hex_digits cs ds" and that: "length cs + 2 < INT_MAX"
  shows "conv_addr junk m p = (if length cs < 16 then Inr (hex_number ds) else Inl Undefined)"
proof -
  note h = hex_digits_nth [OF d]
  have len: "strlen m p = Inr (length cs + 3)" using strlen_cstring [OF m] that by simp
  let ?f = "\<lambda>i nums. if i - 2 < 16 then Inr (nums[i - 2 := translate_hex_char junk (byte_at m p i)]) else Inl Undefined"
  have r: "rev [2..<length cs + 3] = (length cs + 2) # rev [2..<length cs + 2]"
    by (simp add: eval_nat_numeral)
  show ?thesis
  proof (cases "length cs < 16")
    case False
    have "foldf ?f (rev [2..<length cs + 3]) (replicate 16 0) = Inl Undefined"
      unfolding r using False by (simp add: bindf_def)
    then show ?thesis using False by (simp add: conv_addr_def len)
  next
    case True
    then obtain ys where ys: "foldf ?f (rev [2..<length cs + 3]) (replicate 16 0) = Inr ys" "length ys = 16"
      "\<forall>k < 16. ys ! k = (if k + 2 < length cs + 3 then translate_hex_char junk (byte_at m p (k + 2)) else (replicate 16 0) ! k)"
      using foldf_updates [of "length cs + 3" "\<lambda>i. translate_hex_char junk (byte_at m p i)" "replicate 16 0"] by auto
    have "map scast ys ! i = (ucast (ds ! i) :: u64)" if i: "i < length ds" for i
    proof -
      have b: "byte_at m p (i + 2) = cs ! i" using m i h by (simp add: cstring_def)
      have "scast (ucast (ds ! i) :: u32) = (ucast (ds ! i) :: u64)"
        by (rule bit_word_eqI) (auto simp: bits min_def dest: bit_u8_less split: if_splits)
      then show ?thesis using ys h i True b by (simp add: translate_hex_char_def)
    qed
    then have "weigh (map scast ys) (length cs) = hex_number ds"
      using weigh_digits [of ds "map scast ys"] h by simp
    moreover have "conv_addr junk m p = Inr (weigh (map scast ys) (length cs))"
      unfolding conv_addr_def len using ys(1) by simp
    ultimately show ?thesis using True by simp
  qed
qed

lemma hex_value_key: "hex_value c = Some d \<Longrightarrow> c \<noteq> 0x0A"
  by (auto simp: hex_value_def)

lemma hex_digits_Cons: "hex_digits (c # cs) ds' \<longleftrightarrow> (\<exists>d ds. ds' = d # ds \<and> hex_value c = Some d \<and> hex_digits cs ds)"
  by (cases ds') (auto simp: hex_digits_def)

lemma get_addr_loop_digits:
  assumes "kbd_ok (kbd w)" "chars (kbd w) = cs @ e # rest" "hex_digits cs ds" "length pre + length cs \<le> 16"
    and "e = 0x0A \<or> length pre + length cs = 16" "length nums = 16" "\<forall>i < length pre. nums ! i = ucast (pre ! i)"
    "\<forall>i. length pre \<le> i \<longrightarrow> i < 16 \<longrightarrow> nums ! i = 0"
  shows "\<exists>nums' k. get_addr_loop nums (length pre) w = Inr (nums', if e = 0x0A then length pre + length cs else 15,
        w\<lparr>kbd := k, screen := fold term_putchar cs (screen w)\<rparr>)
    \<and> kbd_ok k \<and> chars k = rest \<and> length nums' = 16
    \<and> (\<forall>i < length pre + length cs. nums' ! i = ucast ((pre @ ds) ! i))
    \<and> (\<forall>i. length pre + length cs \<le> i \<longrightarrow> i < 16 \<longrightarrow> nums' ! i = 0)"
  using assms
proof (induction cs arbitrary: w ds pre nums)
  case Nil
  then have ds: "ds = []" by (simp add: hex_digits_def)
  obtain k where k: "kgetc (kbd w) = Inr (e, k)" "kbd_ok k" "chars k = rest"
    using kgetc_chars(2) [OF Nil.prems(1), of e rest] Nil.prems(2) by auto
  have "get_addr_loop nums (length pre) w = Inr (nums, if e = 0x0A then length pre else 15, w\<lparr>kbd := k\<rparr>)"
    using k(1) Nil.prems(5) by (subst get_addr_loop.simps) auto
  then show ?case using k Nil.prems(6-8) ds by (intro exI [of _ nums] exI [of _ k]) auto
next
  case (Cons c cs)
  obtain d es where ds: "ds = d # es" "hex_value c = Some d" "hex_digits cs es"
    using Cons.prems(3) by (auto simp: hex_digits_Cons)
  obtain k where k: "kgetc (kbd w) = Inr (c, k)" "kbd_ok k" "chars k = cs @ e # rest"
    using kgetc_chars(2) [OF Cons.prems(1), of c "cs @ e # rest"] Cons.prems(2) by auto
  let ?w = "w\<lparr>kbd := k, screen := term_putchar c (screen w)\<rparr>"
  let ?nums = "nums[length pre := ucast d]"
  have "\<exists>nums' k. get_addr_loop ?nums (length (pre @ [d])) ?w = Inr (nums', if e = 0x0A then length (pre @ [d]) + length cs else 15,
        ?w\<lparr>kbd := k, screen := fold term_putchar cs (screen ?w)\<rparr>)
    \<and> kbd_ok k \<and> chars k = rest \<and> length nums' = 16
    \<and> (\<forall>i < length (pre @ [d]) + length cs. nums' ! i = ucast (((pre @ [d]) @ es) ! i))
    \<and> (\<forall>i. length (pre @ [d]) + length cs \<le> i \<longrightarrow> i < 16 \<longrightarrow> nums' ! i = 0)"
  proof (rule Cons.IH)
    show "\<forall>i < length (pre @ [d]). ?nums ! i = ucast ((pre @ [d]) ! i)"
      using Cons.prems(4,6,7) by (auto simp: nth_append nth_list_update less_Suc_eq)
    show "\<forall>i. length (pre @ [d]) \<le> i \<longrightarrow> i < 16 \<longrightarrow> ?nums ! i = 0"
      using Cons.prems(8) by simp
  qed (use Cons.prems k ds in auto)
  moreover have "get_addr_loop nums (length pre) w = get_addr_loop ?nums (length (pre @ [d])) ?w"
    using k(1) ds(2) hex_value_key [OF ds(2)] Cons.prems(4) kprintf_char
    by (subst get_addr_loop.simps) simp
  ultimately show ?case by (cases "e = 0x0A") (simp_all add: ds(1))
qed

lemma kput_text: "ktext format args = Some u \<Longrightarrow> kput format args w = Inr (w\<lparr>screen := fold term_putchar u (screen w)\<rparr>)"
  by (simp add: kput_def kprintf_text)

lemma get_addr_digits:
  assumes "kbd_ok (kbd w)" "chars (kbd w) = cs @ e # rest" "hex_digits cs ds"
    and "length cs \<le> 16" "e = 0x0A \<or> length cs = 16"
  shows "\<exists>k. get_addr w = Inr (if length cs < 16 then 16 * hex_number ds else hex_number ds,
      w\<lparr>kbd := k, screen := fold term_putchar (str ''Input address -> 0x'' @ cs @ [0x0A]) (screen w)\<rparr>)
    \<and> kbd_ok k \<and> chars k = rest"
proof -
  let ?w = "w\<lparr>screen := fold term_putchar (str ''Input address -> 0x'') (screen w)\<rparr>"
  have p: "kput (str ''Input address -> 0x'') [] w = Inr ?w"
    by (rule kput_text, rule ktext_literal) simp
  have nl: "kput [0x0A] [] v = Inr (v\<lparr>screen := term_putchar 0x0A (screen v)\<rparr>)" for v
    using kput_text [OF ktext_literal [of "[0x0A]" "[]"], of v] by simp
  obtain nums k where l: "get_addr_loop (replicate 16 0) 0 ?w = Inr (nums, if e = 0x0A then length cs else 15,
        ?w\<lparr>kbd := k, screen := fold term_putchar cs (screen ?w)\<rparr>)"
    "kbd_ok k" "chars k = rest" "length nums = 16" "\<forall>i < length cs. nums ! i = ucast (ds ! i)"
    "\<forall>i. length cs \<le> i \<longrightarrow> i < 16 \<longrightarrow> nums ! i = 0"
    using get_addr_loop_digits [of ?w cs e rest ds "[]" "replicate 16 0"] assms by auto
  have h: "length cs = length ds" using hex_digits_nth [OF assms(3)] by simp
  define n where "n = (if e = 0x0A then length cs else 15)"
  have "weigh nums ((if n = 16 then 15 else n) + 1) = (if length cs < 16 then 16 * hex_number ds else hex_number ds)"
  proof (cases "length cs < 16")
    case True
    then have "weigh nums (length (ds @ [0])) = hex_number (ds @ [0])"
      using l(5,6) h by (intro weigh_digits) (auto simp: nth_append less_Suc_eq)
    then show ?thesis using True assms(5) h by (simp add: n_def hex_number_snoc)
  next
    case False
    then have "weigh nums (length ds) = hex_number ds" using l(5) h by (intro weigh_digits) simp
    then show ?thesis using False assms(4,5) h by (auto simp: n_def)
  qed
  then show ?thesis
    using l(1-3) unfolding get_addr_def p by (auto simp: Let_def nl n_def)
qed

subsection \<open>Properties\<close>

text \<open>
  C39: the two ways to give the debugger an address. \<open>conv_addr\<close> of a word of the command line is the
  number its hexadecimal digits denote for at most 15 digits; with 16 it stores past its array.
  \<open>get_addr\<close>, with the same digits typed at its prompt, is 16 times that number for fewer than 16 digits
  and the number only for exactly 16; it takes the keys up to the newline and echoes them.
\<close>

theorem debugger_addresses:
  assumes "hex_digits cs ds" "length cs \<le> 16"
    and "cstring m p (chr CHR ''0'' # chr CHR ''x'' # cs)"
    and "kbd_ok (kbd w)" "chars (kbd w) = cs @ 0x0A # rest"
  shows "conv_addr junk m p = (if length cs < 16 then Inr (hex_number ds) else Inl Undefined)
    \<and> (\<exists>k. get_addr w = Inr (if length cs < 16 then 16 * hex_number ds else hex_number ds,
          w\<lparr>kbd := k, screen := fold term_putchar (str ''Input address -> 0x'' @ cs @ [0x0A]) (screen w)\<rparr>)
        \<and> kbd_ok k \<and> chars k = rest)"
  using conv_addr_digits [OF assms(3,1)] get_addr_digits [OF assms(4,5,1,2)] assms(2) by simp

definition address_line :: mem where
  "address_line = (\<lambda>_. 0)(0x100 := 0x30, 0x101 := 0x78, 0x102 := 0x31, 0x103 := 0x66)"

lemma debugger_addresses_witness:
  "conv_addr (\<lambda>_. 0) address_line 0x100 = Inr 0x1F
   \<and> (\<exists>k t. get_addr (sample_world\<lparr>kbd := typed [0x31, 0x66, 0x0A, 0x78]\<rparr>) =
        Inr (0x1F0, sample_world\<lparr>kbd := k, screen := t\<rparr>) \<and> chars k = [0x78])"
proof -
  have d: "hex_digits [0x31, 0x66] [0x1, 0xF]" by (simp add: hex_digits_def hex_value_def)
  have s: "cstring address_line 0x100 (chr CHR ''0'' # chr CHR ''x'' # [0x31, 0x66])"
    by (simp add: cstring_Cons cstring_Nil address_line_def byte_at_def)
  have k: "kbd_ok (typed [0x31, 0x66, 0x0A, 0x78])" "chars (typed [0x31, 0x66, 0x0A, 0x78]) = [0x31, 0x66] @ 0x0A # [0x78]"
    by (simp_all add: typed_def kbd_boot_def kbd_ok_def chars_def upt_rec)
  have n: "hex_number [0x1, 0xF] = 0x1F" by (simp add: hex_number_def value_of_def)
  show ?thesis
    using debugger_addresses [OF d _ s, of "sample_world\<lparr>kbd := typed [0x31, 0x66, 0x0A, 0x78]\<rparr>" "[0x78]" "\<lambda>_. 0"] k n
    by auto
qed

end
