(* ===== verification/Myio.thy ===== *)
theory Myio
  imports Malloc
begin

text \<open>
  \<open>stdlib/myio.c\<close>: the user library's input and output, each character a system call. \<open>loc\<close> is the
  address of the character variable in the frame of the caller, on the program's stack. The printing
  functions are those of \<open>kernel/kprint.c\<close> over \<open>print_c\<close>, except that \<open>%x\<close> keeps all the bits of its
  argument; a fault in one character ends the whole call.
\<close>

subsection \<open>Reading and writing\<close>

definition my_write :: "links \<Rightarrow> u64 \<Rightarrow> u64 \<Rightarrow> u64 \<Rightarrow> world \<Rightarrow> fault + world" where
  "my_write lk fp buf len w = bindf (syscall_handler lk 1 fp buf len w) (\<lambda>(r, w). Inr w)"

definition my_read :: "links \<Rightarrow> u64 \<Rightarrow> u64 \<Rightarrow> u64 \<Rightarrow> world \<Rightarrow> fault + world" where
  "my_read lk fp buf len w = bindf (syscall_handler lk 0 fp buf len w) (\<lambda>(r, w). Inr w)"

definition print_c :: "links \<Rightarrow> u64 \<Rightarrow> u8 \<Rightarrow> world \<Rightarrow> fault + world" where
  "print_c lk loc c w = bindf (kstore8 loc c (machine w)) (\<lambda>s. my_write lk 1 loc 1 (w\<lparr>machine := s\<rparr>))"

subsection \<open>Printing\<close>

text \<open>\<open>print_c\<close> as the last of a series of characters, of which one may have failed.\<close>

definition print_k :: "links \<Rightarrow> u64 \<Rightarrow> u8 \<Rightarrow> fault + world \<Rightarrow> fault + world" where
  "print_k lk loc c r = bindf r (print_c lk loc c)"

definition joinf :: "fault + (fault + world) \<Rightarrow> fault + world" where
  "joinf r = bindf r (\<lambda>r. r)"

definition print_s :: "links \<Rightarrow> u64 \<Rightarrow> u8 list \<Rightarrow> world \<Rightarrow> fault + world" where
  "print_s lk loc cs w = emit_s (print_k lk loc) cs (Inr w)"

definition print_d :: "links \<Rightarrow> u64 \<Rightarrow> u64 \<Rightarrow> world \<Rightarrow> fault + world" where
  "print_d lk loc v w = joinf (emit_d (print_k lk loc) v (Inr w))"

definition print_x :: "links \<Rightarrow> u64 \<Rightarrow> u64 \<Rightarrow> world \<Rightarrow> fault + world" where
  "print_x lk loc v w = joinf (emit_x (print_k lk loc) v (Inr w))"

definition print_p :: "links \<Rightarrow> u64 \<Rightarrow> u64 \<Rightarrow> world \<Rightarrow> fault + world" where
  "print_p lk loc v w = joinf (emit_p (print_k lk loc) v (Inr w))"

definition printf :: "links \<Rightarrow> u64 \<Rightarrow> u8 list \<Rightarrow> vararg list \<Rightarrow> world \<Rightarrow> fault + world" where
  "printf lk loc format args w = joinf (format_loop (print_k lk loc) (\<lambda>v. v) format False args (Inr w))"

subsection \<open>getline\<close>

text \<open>
  The 255 bytes at \<open>p\<close>, one key at a time, echoed. After 254 characters without a newline the function
  ends without a \<open>return\<close>; its caller finds \<open>junk\<close>.
\<close>

function getline_loop :: "links \<Rightarrow> u64 \<Rightarrow> u64 \<Rightarrow> u64 \<Rightarrow> nat \<Rightarrow> world \<Rightarrow> fault + (u64 \<times> world)" where
  "getline_loop lk loc junk p i w =
     (if i < 254
      then bindf (my_read lk 0 loc 1 w) (\<lambda>w.
           bindf (kload8 (machine w) loc) (\<lambda>curr.
           bindf (printf lk loc (str ''%c'') [WordArg (scast curr)] w) (\<lambda>w.
           bindf (kstore8 (p + of_nat i) curr (machine w)) (\<lambda>s.
             if curr = 0x0A
             then bindf (kstore8 (p + of_nat (i + 1)) 0 s) (\<lambda>s. Inr (p, w\<lparr>machine := s\<rparr>))
             else getline_loop lk loc junk p (i + 1) (w\<lparr>machine := s\<rparr>)))))
      else bindf (kstore8 (p + 254) 0 (machine w)) (\<lambda>s. Inr (junk, w\<lparr>machine := s\<rparr>)))"
  by pat_completeness auto
termination
  by (relation "measure (\<lambda>(lk, loc, junk, p, i, w). 254 - i)") auto

declare getline_loop.simps [simp del]

definition getline :: "links \<Rightarrow> u64 \<Rightarrow> u64 \<Rightarrow> u64 \<Rightarrow> heap \<Rightarrow> world \<Rightarrow> fault + (u64 \<times> heap \<times> world)" where
  "getline lk var loc junk h w =
     bindf (malloc (mmap lk var) 255 h w) (\<lambda>(p, h, w).
     bindf (getline_loop lk loc junk p 0 w) (\<lambda>(r, w). Inr (r, h, w)))"

subsection \<open>One character\<close>

definition cell_ok :: "u64 \<Rightarrow> world \<Rightarrow> bool" where
  "cell_ok loc w \<longleftrightarrow> loc < 2 ^ 47 \<and> (\<exists>ps. space_ok (machine w) (cr3 (machine w)) ps)
     \<and> (\<exists>p r. walk (machine w) (cr3 (machine w)) loc = Some (p, r) \<and> may_write r)"

lemma print_c_ok:
  assumes "cell_ok loc w"
  shows "\<exists>w'. print_c lk loc c w = Inr w' \<and> screen w' = term_putchar c (screen w) \<and> kbd w' = kbd w \<and> cell_ok loc w'"
proof -
  obtain ps p r where ok: "space_ok (machine w) (cr3 (machine w)) ps" "loc < 2 ^ 47"
    "walk (machine w) (cr3 (machine w)) loc = Some (p, r)" "may_write r" using assms by (auto simp: cell_ok_def)
  obtain s' where s': "kstore8 loc c (machine w) = Inr s'" "space_ok s' (cr3 (machine w)) ps" "cr3 s' = cr3 (machine w)"
    "kload8 s' loc = Inr c" "\<And>va. va < 2 ^ 47 \<Longrightarrow> walk s' (cr3 (machine w)) va = walk (machine w) (cr3 (machine w)) va"
    using store_byte [OF ok] by blast
  have "readable (machine (w\<lparr>machine := s'\<rparr>)) loc [c]" using s'(4) by (simp add: readable_def)
  from write_loop_puts [OF this, of 0]
  have "syscall_write 1 loc 1 (w\<lparr>machine := s'\<rparr>) = Inr (1, w\<lparr>machine := s', screen := term_putchar c (screen w)\<rparr>)"
    by (simp add: syscall_write_def)
  then have "print_c lk loc c w = Inr (w\<lparr>machine := s', screen := term_putchar c (screen w)\<rparr>)"
    by (simp add: print_c_def s'(1) my_write_def syscall_handler_def)
  moreover have "cell_ok loc (w\<lparr>machine := s', screen := term_putchar c (screen w)\<rparr>)"
    using ok s' by (auto simp: cell_ok_def)
  ultimately show ?thesis by auto
qed

lemma print_k_text:
  assumes "cell_ok loc w"
  shows "\<exists>w'. fold (print_k lk loc) cs (Inr w) = Inr w' \<and> screen w' = fold term_putchar cs (screen w)
    \<and> kbd w' = kbd w \<and> cell_ok loc w'"
  using assms
proof (induction cs arbitrary: w)
  case (Cons c cs)
  obtain w1 where "print_c lk loc c w = Inr w1" "screen w1 = term_putchar c (screen w)" "kbd w1 = kbd w" "cell_ok loc w1"
    using print_c_ok [OF Cons.prems] by blast
  then show ?case using Cons.IH [of w1] by (simp add: print_k_def)
qed auto

lemma conv_text_hex: "c \<noteq> chr CHR ''x'' \<Longrightarrow> conv_text hex c a = conv_text hex' c a"
  by (cases a) simp_all

lemma render_hex: "Conv (chr CHR ''x'') \<notin> set ps \<Longrightarrow> render hex ps args = render hex' ps args"
proof (induction hex ps args rule: render.induct)
  case (4 hex c ps a args)
  then show ?case using conv_text_hex [of c hex a hex'] by (cases "conv_text hex' c a") auto
qed auto

subsection \<open>Properties\<close>

text \<open>
  C40: \<open>printf\<close> in a program, one system call a character, puts on the screen the rendering of its
  format with all the bits of an \<open>int\<close> under \<open>%x\<close>, takes no key, and fails exactly where an argument is
  missing or of the wrong kind; on a format without \<open>%x\<close> it shows what \<open>kprintf\<close> shows.
\<close>

theorem printf_renders:
  assumes "cell_ok loc w"
  shows "case render (\<lambda>v. v) (pieces (c_text format)) args of
      None \<Rightarrow> printf lk loc format args w = Inl Undefined
    | Some cs \<Rightarrow> \<exists>w'. printf lk loc format args w = Inr w' \<and> screen w' = fold term_putchar cs (screen w)
        \<and> kbd w' = kbd w
        \<and> (Conv (chr CHR ''x'') \<notin> set (pieces (c_text format)) \<longrightarrow> kprintf format args (screen w) = Inr (screen w'))"
proof (cases "render (\<lambda>v. v) (pieces (c_text format)) args")
  case None
  then show ?thesis by (simp add: printf_def joinf_def format_loop_text)
next
  case (Some cs)
  obtain w' where w': "fold (print_k lk loc) cs (Inr w) = Inr w'" "screen w' = fold term_putchar cs (screen w)" "kbd w' = kbd w"
    using print_k_text [OF assms] by blast
  have "kprintf format args (screen w) = Inr (screen w')" if "Conv (chr CHR ''x'') \<notin> set (pieces (c_text format))"
  proof -
    have "ktext format args = Some cs" unfolding ktext_def Some [symmetric] by (rule render_hex [OF that])
    then show ?thesis by (simp add: kprintf_text w'(2))
  qed
  then show ?thesis using Some w' by (simp add: printf_def joinf_def format_loop_text)
qed

lemma printf_renders_witness:
  "\<exists>s w'. vm_map 0x1000 0x400000 True True False sample = Inr (True, s)
    \<and> printf sample_links 0x400010 (str ''%x'') [WordArg 0x12345] (sample_world\<lparr>machine := s\<rparr>) = Inr w'
    \<and> screen w' = fold term_putchar (str ''12345'') (screen sample_world)"
proof -
  have va: "(0x400000 :: u64) < 2 ^ 47" "(0x400010 :: u64) < 2 ^ 47" "drop_bit 12 (0x400010 :: u64) = drop_bit 12 0x400000"
    by (simp_all add: drop_bit_eq_div)
  obtain s k where s: "vm_map 0x1000 0x400000 True True False sample = Inr (True, s)" "same_rest sample s"
    "space_ok s 0x1000 (drop (Suc k) sample_frames)"
    "maps_page sample 0x1000 0x400000 True True False (sample_frames ! k) s"
    using vm_map_spec [OF sample_space va(1), of True True False] sample_lookup [OF va(1)] by (auto simp: sample_frames_def)
  have c: "cr3 s = 0x1000" using s(2) by (simp add: same_rest_def sample_def)
  have ok: "cell_ok 0x400010 (sample_world\<lparr>machine := s\<rparr>)"
    using maps_page_walk [OF sample_space s(3,4) va(1,2)] va s(3) by (auto simp: cell_ok_def c)
  have r: "render (\<lambda>v. v) (pieces (c_text (str ''%x''))) [WordArg 0x12345] = Some (str ''12345'')"
    by (simp add: c_text_def conversions_def int_arg_def numeral_text_def digits.simps digit_char_def)
  from printf_renders [OF ok, where format = "str ''%x''" and args = "[WordArg 0x12345]" and lk = sample_links] s(1) show ?thesis
    unfolding r by auto
qed

end
