(* ===== verification/Calls.thy ===== *)
theory Calls
  imports Syscall
begin

text \<open>
  What the operations under the system calls keep: \<open>kept\<close> - the direct map, the address space and the write
  protection - is followed through those of \<open>paging.c\<close>, and the keyboard's ring and the terminal's cursor
  through the loops of read and write. \<open>User_Calls\<close> puts them together.
\<close>

subsection \<open>The registers and the direct map\<close>

definition kept :: "kstate \<Rightarrow> kstate \<Rightarrow> bool" where
  "kept s s' \<longleftrightarrow> hhdm s' = hhdm s \<and> cr3 s' = cr3 s \<and> cr0_wp s' = cr0_wp s"

lemma kept_refl [simp]: "kept s s"
  by (simp add: kept_def)

lemma kept_trans: "kept s t \<Longrightarrow> kept t u \<Longrightarrow> kept s u"
  by (simp add: kept_def)

lemma kept_update [simp]:
  "kept s (t\<lparr>mem := m\<rparr>) = kept s t" "kept s (t\<lparr>v_heap := v\<rparr>) = kept s t" "kept s (t\<lparr>free_list := f\<rparr>) = kept s t"
  "kept s (t\<lparr>tlb_ops := l\<rparr>) = kept s t" "kept (s\<lparr>mem := m\<rparr>) t = kept s t" "kept (s\<lparr>v_heap := v\<rparr>) t = kept s t"
  by (simp_all add: kept_def)

lemma kept_pmem: "kept s (snd (pmem_alloc s))" "kept s (pmem_free p s)"
  by (simp_all add: pmem_alloc_def pmem_free_def Let_def)

lemma kept_tlb [simp]: "kept s (invalidate_tlb a t) = kept s t"
  by (simp add: invalidate_tlb_def)

lemma kept_fold: "(\<And>x s. kept s (f x s)) \<Longrightarrow> kept s (fold f xs s)"
  by (induction xs arbitrary: s) (auto intro: kept_trans)

lemma kept_foldf: "(\<And>x s s'. f x s = Inr s' \<Longrightarrow> kept s s') \<Longrightarrow> foldf f xs s = Inr s' \<Longrightarrow> kept s s'"
  by (induction xs arbitrary: s) (auto simp: bindf_Inr, blast intro: kept_trans)

lemma kept_store: "kstore8 a c s = Inr s' \<Longrightarrow> kept s s'"
  by (auto simp: kstore8_def bindf_Inr)

lemma kept_stores: "kstore n a v s = Inr s' \<Longrightarrow> kept s s'"
  by (induction n arbitrary: a v s) (auto simp: bindf_Inr dest: kept_store intro: kept_trans)

lemma kept_memset: "kmemset_loop start sz p s = Inr s' \<Longrightarrow> kept s s'"
proof (induction start sz p s rule: kmemset_loop.induct)
  case (1 start sz p s)
  then show ?case by (subst (asm) (2) kmemset_loop.simps) (auto split: if_splits sum.splits)
qed

lemma kept_memcpy: "kmemcpy_loop dest src sz p s = Inr s' \<Longrightarrow> kept s s'"
proof (induction dest src sz p s rule: kmemcpy_loop.induct)
  case (1 dest src sz p s)
  then show ?case by (subst (asm) (2) kmemcpy_loop.simps) (auto split: if_splits sum.splits)
qed

lemma kept_map_loop: "vm_map_loop n va usr wr ex root s = Inr (b, s') \<Longrightarrow> kept s s'"
proof (induction n arbitrary: root s)
  case 0
  then show ?case by auto
next
  case (Suc n)
  obtain p s1 where a: "pmem_alloc s = (p, s1)" by fastforce
  then have "kept s s1" using kept_pmem(1) [of s] by simp
  then show ?case
    using Suc.prems kept_memset [of p 4096 0 s1]
    by (auto simp: Let_def a kmemset_def split: if_splits sum.splits dest!: Suc.IH intro: kept_trans)
qed

lemma kept_map: "vm_map root va usr wr ex s = Inr (b, s') \<Longrightarrow> kept s s'"
  by (auto simp: vm_map_def dest: kept_map_loop)

lemma kept_protect: "kept s (snd (vm_protect root va usr wr ex s))"
proof -
  have "kept s (snd (vm_protect_loop n va usr wr ex root s))" for n root s
  proof (induction n arbitrary: root s)
    case (Suc n)
    have "kept s (snd (vm_protect_loop n va usr wr ex t (s\<lparr>mem := m\<rparr>)))" for t m
      using Suc.IH [of "s\<lparr>mem := m\<rparr>" t] by simp
    then show ?case using Suc.IH by (simp add: Let_def)
  qed simp
  then show ?thesis by (simp add: vm_protect_def)
qed

lemma kept_unmap: "kept s (unmap_lower_half root s)"
proof -
  have l2: "kept s (unmap_l2_entry t i s)" for t i s
    by (simp add: unmap_l2_entry_def Let_def kept_pmem)
  have l3: "kept s (unmap_l3_entry t i s)" for t i s
    using kept_trans [OF kept_fold [of "unmap_l2_entry u" for u] kept_pmem(2)] l2 by (simp add: unmap_l3_entry_def Let_def)
  have l4: "kept s (unmap_l4_entry t i s)" for t i s
    using kept_trans [OF kept_fold [of "unmap_l3_entry u" "s\<lparr>mem := m\<rparr>" for u m] kept_pmem(2)] l3 by (simp add: unmap_l4_entry_def Let_def)
  have "kept s (fold (unmap_l4_entry t) (indices 256) s)" for t by (rule kept_fold) (rule l4)
  then show ?thesis by (simp add: unmap_lower_half_def Let_def reset_v_heap_def write_cr3_def read_cr3_def kept_def)
qed


subsection \<open>The calls\<close>

lemma putchars_ok: "term_ok t \<Longrightarrow> term_ok (fold term_putchar cs t)"
  by (induction cs arbitrary: t) (use keeps_putchar in auto)

lemma kprintf_ok: "kprintf format args t = Inr t' \<Longrightarrow> term_ok t \<Longrightarrow> term_ok t'"
  by (auto simp: kprintf_text putchars_ok split: option.splits)

lemma kgetc_ok:
  assumes "kbd_ok k" "kgetc k = Inr (c, k')"
  shows "kbd_ok k'"
proof (cases "chars k")
  case Nil
  then show ?thesis using kgetc_chars(1) [OF assms(1)] assms(2) by simp
next
  case (Cons d cs)
  then show ?thesis using kgetc_chars(2) [OF assms(1) Cons] assms(2) by auto
qed

lemma read_loop_types:
  "read_loop buf n i w = Inr w' \<Longrightarrow> screen w' = screen w \<and> kept (machine w) (machine w') \<and> (kbd_ok (kbd w) \<longrightarrow> kbd_ok (kbd w'))"
proof (induction buf n i w rule: read_loop.induct)
  case (1 buf n i w)
  from "1.prems" consider "w' = w"
    | c k m where "word_of_int i < n" "kgetc (kbd w) = Inr (c, k)" "kstore8 (buf + word_of_int i) c (machine w) = Inr m"
        "i \<noteq> 2147483647" "read_loop buf n (if c = 0x08 then i + 1 - 2 else i + 1) (w\<lparr>machine := m, kbd := k\<rparr>) = Inr w'"
    by (subst (asm) read_loop.simps) (auto simp: bindf_Inr Let_def split: if_splits)
  then show ?case
  proof cases
    case 2
    then show ?thesis
      using "1.IH" [OF 2(1,2) refl 2(3,4) refl refl 2(5)] kept_store [OF 2(3)] kgetc_ok [OF _ 2(2)] kept_trans by auto
  qed simp
qed

lemma write_loop_types:
  "write_loop buf n i w = Inr w' \<Longrightarrow> machine w' = machine w \<and> kbd w' = kbd w \<and> (term_ok (screen w) \<longrightarrow> term_ok (screen w'))"
proof (induction buf n i w rule: write_loop.induct)
  case (1 buf n i w)
  from "1.prems" consider "w' = w"
    | c t where "of_nat i < n" "kload8 (machine w) (buf + of_nat i) = Inr c"
        "kprintf (str ''%c'') [WordArg (scast c)] (screen w) = Inr t" "i < 2147483647" "write_loop buf n (i + 1) (w\<lparr>screen := t\<rparr>) = Inr w'"
    by (subst (asm) write_loop.simps) (auto simp: bindf_Inr split: if_splits)
  then show ?case
  proof cases
    case 2
    then show ?thesis using "1.IH" [OF 2] kprintf_ok [OF 2(3)] by auto
  qed simp
qed

definition sample_calls :: links where
  "sample_calls = \<lparr>mods = 0, init_name = 0, copy = 0\<rparr>"

end
