(* ===== verification/View.thy ===== *)
theory View
  imports Calls
begin

text \<open>
  What a program sees of memory: for each address of the user half the byte and the rights, if the page
  is mapped. On this view \<open>vm_map\<close>, \<open>memcpy\<close> and \<open>vm_protect\<close>, which work on page tables, frames and a
  free list, are three simple updates (\<open>map_view\<close>, \<open>copy_view\<close>, \<open>protect_view\<close>); \<open>intact\<close> is the invariant
  they maintain, with the bytes \<open>A\<close> of the kernel that they leave alone. \<open>spare\<close> is the machine of the
  witnesses below: \<open>sample\<close> with enough free frames to load a program.
\<close>

type_synonym uview = "u64 \<Rightarrow> (u8 \<times> rights) option"

definition view :: "kstate \<Rightarrow> uview" where
  "view s va = (if va < 2 ^ 47 then map_option (\<lambda>(p, r). (mem s (p + hhdm s), r)) (walk s (cr3_root s) va) else None)"

definition intact :: "u64 set \<Rightarrow> mem \<Rightarrow> kstate \<Rightarrow> u64 list \<Rightarrow> bool" where
  "intact A m0 s ps \<longleftrightarrow> space_ok s (cr3_root s) ps \<and> (\<forall>a \<in> A. foreign s (cr3_root s) ps a \<and> mem s a = m0 a)"

definition map_view :: "u64 \<Rightarrow> rights \<Rightarrow> uview \<Rightarrow> uview" where
  "map_view va r V = (if V va = None then (\<lambda>x. if drop_bit 12 x = drop_bit 12 va then Some (0, r) else V x) else V)"

definition copy_view :: "u64 \<Rightarrow> u64 \<Rightarrow> (u64 \<Rightarrow> u8) \<Rightarrow> uview \<Rightarrow> uview" where
  "copy_view va n bytes V = (\<lambda>x. if x - va < n then map_option (\<lambda>(b, r). (bytes (x - va), r)) (V x) else V x)"

definition protect_view :: "u64 \<Rightarrow> rights \<Rightarrow> uview \<Rightarrow> uview" where
  "protect_view va r V = (\<lambda>x. if drop_bit 12 x = drop_bit 12 va then map_option (\<lambda>(b, q). (b, r)) (V x) else V x)"

lemma cr3_root_kept: "kept s s' \<Longrightarrow> cr3_root s' = cr3_root s"
  by (simp add: kept_def cr3_root_def)

lemma same_page_less:
  assumes "drop_bit 12 x = drop_bit 12 va" "(va :: u64) < 2 ^ 47"
  shows "x < 2 ^ 47"
proof -
  have "drop_bit 35 (drop_bit 12 y) = drop_bit 47 y" for y :: u64 by (simp add: drop_bit_drop_bit)
  then show ?thesis using assms unfolding less_2_47 by metis
qed

text \<open>The view through the last-level entries.\<close>

lemma view_lookup:
  assumes "space_ok s (cr3_root s) ps" "va < 2 ^ 47"
  shows "view s va = map_option (\<lambda>e. (mem s (pte_frame e + hhdm s + take_bit 12 va), rights_of e)) (lookup s (cr3_root s) va)"
  using assms by (simp add: view_def walk_lookup option.map_comp o_def add_ac)

text \<open>A page whose bytes the page tables do not use: the kernel's, or one that a program has mapped.\<close>

definition data_page :: "kstate \<Rightarrow> u64 \<Rightarrow> u64 list \<Rightarrow> u64 \<Rightarrow> bool" where
  "data_page s root ps u \<longleftrightarrow> page_aligned u \<and> u \<notin> set ps \<and> (\<forall>js. upath js \<longrightarrow> length js \<le> 3 \<longrightarrow> table s root js \<noteq> Some u)"

lemma data_page_leaf:
  assumes "space_ok s root ps" "va < 2 ^ 47" "lookup s root va = Some e"
  shows "data_page s root ps (pte_frame e)"
proof -
  have t: "table s root (path va) = Some (pte_frame e)" using assms(3) by (simp add: table_path_lookup)
  have "length (path va) = 4" by (simp add: path_split)
  then show ?thesis
    using space_okD(5) [OF assms(1) upath_path [OF assms(2)] _ t] space_okD(6) [OF assms(1) upath_path [OF assms(2)] t]
    by (auto simp: data_page_def)
qed

lemma foreign_page:
  assumes "foreign s root ps a"
  obtains u k where "a = u + hhdm s + k" "k < 4096" "data_page s root ps u" "\<And>js. upath js \<Longrightarrow> table s root js \<noteq> Some u"
  using assms by (auto simp: foreign_def data_page_def)

subsection \<open>The tables after a mapping\<close>

lemma vm_map_loop_tables:
  assumes "space_ok s root ps" "va < 2 ^ 47" "n \<le> 4" "n \<le> length ps" "table s root (take (4 - n) (path va)) = Some t"
    and "vm_map_loop n va usr wr ex t s = Inr (b, s')" "upath js" "table s' root js = Some u"
  shows "u \<in> set ps \<or> table s root js = Some u"
  using assms
proof (induction n arbitrary: s ps t)
  case (Suc n)
  let ?is = "take (3 - n) (path va)"
  have i: "n < 4" using Suc.prems(3) by simp
  have step: "take (4 - n) (path va) = ?is @ [table_index n va]" by (rule take_path_Suc [OF i])
  have up: "upath (?is @ [table_index n va])"
    using upath_take [OF upath_path [OF Suc.prems(2)], of "4 - n"] by (simp only: step)
  have t: "table s root ?is = Some t" using Suc.prems(5) by (simp add: numeral_eq_Suc)
  show ?case
  proof (cases "pte_present (pte_at s t (table_index n va))")
    case True
    show ?thesis
    proof (cases "n = 0")
      case True
      then have "s' = s" using \<open>pte_present _\<close> Suc.prems(6) vm_map_loop_mapped [of s t va usr wr ex] by simp
      then show ?thesis using Suc.prems(8) by simp
    next
      case False
      have "table s root (take (4 - n) (path va)) = Some (pte_frame (pte_at s t (table_index n va)))"
        unfolding step using t \<open>pte_present _\<close> by (simp add: table_snoc)
      then show ?thesis
        using Suc.IH [OF Suc.prems(1,2)] Suc.prems \<open>pte_present _\<close> vm_map_loop_present [OF _ False, of s t va usr wr ex] by simp
    qed
  next
    case False
    obtain p qs where ps: "ps = p # qs" using Suc.prems(4) by (cases ps) auto
    note ok = Suc.prems(1) [unfolded ps]
    have frame: "frame s p" using space_okD(1) [OF ok] by (simp add: pool_def)
    obtain s3 e' where s3: "vm_map_loop (Suc n) va usr wr ex t s = vm_map_loop n va usr wr ex p s3"
      and e': "e' = (if n = 0 then pte_leaf (pte_at s t (table_index n va)) p usr wr ex else pte_link (pte_at s t (table_index n va)) p)"
      and rest: "same_rest s s3" "pool s3 qs"
      and w: "\<And>u j. page_aligned u \<Longrightarrow> j < 512 \<Longrightarrow> pte_at s3 u j =
        (if u = p then pte_decode 0 else if u = t \<and> j = table_index n va then e' else pte_at s u j)"
      by (rule vm_map_loop_fresh [OF space_okD(1) [OF ok] space_okD(8) [OF ok t] space_okD(6) [OF ok _ t] False, of usr wr ex])
        (use upath_snocD [OF up] in auto)
    have f: "pte_present e'" "pte_frame e' = p" using frame_link [OF frame] by (simp_all add: e')
    have tab: "table s3 root js = (if js = ?is @ [table_index n va] then Some p else table s root js)" if "upath js" for js
      by (rule fresh_link_table [OF ok up t False _ f that]) (use w in auto)
    show ?thesis
    proof (cases "n = 0")
      case True
      then have "s' = invalidate_tlb va s3" using Suc.prems(6) s3 by simp
      then show ?thesis using Suc.prems(8) tab [OF Suc.prems(7)] by (auto simp: ps split: if_splits)
    next
      case False
      have short: "length ?is \<le> 2" using False i by (simp add: path_split)
      have plain: "plain e'"
        using plain_link [OF space_okD(7) [OF ok up short t], of p] False by (simp add: e')
      have "space_ok s3 root qs"
        by (rule fresh_link_ok [OF ok up t \<open>\<not> pte_present _\<close> _ f _ rest(2)]) (use w plain rest(1) in \<open>auto simp: same_rest_def\<close>)
      moreover have "table s3 root (take (4 - n) (path va)) = Some p" unfolding step using tab [OF up] by simp
      moreover have "vm_map_loop n va usr wr ex p s3 = Inr (b, s')" using s3 Suc.prems(6) by simp
      ultimately have "u \<in> set qs \<or> table s3 root js = Some u"
        using Suc.IH [of s3 qs p] Suc.prems ps by simp
      then show ?thesis using tab [OF Suc.prems(7)] by (auto simp: ps split: if_splits)
    qed
  qed
qed auto

lemma vm_map_data_page:
  assumes "space_ok s root ps" "va < 2 ^ 47" "4 \<le> length ps" "vm_map root va usr wr ex s = Inr (b, s')" "hhdm s' = hhdm s"
    and "data_page s root ps u" "k < 4096"
  shows "mem s' (u + hhdm s + k) = mem s (u + hhdm s + k)"
proof -
  have "pte_at s' u j = pte_at s u j" if "j < 512" for j
    using vm_map_loop_other [OF assms(1) page_of_less [OF assms(2)] _ _ _ that, of u 4 root usr wr ex b s'] assms(3,4,6)
    by (simp add: vm_map_def page_of_def data_page_def)
  from same_ptes_same_bytes [OF this assms(5,7)] show ?thesis by simp
qed

lemma vm_map_foreign_kept:
  assumes "space_ok s root ps" "va < 2 ^ 47" "4 \<le> length ps" "vm_map root va usr wr ex s = Inr (b, s')" "hhdm s' = hhdm s"
    and "foreign s root ps a"
  shows "foreign s' root (drop n ps) a \<and> mem s' a = mem s a"
proof -
  obtain u k where u: "a = u + hhdm s + k" "k < 4096" "data_page s root ps u" "\<And>js. upath js \<Longrightarrow> table s root js \<noteq> Some u"
    by (rule foreign_page [OF assms(6)]) blast
  have "table s' root js \<noteq> Some u" if "upath js" for js
    using vm_map_loop_tables [OF assms(1) page_of_less [OF assms(2)], of 4 root usr wr ex b s' js u] assms(3,4) that u(3,4)
    by (auto simp: vm_map_def page_of_def data_page_def)
  moreover have "u \<notin> set (drop n ps)" using u(3) set_drop_subset [of n ps] by (auto simp: data_page_def)
  moreover have "high a" using assms(6) by (simp add: foreign_def)
  ultimately have "foreign s' root (drop n ps) a"
    unfolding foreign_def assms(5) using u(1-3) by (auto simp: data_page_def)
  then show ?thesis using vm_map_data_page [OF assms(1-5) u(3,2)] u(1) by simp
qed


subsection \<open>The three operations on the view\<close>

lemma offset_less: "take_bit 12 (x :: u64) < 4096"
  by (simp add: take_bit_eq_mod word_mod_less_divisor)

lemma map_step:
  assumes k: "intact A m0 s ps" and va: "va < 2 ^ 47" and len: "4 \<le> length ps"
  obtains b s' n where "vm_map (cr3_root s) va usr wr ex s = Inr (b, s')" "n \<le> 4" "intact A m0 s' (drop n ps)" "kept s s'"
    "view s' = map_view va \<lparr>may_user = usr, may_write = wr, may_exec = ex\<rparr> (view s)"
proof -
  let ?root = "cr3_root s"
  have ok: "space_ok s ?root ps" using k by (simp add: intact_def)
  show thesis
  proof (cases "lookup s ?root va")
    case (Some e)
    then have "vm_map ?root va usr wr ex s = Inr (False, s)" using vm_map_spec [OF ok va len, of usr wr ex] by simp
    moreover have "view s va \<noteq> None" by (simp add: view_lookup [OF ok va] Some)
    then have "view s = map_view va \<lparr>may_user = usr, may_write = wr, may_exec = ex\<rparr> (view s)"
      by (simp only: map_view_def if_False)
    ultimately show thesis using that [of False s 0] k by simp
  next
    case None
    then obtain s' i where s': "vm_map ?root va usr wr ex s = Inr (True, s')" "i < 4" "space_ok s' ?root (drop (Suc i) ps)"
      "same_rest s s'" "maps_page s ?root va usr wr ex (ps ! i) s'" "\<forall>j < 512. pte_at s' (ps ! i) j = pte_decode 0"
      using vm_map_spec [OF ok va len, of usr wr ex] by auto
    have kp: "kept s s'" and h: "hhdm s' = hhdm s" using s'(4) by (simp_all add: same_rest_def kept_def)
    note root = cr3_root_kept [OF kp]
    have intact': "intact A m0 s' (drop (Suc i) ps)"
      using k s'(3) vm_map_foreign_kept [OF ok va len s'(1) h] unfolding intact_def root by auto
    have gone: "view s va = None" by (simp add: view_lookup [OF ok va] None)
    obtain e' where e': "pte_frame e' = ps ! i" "rights_of e' = \<lparr>may_user = usr, may_write = wr, may_exec = ex\<rparr>"
      "\<And>x. x < 2 ^ 47 \<Longrightarrow> lookup s' ?root x = (if path x = path va then Some e' else lookup s ?root x)"
      using s'(5) by (auto simp: maps_page_def)
    have "view s' x = map_view va \<lparr>may_user = usr, may_write = wr, may_exec = ex\<rparr> (view s) x" for x
    proof (cases "x < 2 ^ 47")
      case False
      then have "drop_bit 12 x \<noteq> drop_bit 12 va" using same_page_less [OF _ va] by blast
      then show ?thesis using False by (simp add: map_view_def gone view_def)
    next
      case True
      note v = view_lookup [OF s'(3) [folded root] True, unfolded root e'(3) [OF True] h]
      show ?thesis
      proof (cases "drop_bit 12 x = drop_bit 12 va")
        case True
        then have "mem s' (ps ! i + hhdm s + take_bit 12 x) = 0"
          using zero_ptes_zero_bytes [of s' "ps ! i" "take_bit 12 x"] s'(6) offset_less h by simp
        then show ?thesis using True v same_page_path [OF va \<open>x < 2 ^ 47\<close>] e'(1,2) by (simp add: map_view_def gone)
      next
        case False
        then have "view s' x = map_option (\<lambda>e. (mem s' (pte_frame e + hhdm s + take_bit 12 x), rights_of e)) (lookup s ?root x)"
          using v same_page_path [OF va True] by simp
        moreover have "mem s' (pte_frame e + hhdm s + take_bit 12 x) = mem s (pte_frame e + hhdm s + take_bit 12 x)"
          if "lookup s ?root x = Some e" for e
          by (rule vm_map_data_page [OF ok va len s'(1) h data_page_leaf [OF ok True that] offset_less])
        ultimately show ?thesis using False by (cases "lookup s ?root x") (simp_all add: map_view_def gone view_lookup [OF ok True])
      qed
    qed
    then show thesis using that [OF s'(1) _ intact' kp] s'(2) by (simp add: fun_eq_iff)
  qed
qed

lemma page_written_foreign:
  assumes "space_ok s root ps" "upath is" "length is = 4" "table s root is = Some f" "page_written f s s'" "foreign s root ps a"
  shows "foreign s' root ps a \<and> mem s' a = mem s a"
proof -
  obtain u k where u: "a = u + hhdm s + k" "k < 4096" "data_page s root ps u" "\<And>js. upath js \<Longrightarrow> table s root js \<noteq> Some u"
    by (rule foreign_page [OF assms(6)]) blast
  have h: "hhdm s' = hhdm s" using assms(5) by (simp add: page_written_def)
  have "u \<noteq> f" using u(4) [OF assms(2)] assms(4) by auto
  moreover have "page_aligned u" "page_aligned f" "page_aligned (hhdm s)"
    using u(3) space_okD(8) [OF assms(1,4)] space_okD(4) [OF assms(1)] by (simp_all add: data_page_def)
  ultimately have "\<not> a - (f + hhdm s) < 4096"
    using aligned_add_eq [of "u + hhdm s" k "f + hhdm s" "a - (f + hhdm s)"] u(1,2) by auto
  then have "mem s' a = mem s a" using assms(5) by (simp add: page_written_def)
  moreover have "foreign s' root ps a"
    using assms(6) page_written_table [OF assms(1-5)] by (auto simp: foreign_def h)
  ultimately show ?thesis by simp
qed


lemma lookup_path: "path x = path va \<Longrightarrow> lookup s root x = lookup s root va"
  by (auto simp: lookup_def path_def split: option.split)

lemma copy_step:
  assumes k: "intact A m0 s ps" and va: "va < 2 ^ 47" and fits: "unat (take_bit 12 va) + unat n \<le> 4096"
    and v: "view s va = Some (b, q)" "may_write q \<or> \<not> cr0_wp s" and src: "\<And>k. k < n \<Longrightarrow> src + k \<in> A"
  obtains s' where "kmemcpy va src n s = Inr s'" "intact A m0 s' ps" "kept s s'"
    "view s' = copy_view va n (\<lambda>k. m0 (src + k)) (view s)"
proof -
  let ?root = "cr3_root s"
  have ok: "space_ok s ?root ps" using k by (simp add: intact_def)
  obtain e where e: "lookup s ?root va = Some e" "rights_of e = q"
    using v(1) by (auto simp: view_lookup [OF ok va])
  define f where "f = pte_frame e"
  have leaf: "table s ?root (path va) = Some f" by (simp add: table_path_lookup e f_def)
  have p4: "length (path va) = 4" by (simp add: path_split)
  note up = upath_path [OF va]
  have al: "page_aligned f" "page_aligned (hhdm s)" using space_okD(8) [OF ok leaf] space_okD(4) [OF ok] by simp_all
  have far: "\<not> src + k - (f + hhdm s) < 4096" "high (src + k)" "mem s (src + k) = m0 (src + k)" if kn: "k < n" for k
  proof -
    have fo: "foreign s ?root ps (src + k)" and m: "mem s (src + k) = m0 (src + k)"
      using k src [OF kn] by (simp_all add: intact_def)
    obtain u o' where u: "src + k = u + hhdm s + o'" "o' < 4096" "data_page s ?root ps u" "\<And>js. upath js \<Longrightarrow> table s ?root js \<noteq> Some u"
      by (rule foreign_page [OF fo]) blast
    have "u \<noteq> f" using u(4) [OF up] leaf by auto
    then show "\<not> src + k - (f + hhdm s) < 4096"
      using aligned_add_eq [of "u + hhdm s" o' "f + hhdm s" "src + k - (f + hhdm s)"] u(1-3) al by (auto simp: data_page_def)
    show "high (src + k)" using fo by (simp add: foreign_def)
    show "mem s (src + k) = m0 (src + k)" by fact
  qed
  have res: "kresolve True s' (va + k) = Inr (f + hhdm s + take_bit 12 va + k)"
    if w: "page_written f s s'" and k: "k < n" for s' k
  proof -
    note a = in_page_add [OF va offsets_fit [OF fits k]]
    have "path (va + k) = path va" using same_page_path [OF va a(1)] a(2) by simp
    then have "lookup s ?root (va + k) = Some e" using e(1) lookup_path by metis
    then have "walk s' ?root (va + k) = Some (f + (take_bit 12 va + k), q)"
      using page_written_ok(3) [OF ok up p4 leaf w a(1)] walk_lookup [OF ok a(1)] e(2) a(3) by (simp add: f_def)
    moreover have "\<not> 0xffff800000000000 \<le> va + k" using a(1) by unat_arith
    ultimately show ?thesis
      using w v(2) a(1) by (auto simp: kresolve_def page_written_def cr3_root_def)
  qed
  let ?d = "f + hhdm s + take_bit 12 va"
  let ?s = "s\<lparr>mem := copied ?d src n (mem s)\<rparr>"
  have cp: "kmemcpy va src n s = Inr ?s"
    by (rule kmemcpy_page [OF _ _ res]) (use far(1,2) offsets_fit [OF fits] in auto)
  have w: "page_written f s ?s"
  proof (rule page_written_mem)
    fix a assume out: "\<not> a - (f + hhdm s) < 4096"
    have "\<not> a - ?d < n"
    proof
      assume "a - ?d < n"
      from offsets_fit [OF fits this] have "take_bit 12 va + (a - ?d) < 4096" .
      moreover have "take_bit 12 va + (a - ?d) = a - (f + hhdm s)" by simp
      ultimately show False using out by (simp only:)
    qed
    then show "copied ?d src n (mem s) a = mem s a" by (simp add: copied_def)
  qed
  note w_ok = page_written_ok [OF ok up p4 leaf w]
  have rt: "cr3_root ?s = ?root" by (simp add: cr3_root_def)
  have "intact A m0 ?s ps"
    using k w_ok(1) page_written_foreign [OF ok up p4 leaf w] unfolding intact_def rt by metis
  moreover have "view ?s x = copy_view va n (\<lambda>k. m0 (src + k)) (view s) x" for x
  proof (cases "x < 2 ^ 47")
    case False
    then show ?thesis by (simp add: view_def copy_view_def)
  next
    case True
    have vs: "view ?s x = map_option (\<lambda>e. (copied ?d src n (mem s) (pte_frame e + hhdm s + take_bit 12 x), rights_of e)) (lookup s ?root x)"
      using view_lookup [of ?s ps x] w_ok(1,2) True rt by simp
    have off: "x - va = take_bit 12 x - take_bit 12 va" if "drop_bit 12 x = drop_bit 12 va"
      using bits_ident [of 12 x] bits_ident [of 12 va] that by (metis add_diff_cancel_left)
    show ?thesis
    proof (cases "x - va < n")
      case inside: True
      have a: "x = va + (x - va)" by simp
      note ip = in_page_add [OF va offsets_fit [OF fits inside]]
      then have pg: "drop_bit 12 x = drop_bit 12 va" by simp
      then have "path x = path va" using same_page_path [OF va True] by simp
      then have l: "lookup s ?root x = Some e" using e(1) lookup_path by metis
      have "f + hhdm s + take_bit 12 x - ?d = x - va" using off [OF pg] by simp
      then have "copied ?d src n (mem s) (f + hhdm s + take_bit 12 x) = m0 (src + (x - va))"
        using inside far(3) [OF inside] by (simp add: copied_def)
      then show ?thesis using inside l e(2) by (simp add: vs copy_view_def view_lookup [OF ok True] f_def [symmetric])
    next
      case outside: False
      have "copied ?d src n (mem s) (pte_frame e' + hhdm s + take_bit 12 x) = mem s (pte_frame e' + hhdm s + take_bit 12 x)"
        if l: "lookup s ?root x = Some e'" for e'
      proof (cases "drop_bit 12 x = drop_bit 12 va")
        case True
        then have "path x = path va" using same_page_path [OF va \<open>x < 2 ^ 47\<close>] by simp
        then have "e' = e" using e(1) l lookup_path by (metis option.inject)
        then have "pte_frame e' + hhdm s + take_bit 12 x - ?d = x - va" using off [OF True] by (simp add: f_def)
        then show ?thesis using outside by (simp add: copied_def)
      next
        case False
        have t: "table s ?root (path x) = Some (pte_frame e')" by (simp add: table_path_lookup l)
        have "path x \<noteq> path va" using same_page_path [OF va True] False by simp
        then have "pte_frame e' \<noteq> f" using space_okD(5) [OF ok upath_path [OF True] up t] leaf by auto
        then have "\<not> pte_frame e' + hhdm s + take_bit 12 x - (f + hhdm s) < 4096"
          using aligned_add_eq [of "pte_frame e' + hhdm s" "take_bit 12 x" "f + hhdm s" "pte_frame e' + hhdm s + take_bit 12 x - (f + hhdm s)"]
            al offset_less [of x] by auto
        then show ?thesis using w by (simp add: page_written_def)
      qed
      then show ?thesis using outside by (cases "lookup s ?root x") (simp_all add: vs copy_view_def view_lookup [OF ok True])
    qed
  qed
  ultimately show thesis using that [OF cp] by (simp add: fun_eq_iff)
qed


lemma protect_step:
  assumes k: "intact A m0 s ps" and va: "va < 2 ^ 47"
    and s'_def: "s' = snd (vm_protect (cr3_root s) va usr wr ex s)"
  shows "intact A m0 s' ps" "view s' = protect_view va \<lparr>may_user = usr, may_write = wr, may_exec = ex\<rparr> (view s)"
proof -
  let ?root = "cr3_root s"
  have ok: "space_ok s ?root ps" using k by (simp add: intact_def)
  have kp: "kept s s'" unfolding s'_def by (rule kept_protect)
  have h: "hhdm s' = hhdm s" using kp by (simp add: kept_def)
  note rt = cr3_root_kept [OF kp]
  have "intact A m0 s' ps \<and> view s' = protect_view va \<lparr>may_user = usr, may_write = wr, may_exec = ex\<rparr> (view s)"
  proof (cases "lookup s ?root va")
    case None
    then have "s' = s" by (simp add: s'_def vm_protect_unmapped)
    moreover have "view s x = None" if "drop_bit 12 x = drop_bit 12 va" for x
    proof -
      have x: "x < 2 ^ 47" by (rule same_page_less [OF that va])
      then have "lookup s ?root x = None" using same_page_path [OF va x] that None lookup_path by metis
      then show ?thesis by (simp add: view_lookup [OF ok x])
    qed
    then have "protect_view va r (view s) = view s" for r by (simp add: protect_view_def fun_eq_iff)
    ultimately show ?thesis using k by simp
  next
    case (Some e)
    then obtain t where t: "table s ?root (upper va) = Some t" "pte_present (pte_at s t (table_index 0 va))"
      and e: "e = pte_at s t (table_index 0 va)"
      by (auto simp: lookup_def Let_def split: option.splits if_splits)
    let ?e = "set_rights e usr wr ex"
    let ?s = "s\<lparr>mem := set_pte (mem s) (slot (t + hhdm s) (table_index 0 va)) ?e\<rparr>"
    have s': "s' = invalidate_tlb va ?s" unfolding s'_def e using vm_protect_mapped [OF t, of usr wr ex] by simp
    obtain s2 where s2: "vm_protect ?root va usr wr ex s = (True, s2)" "space_ok s2 ?root ps"
      "\<And>x. x < 2 ^ 47 \<Longrightarrow> lookup s2 ?root x = (if path x = path va then Some ?e else lookup s ?root x)"
      by (rule vm_protect_spec [OF ok va Some, of usr wr ex]) blast
    have ok': "space_ok s' ?root ps" and l': "\<And>x. x < 2 ^ 47 \<Longrightarrow> lookup s' ?root x = (if path x = path va then Some ?e else lookup s ?root x)"
      using s2 by (simp_all add: s'_def)
    obtain t' where "table s ?root (upper va) = Some t'" and w: "\<And>u j. page_aligned u \<Longrightarrow> j < 512 \<Longrightarrow>
        pte_at ?s u j = (if u = t' \<and> j = table_index 0 va then ?e else pte_at s u j)"
      using leaf_write(1) [OF ok va t(1), of ?e] by (auto simp: leaf_changed_def)
    then have w: "pte_at s' u j = (if u = t \<and> j = table_index 0 va then ?e else pte_at s u j)" if "page_aligned u" "j < 512" for u j
      using that t(1) by (simp add: s')
    have up: "upath (upper va)" "length (upper va) \<le> 3"
      using upath_path [OF va] upath_snocD [of "upper va"] by (auto simp: path_def)
    have bytes: "mem s' (u + hhdm s + k) = mem s (u + hhdm s + k)" if "data_page s ?root ps u" "k < 4096" for u k
    proof -
      have "u \<noteq> t" "page_aligned u" using that(1) t(1) up by (auto simp: data_page_def)
      then have "pte_at s' u j = pte_at s u j" if "j < 512" for j using w that by simp
      from same_ptes_same_bytes [OF this h that(2)] show ?thesis by simp
    qed
    have tab: "table s' ?root js = table s ?root js" if "upath js" for js
      using that
    proof (induction js rule: rev_induct)
      case (snoc j js)
      have j: "upath js" "j < 512" using upath_snocD [OF snoc.prems] by simp_all
      have "pte_present (pte_at s' u j) = pte_present (pte_at s u j) \<and> pte_frame (pte_at s' u j) = pte_frame (pte_at s u j)"
        if "table s ?root js = Some u" for u
        using w [OF space_okD(8) [OF ok that] j(2)] by (simp add: e)
      then show ?case using snoc.IH [OF j(1)] by (auto simp: table_snoc split: option.split)
    qed simp
    have "foreign s' ?root ps a \<and> mem s' a = mem s a" if fo: "foreign s ?root ps a" for a
    proof -
      obtain u k where u: "a = u + hhdm s + k" "k < 4096" "data_page s ?root ps u" "\<And>js. upath js \<Longrightarrow> table s ?root js \<noteq> Some u"
        by (rule foreign_page [OF fo]) blast
      then show ?thesis using bytes [OF u(3,2)] fo tab by (auto simp: foreign_def h)
    qed
    then have "intact A m0 s' ps" using k ok' unfolding intact_def rt by auto
    moreover have "view s' x = protect_view va \<lparr>may_user = usr, may_write = wr, may_exec = ex\<rparr> (view s) x" for x
    proof (cases "x < 2 ^ 47")
      case False
      then show ?thesis by (simp add: view_def protect_view_def)
    next
      case True
      note v = view_lookup [OF ok' [folded rt] True, unfolded rt l' [OF True] h]
      show ?thesis
      proof (cases "drop_bit 12 x = drop_bit 12 va")
        case True
        then have p: "path x = path va" using same_page_path [OF va \<open>x < 2 ^ 47\<close>] by simp
        then have "lookup s ?root x = Some e" using Some lookup_path by metis
        then show ?thesis
          using True p v bytes [OF data_page_leaf [OF ok va Some] offset_less [of x]]
          by (simp add: protect_view_def view_lookup [OF ok \<open>x < 2 ^ 47\<close>])
      next
        case False
        then have "path x \<noteq> path va" using same_page_path [OF va True] by simp
        then have "view s' x = map_option (\<lambda>e. (mem s' (pte_frame e + hhdm s + take_bit 12 x), rights_of e)) (lookup s ?root x)"
          using v by simp
        moreover have "mem s' (pte_frame e + hhdm s + take_bit 12 x) = mem s (pte_frame e + hhdm s + take_bit 12 x)"
          if "lookup s ?root x = Some e" for e
          by (rule bytes [OF data_page_leaf [OF ok True that] offset_less])
        ultimately show ?thesis using False by (cases "lookup s ?root x") (simp_all add: protect_view_def view_lookup [OF ok True])
      qed
    qed
    ultimately show ?thesis by (simp add: fun_eq_iff)
  qed
  then show "intact A m0 s' ps" "view s' = protect_view va \<lparr>may_user = usr, may_write = wr, may_exec = ex\<rparr> (view s)" by simp_all
qed


subsection \<open>A machine with frames to spare\<close>

text \<open>\<open>sample\<close> with 32 more frames.\<close>

definition spare_frames :: "u64 list" where
  "spare_frames = map (\<lambda>i. 0x10000 + 0x1000 * i) (indices 32)"

definition spare :: kstate where
  "spare = fold pmem_free spare_frames sample"

lemma spare_aligned: "p \<in> set spare_frames \<Longrightarrow> page_aligned p \<and> 0x10000 \<le> p \<and> p < 0x30000"
  by (auto simp: spare_frames_def indices_def upt_rec page_aligned_def take_bit_eq_mod)

lemma spare_keeps [simp]: "hhdm spare = sample_hhdm" "cr3 spare = 0x1000" "cr0_wp spare" "cr3_root spare = 0x1000"
  using free_all_rest [of sample spare_frames] by (simp_all add: spare_def same_rest_def sample_def cr3_root_def)

lemma spare_table: "upath is \<Longrightarrow> table spare 0x1000 is = (if is = [] then Some 0x1000 else None)"
  and spare_pte: "i < 512 \<Longrightarrow> pte_at spare 0x1000 i = pte_decode 0"
proof -
  have "0x1000 \<notin> set spare_frames" using spare_aligned [of "0x1000"] by auto
  then show pte: "pte_at spare 0x1000 i = pte_decode 0" if "i < 512" for i
    using pte_at_free_all [of sample spare_frames "0x1000" i] spare_aligned that sample_pte [OF that]
    by (simp add: spare_def sample_def)
  show "table spare 0x1000 is = (if is = [] then Some 0x1000 else None)" if "upath is"
    using that by (cases "is") (auto simp: upath_def pte)
qed

lemma spare_space: "space_ok spare 0x1000 (rev spare_frames @ sample_frames)"
proof -
  have "distinct spare_frames" by (simp add: spare_frames_def indices_def upt_rec)
  moreover have "frame sample p" if "p \<in> set spare_frames" for p
    using that by (auto simp: spare_frames_def indices_def upt_rec frame_def sample_def sample_hhdm_def page_aligned_def take_bit_eq_mod)
  moreover have "p \<notin> set sample_frames" if "p \<in> set spare_frames" for p
    using spare_aligned [OF that] by (auto simp: sample_frames_def)
  ultimately have pool: "pool spare (rev spare_frames @ sample_frames)"
    unfolding spare_def by (intro pm.free_all [OF sample_pool]) auto
  have "plain (pte_at spare 0x1000 i)" if "upath [i]" for i
    using that by (simp add: upath_def spare_pte)
  moreover have "0x1000 \<notin> set (rev spare_frames @ sample_frames)"
    using spare_aligned [of "0x1000"] by (auto simp: sample_frames_def)
  ultimately show ?thesis
    unfolding space_ok_def using pool upath_snocD by (fastforce simp: spare_table split: if_splits)
qed

text \<open>The upper two gigabytes, where the kernel and the modules are.\<close>

definition kernel_area :: "u64 set" where
  "kernel_area = {a. 0xffffffff80000000 \<le> a}"

lemma spare_intact: "intact kernel_area (mem spare) spare (rev spare_frames @ sample_frames)"
proof -
  have "foreign spare 0x1000 (rev spare_frames @ sample_frames) a" if "a \<in> kernel_area" for a
  proof -
    have a: "0xffffffff80000000 \<le> a" using that by (simp add: kernel_area_def)
    let ?x = "a - sample_hhdm"
    have x: "0x7fff80000000 \<le> ?x" using a unfolding sample_hhdm_def by unat_arith
    have far: "0x30000 \<le> page_of ?x"
    proof (rule ccontr)
      assume "\<not> 0x30000 \<le> page_of ?x"
      then have "page_of ?x + take_bit 12 ?x < 0x31000" using offset_less [of ?x] by unat_arith
      then have "?x < 0x31000" by (simp only: page_of_split(2) [symmetric])
      from le_less_trans [OF x this] show False by simp
    qed
    have "a = page_of ?x + hhdm spare + take_bit 12 ?x"
      using arg_cong [OF page_of_split(2) [of ?x], of "\<lambda>v. v + sample_hhdm"] by (simp add: add_ac)
    moreover have "page_of ?x \<notin> set (rev spare_frames @ sample_frames)"
      using far spare_aligned [of "page_of ?x"] by (auto simp: sample_frames_def)
    moreover have "table spare 0x1000 js \<noteq> Some (page_of ?x)" if "upath js" for js
      using far by (auto simp: spare_table [OF that])
    moreover have "high a" unfolding high_def by (rule order_trans [OF _ a]) simp
    ultimately show ?thesis unfolding foreign_def using offset_less page_of_split(1) by blast
  qed
  then show ?thesis using spare_space by (simp add: intact_def)
qed

lemma spare_view: "view spare x = None"
proof (cases "x < 2 ^ 47")
  case True
  have "lookup spare 0x1000 x = None"
    using table_path_lookup [of spare "0x1000" x] spare_table [OF upath_path [OF True]] by (simp add: path_def)
  then show ?thesis using view_lookup [of spare _ x] spare_space True by simp
qed (simp add: view_def)

end
