(* ===== verification/User_Calls.thy ===== *)
theory User_Calls
  imports View Userheap
begin

text \<open>
  The system calls with pointers into the user half. In the program every kernel variable lies in the same
  memory as the rest, and a read into a kernel address can overwrite the keyboard's ring, the terminal's row or the
  page tables (C8 is the same lack of a check on the side of write); in the model some of these are fields of
  their own, so what a call keeps is stated here for pointers into the user half only, on a well-formed
  address space, where a store ends in a page of the program. The lemmas follow \<open>intact\<close> through the stores.
\<close>

subsection \<open>Stores into the user half\<close>

lemma user_store_intact:
  assumes k: "intact A m s ps" and a: "a < 2 ^ 47" and st: "kstore8 a c s = Inr s'"
  shows "intact A m s' ps" "v_heap s' = v_heap s"
proof -
  let ?root = "cr3_root s"
  have ok: "space_ok s ?root ps" using k by (simp add: intact_def)
  have low: "\<not> 0xffff800000000000 \<le> a" "a < 0x800000000000" using a by unat_arith+
  obtain p r where w: "walk s ?root a = Some (p, r)" and s': "s' = s\<lparr>mem := (mem s)(p + hhdm s := c)\<rparr>"
    using st low by (auto simp: kstore8_def kresolve_def bindf_Inr split: option.splits if_splits)
  obtain f where f: "table s ?root (path a) = Some f" "length (path a) = 4" "page_written f s s'"
    unfolding s' by (rule byte_page_written [OF ok a w])
  have rt: "cr3_root s' = ?root" by (simp add: s' cr3_root_def)
  show "intact A m s' ps"
    using k page_written_ok(1) [OF ok upath_path [OF a] f(2,1,3)] page_written_foreign [OF ok upath_path [OF a] f(2,1,3)]
    unfolding intact_def rt by auto
  show "v_heap s' = v_heap s" by (simp add: s')
qed

lemma user_stores_intact:
  "intact A m s ps \<Longrightarrow> unat a + n \<le> 2 ^ 47 \<Longrightarrow> kstore n a v s = Inr s' \<Longrightarrow> intact A m s' ps"
proof (induction n arbitrary: a v s)
  case (Suc n)
  obtain s1 where s1: "kstore8 a (ucast v) s = Inr s1" "kstore n (a + 1) (drop_bit 8 v) s1 = Inr s'"
    using Suc.prems(3) by (auto simp: bindf_Inr)
  have "a < 2 ^ 47" using Suc.prems(2) by (simp add: word_less_nat_alt)
  then have "intact A m s1 ps" using user_store_intact(1) [OF Suc.prems(1) _ s1(1)] by blast
  moreover have "unat (a + 1) \<le> unat a + 1" by (simp add: unat_word_ariths)
  then have "unat (a + 1) + n \<le> 2 ^ 47" using Suc.prems(2) by linarith
  ultimately show ?case using Suc.IH s1(2) by blast
qed simp

lemma read_loop_intact:
  "read_loop buf n i w = Inr w' \<Longrightarrow> intact A m (machine w) ps \<Longrightarrow> unat buf + unat n \<le> 2 ^ 47 \<Longrightarrow> intact A m (machine w') ps"
proof (induction buf n i w rule: read_loop.induct)
  case (1 buf n i w)
  from "1.prems"(1) consider "w' = w"
    | c k s where "word_of_int i < n" "kgetc (kbd w) = Inr (c, k)" "kstore8 (buf + word_of_int i) c (machine w) = Inr s"
        "i \<noteq> 2147483647" "read_loop buf n (if c = 0x08 then i + 1 - 2 else i + 1) (w\<lparr>machine := s, kbd := k\<rparr>) = Inr w'"
    by (subst (asm) read_loop.simps) (auto simp: bindf_Inr Let_def split: if_splits)
  then show ?case
  proof cases
    case 2
    have "unat (buf + word_of_int i) \<le> unat buf + unat (word_of_int i :: u64)" by (simp add: unat_word_ariths)
    then have "buf + word_of_int i < 2 ^ 47" using 2(1) "1.prems"(3) by (simp add: word_less_nat_alt)
    from user_store_intact(1) [OF "1.prems"(2) this 2(3)]
    show ?thesis using "1.IH" [OF 2(1,2) refl 2(3,4) refl refl 2(5)] "1.prems"(3) by simp
  qed (use "1.prems" in simp)
qed

lemma intact_v_heap: "intact A m s ps \<Longrightarrow> intact A m (s\<lparr>v_heap := v\<rparr>) ps"
proof -
  let ?s = "s\<lparr>v_heap := v\<rparr>"
  have pte: "pte_at ?s = pte_at s" by (intro ext) (simp add: pte_at_def)
  have tab: "table ?s t is = table s t is" for t "is" by (induction "is" arbitrary: t) (simp_all add: pte)
  have "pool ?s ps = pool s ps" by (simp add: pool_def frame_def)
  then show "intact A m s ps \<Longrightarrow> intact A m ?s ps"
    by (simp add: intact_def space_ok_def foreign_def tab pte cr3_root_def)
qed

lemma sys_mmap_intact:
  assumes k: "intact A m s ps" and cr3: "page_aligned (cr3 s)" and v: "v_heap s < 2 ^ 47" and len: "4 \<le> length ps" and a: "unat a + 8 \<le> 2 ^ 47"
    and call: "sys_mmap a s = Inr s'"
  shows "kept s s'" "\<exists>n \<le> 4. intact A m s' (drop n ps)"
proof -
  have ok: "space_ok s (cr3_root s) ps" using k by (simp add: intact_def)
  obtain b s1 s2 where s1: "vm_map (read_cr3 s) (v_heap s) True True True s = Inr (b, s1)" "kstore64 a (v_heap s1) s1 = Inr s2"
    "s' = s2\<lparr>v_heap := v_heap s2 + 2048\<rparr>"
    using call by (auto simp: sys_mmap_def bindf_Inr)
  show "kept s s'" using kept_trans [OF kept_map [OF s1(1)] kept_stores [OF s1(2)]] by (simp add: s1(3))
  have same: "vm_map (read_cr3 s) (v_heap s) True True True s = vm_map (cr3_root s) (v_heap s) True True True s"
    using page_of_split(2) [of "cr3 s"] cr3 by (simp add: read_cr3_def cr3_root_def page_of_def page_aligned_def)
  obtain n where n: "n \<le> 4" "intact A m s1 (drop n ps)"
    using map_step [OF k v len, of True True True] s1(1) unfolding same by (metis Inr_inject prod.inject)
  have "intact A m s2 (drop n ps)" by (rule user_stores_intact [OF n(2) a s1(2)])
  then have "intact A m s' (drop n ps)" unfolding s1(3) by (rule intact_v_heap)
  then show "\<exists>n \<le> 4. intact A m s' (drop n ps)" using n(1) by blast
qed

subsection \<open>Property\<close>

text \<open>What a call returns, other than exec and exit.\<close>

definition call_result :: "u64 \<Rightarrow> u64 \<Rightarrow> u64 \<Rightarrow> u64" where
  "call_result nr fd n =
     (if nr = 0 then (if (ucast fd :: u32) = 0 then scast (ucast n :: u32) else - 1)
      else if nr = 1 then (if (ucast fd :: u32) = 1 \<or> (ucast fd :: u32) = 2 then scast (ucast n :: u32) else - 1)
      else if nr = 2 then 0 else 123)"

text \<open>
  C2: a system call other than exec and exit, from a program on a well-formed address space with its heap
  pointer and, in a read and an \<open>mmap\<close>, the memory that its pointer gives within the user half. If it comes back, its result is a value of the
  type of the call, the keyboard ring and the terminal cursor are within their bounds, the address space is
  well-formed, with at most four frames fewer in the pool, and the same one, with the direct map and the
  write protection as they were, and no byte of the kernel's memory (any set of bytes apart
  from page tables, free frames and the program's pages) has changed. And a call touches no part of the machine that is
  not its own: only a read takes keys, only a write prints, and only a read and an \<open>mmap\<close> change memory.
\<close>

theorem syscall_well_typed:
  assumes "syscall_handler lk nr arg0 arg1 arg2 w = Inr (r, w')" "nr \<notin> {3, 4}"
    and "kbd_ok (kbd w)" "term_ok (screen w)"
    and "intact A m (machine w) ps" "page_aligned (cr3 (machine w))" "4 \<le> length ps" "v_heap (machine w) < 2 ^ 47"
    and "nr = 0 \<longrightarrow> unat arg1 + unat arg2 \<le> 2 ^ 47" "nr = 2 \<longrightarrow> unat arg0 + 8 \<le> 2 ^ 47"
  shows "r = Return (call_result nr arg0 arg2) \<and> kbd_ok (kbd w') \<and> term_ok (screen w')
    \<and> kept (machine w) (machine w') \<and> (\<exists>n \<le> 4. intact A m (machine w') (drop n ps))
    \<and> (nr \<noteq> 0 \<longrightarrow> kbd w' = kbd w) \<and> (nr \<noteq> 1 \<longrightarrow> screen w' = screen w) \<and> (nr \<notin> {0, 2} \<longrightarrow> machine w' = machine w)"
proof -
  have minus: "(scast (- 1 :: u32) :: u64) = - 1" by (rule bit_word_eqI) (simp add: bits)
  have zero: "intact A m (machine w) (drop 0 ps)" using assms(5) by simp
  consider "nr = 0" | "nr = 1" | "nr = 2" | "nr \<notin> {0, 1, 2, 3, 4}" using assms(2) by auto
  then show ?thesis
  proof cases
    case 1
    show ?thesis
    proof (cases "(ucast arg0 :: u32) = 0")
      case True
      then have l: "read_loop arg1 arg2 0 w = Inr w'" "r = Return (scast (ucast arg2 :: u32))"
        using assms(1) 1 by (auto simp: syscall_handler_def syscall_read_def bindf_Inr)
      have "intact A m (machine w') (drop 0 ps)" using read_loop_intact [OF l(1) assms(5)] assms(9) 1 by simp
      then show ?thesis using read_loop_types [OF l(1)] assms(3,4) 1 True l(2) by (auto simp: call_result_def)
    next
      case False
      then show ?thesis using assms(1,3,4) 1 zero minus by (auto simp: syscall_handler_def syscall_read_def call_result_def)
    qed
  next
    case 2
    then show ?thesis
      using assms(1,3,4) zero minus
      by (auto simp: syscall_handler_def syscall_write_def call_result_def bindf_Inr split: if_splits dest!: write_loop_types)
  next
    case 3
    then obtain s where s: "sys_mmap arg0 (machine w) = Inr s" "w' = w\<lparr>machine := s\<rparr>" "r = Return 0"
      using assms(1) by (auto simp: syscall_handler_def bindf_Inr)
    show ?thesis
      using sys_mmap_intact [OF assms(5,6,8,7) _ s(1)] assms(3,4,10) 3 s(2,3) by (simp add: call_result_def)
  next
    case 4
    then show ?thesis using assms(1,3,4) zero by (auto simp: syscall_handler_def call_result_def)
  qed
qed

lemma syscall_well_typed_witness:
  "\<exists>w'. syscall_handler sample_calls 2 0x10008 0 0 (sample_world\<lparr>machine := spare\<rparr>) = Inr (Return 0, w')
    \<and> term_ok (screen w') \<and> kbd w' = kbd sample_world \<and> (\<forall>a \<in> kernel_area. mem (machine w') a = mem spare a)"
proof -
  let ?w = "sample_world\<lparr>machine := spare\<rparr>" and ?ps = "rev spare_frames @ sample_frames"
  have c: "cr3 spare = 0x1000" "v_heap spare = 0x10000" "cr3_root spare = 0x1000"
    using free_all_rest [of sample spare_frames] by (simp_all add: spare_def same_rest_def sample_def cr3_root_def)
  have len: "4 \<le> length ?ps" by (simp add: spare_frames_def indices_def)
  have ok: "space_ok spare (cr3 spare) ?ps" using spare_intact by (simp add: intact_def c)
  have "walk spare (cr3 spare) (v_heap spare) = None" using spare_view [of "0x10000"] by (simp add: view_def c split: if_splits)
  then obtain s where "sys_mmap 0x10008 spare = Inr s"
    using sys_mmap_fresh [OF ok _ _ len, of "0x10008"] by (auto simp: c take_bit_eq_mod drop_bit_eq_div)
  then have call: "syscall_handler sample_calls 2 0x10008 0 0 ?w = Inr (Return 0, ?w\<lparr>machine := s\<rparr>)"
    by (simp add: syscall_handler_def)
  have t: "kbd_ok (kbd ?w)" "term_ok (screen ?w)"
    using sample_keys(1) by (simp_all add: sample_world_def term_ok_def blank_term_def)
  have k: "intact kernel_area (mem spare) (machine ?w) ?ps" "page_aligned (cr3 (machine ?w))" "v_heap (machine ?w) < 2 ^ 47"
    using spare_intact by (simp_all add: c page_aligned_def take_bit_eq_mod)
  show ?thesis
    using syscall_well_typed [OF call _ t k(1,2) len k(3)] call by (auto simp: intact_def)
qed

end
