(* ===== verification/Debug_Command.thy ===== *)
theory Debug_Command
  imports Debug Boot
begin

text \<open>
  A command of the debugger from the keys to the screen: the line is typed into the buffer, split into
  words in place, compared with the names of the commands, and its address converted and read.
\<close>

subsection \<open>Bytes put one after the other\<close>






subsection \<open>The line\<close>




subsection \<open>The words\<close>







subsection \<open>The command\<close>











subsection \<open>A round of the loop\<close>














subsection \<open>Properties\<close>










end
