(* ===== verification/Symbols.thy ===== *)
theory Symbols
  imports Debug Boot
begin

text \<open>
  The symbol tables of \<open>kernel/debug.c\<close>: \<open>init_tables\<close>, which looks for them in the ELF file of the
  kernel's module, and \<open>lookup_symbol\<close>, with the structures of \<open>kernel/elf.h\<close> read at their offsets: a
  section header is 80 bytes (\<open>sh_name\<close> at 0, \<open>sh_type\<close> at 8, \<open>sh_offset\<close> at 32, \<open>sh_size\<close> at 40,
  \<open>sh_entsize\<close> at 72), a symbol 30 bytes (\<open>st_name\<close> at 0, \<open>st_value\<close> at 14). The loop over the section
  headers has no bound: the result is \<open>None\<close> where it does not end.
\<close>

record symbols =
  strtab :: u64
  symtab :: u64
  num_symbols :: u32

text \<open>The globals before \<open>init_tables\<close>.\<close>

definition no_symbols :: symbols where
  "no_symbols = \<lparr>strtab = 0, symtab = 0, num_symbols = 0\<rparr>"

subsection \<open>A string anywhere\<close>

text \<open>
  The bytes that \<open>%s\<close> prints, each read through the page tables. A scan of the whole address space
  meets an address that is not canonical, so the bound of the recursion is never the reason to stop.
\<close>

function kstring :: "kstate \<Rightarrow> u64 \<Rightarrow> nat \<Rightarrow> fault + u8 list" where
  "kstring s p i =
     bindf (kload8 s (p + of_nat i)) (\<lambda>c.
       if c = 0 then Inr []
       else if i < 2 ^ 64 then bindf (kstring s p (i + 1)) (\<lambda>cs. Inr (c # cs)) else Inl Undefined)"
  by pat_completeness auto
termination
  by (relation "measure (\<lambda>(s, p, i). 2 ^ 64 - i)") auto

declare kstring.simps [simp del]

subsection \<open>Finding the tables\<close>

definition symbol_section :: "u64 \<Rightarrow> kstate \<Rightarrow> u64 \<Rightarrow> u64 option \<times> symbols \<times> term_t \<Rightarrow> fault + (u64 option \<times> symbols \<times> term_t)" where
  "symbol_section ehdr s shdr = (\<lambda>(temp, sy, t).
     bindf (kload64 s (shdr + 8)) (\<lambda>sh_type.
       if sh_type \<noteq> 11 then Inr (temp, sy, t)
       else bindf (kload64 s (shdr + 40)) (\<lambda>sh_size.
            bindf (kload64 s (shdr + 72)) (\<lambda>sh_entsize.
            if sh_entsize = 0 then Inl Undefined
            else let sy = sy\<lparr>num_symbols := ucast (sh_size div sh_entsize)\<rparr> in
                 bindf (kprintf (line ''%d Symbols found'') [WordArg (scast (num_symbols sy))] t) (\<lambda>t.
                 bindf (kload64 s (shdr + 32)) (\<lambda>sh_offset.
                 Inr (Some shdr, sy\<lparr>symtab := ehdr + sh_offset\<rparr>, t)))))))"

partial_function (option) sections_loop :: "u64 \<Rightarrow> kstate \<Rightarrow> u64 \<Rightarrow> u64 option \<times> symbols \<times> term_t \<Rightarrow> (fault + (u64 option \<times> symbols \<times> term_t)) option" where
  "sections_loop ehdr s shdr x =
     (if strtab (fst (snd x)) = 0 \<or> symtab (fst (snd x)) = 0
      then (case symbol_section ehdr s shdr x of
              Inl f \<Rightarrow> Some (Inl f)
            | Inr y \<Rightarrow> sections_loop ehdr s (shdr + 80) y)
      else Some (Inr x))"

definition module_tables :: "u64 \<Rightarrow> kstate \<Rightarrow> u64 option \<times> symbols \<times> term_t \<Rightarrow> (fault + (u64 option \<times> symbols \<times> term_t)) option" where
  "module_tables ehdr s = (\<lambda>(temp, sy, t).
     bindo (Some (kload64 s (ehdr + 40))) (\<lambda>e_shoff.
     let shdr = e_shoff + ehdr in
     bindo (Some (kload16 s (ehdr + 62))) (\<lambda>e_shstrndx.
     bindo (Some (kload64 s (shdr + 80 * e_shstrndx + 32))) (\<lambda>sh_offset.
       sections_loop ehdr s shdr (temp, sy\<lparr>strtab := ehdr + sh_offset\<rparr>, t)))))"

function tables_loop :: "u64 \<Rightarrow> u64 \<Rightarrow> nat \<Rightarrow> kstate \<Rightarrow> u64 option \<times> symbols \<times> term_t \<Rightarrow> (fault + (u64 option \<times> symbols \<times> term_t)) option" where
  "tables_loop lit_kernel tag i s x =
     bindo (Some (kload64 s (tag + 16))) (\<lambda>count.
       if of_nat i < count
       then bindo (Some (my_strcmp (mem s) (module_addr tag i + 16) lit_kernel)) (\<lambda>r.
            bindo (if r \<noteq> 0 then Some (Inr x)
                   else bindo (Some (kload64 s (module_addr tag i))) (\<lambda>ehdr. module_tables ehdr s x)) (\<lambda>y.
              if i < C_INT_MAX then tables_loop lit_kernel tag (i + 1) s y else Some (Inl Undefined)))
       else Some (Inr x))"
  by pat_completeness auto
termination
  by (relation "measure (\<lambda>(lit, tag, i, s, x). C_INT_MAX - i)") auto

declare tables_loop.simps [simp del]

text \<open>\<open>temp\<close> is set where a symbol table was found only.\<close>

definition init_tables :: "u64 \<Rightarrow> u64 \<Rightarrow> kstate \<Rightarrow> symbols \<Rightarrow> term_t \<Rightarrow> (fault + (symbols \<times> term_t)) option" where
  "init_tables lit_kernel tag s sy t =
     bindo (tables_loop lit_kernel tag 0 s (None, sy, t)) (\<lambda>(temp, sy, t).
       Some (bindf (kprintf (line ''strtab: %p'') [WordArg (strtab sy)] t) (\<lambda>t.
         case temp of
           None \<Rightarrow> Inl Undefined
         | Some shdr \<Rightarrow>
             bindf (kload64 s shdr) (\<lambda>sh_name.
             bindf (kprintf (line ''Index: %d'') [WordArg sh_name] t) (\<lambda>t.
             bindf (kprintf (line ''String at %p'') [WordArg (strtab sy + sh_name)] t) (\<lambda>t.
             bindf (kload8 s (strtab sy + sh_name)) (\<lambda>c.
             bindf (kprintf (line ''Name: %c'') [WordArg (scast c)] t) (\<lambda>t. Inr (sy, t)))))))))"

subsection \<open>Looking a symbol up\<close>

function lookup_loop :: "kstate \<Rightarrow> symbols \<Rightarrow> u64 \<Rightarrow> nat \<Rightarrow> term_t \<Rightarrow> fault + (u64 \<times> term_t)" where
  "lookup_loop s sy symbol i t =
     (if int i < sint (num_symbols sy)
      then let entry = symtab sy + 30 * of_nat i in
           bindf (kload64 s entry) (\<lambda>st_name.
           let sym_string = strtab sy + st_name in
           bindf (kstring s sym_string 0) (\<lambda>cs.
           bindf (kprintf (line ''%s'') [StrArg cs] t) (\<lambda>t.
           bindf (my_strcmp (mem s) symbol sym_string) (\<lambda>r.
             if r = 0 then bindf (kload64 s (entry + 14)) (\<lambda>st_value. Inr (st_value, t))
             else lookup_loop s sy symbol (i + 1) t))))
      else Inr (0, t))"
  by pat_completeness auto
termination
  by (relation "measure (\<lambda>(s, sy, symbol, i, t). nat (sint (num_symbols sy)) - i)") auto

declare lookup_loop.simps [simp del]

definition lookup_symbol :: "kstate \<Rightarrow> symbols \<Rightarrow> u64 \<Rightarrow> term_t \<Rightarrow> fault + (u64 \<times> term_t)" where
  "lookup_symbol s sy symbol t = lookup_loop s sy symbol 0 t"

text \<open>Without \<open>init_tables\<close> there are no symbols.\<close>

lemma lookup_symbol_none: "lookup_symbol s no_symbols symbol t = Inr (0, t)"
  unfolding lookup_symbol_def by (subst lookup_loop.simps) (simp add: no_symbols_def)

subsection \<open>What the section loop finds\<close>

text \<open>
  \<open>elf.h\<close> notes that type 2 is a symbol table; the loop looks for 11 and passes every other section by.
\<close>

definition other_section :: "kstate \<Rightarrow> u64 \<Rightarrow> nat \<Rightarrow> bool" where
  "other_section s shdr k \<longleftrightarrow> (\<exists>ty. kload64 s (shdr + 80 * of_nat k + 8) = Inr ty \<and> ty \<noteq> 11)"

lemma sections_loop_pass:
  assumes "\<forall>k < n. other_section s shdr k" "strtab sy = 0 \<or> symtab sy = 0"
  shows "sections_loop ehdr s shdr (temp, sy, t) = sections_loop ehdr s (shdr + 80 * of_nat n) (temp, sy, t)"
  using assms(1)
proof (induction n)
  case (Suc n)
  then have "symbol_section ehdr s (shdr + 80 * of_nat n) (temp, sy, t) = Inr (temp, sy, t)"
    by (auto simp: other_section_def symbol_section_def)
  then have "sections_loop ehdr s (shdr + 80 * of_nat n) (temp, sy, t) = sections_loop ehdr s (shdr + 80 * of_nat n + 80) (temp, sy, t)"
    using assms(2) by (subst sections_loop.simps) auto
  moreover have "shdr + 80 * of_nat n + 80 = shdr + 80 * of_nat (Suc n)" by (simp add: algebra_simps)
  ultimately show ?case using Suc by simp
qed simp

lemma ucast_scast: "(ucast (scast n :: u64) :: u32) = n"
proof (rule bit_word_eqI)
  fix i assume "i < LENGTH(32)"
  then have "i < 31 \<or> i = 31" by auto
  then show "bit (ucast (scast n :: u64) :: u32) i \<longleftrightarrow> bit n i" by (auto simp: bit_unsigned_iff bit_signed_iff min_def)
qed

lemma sections_loop_found:
  assumes "\<forall>k < n. other_section s shdr k" "strtab sy \<noteq> 0" "symtab sy = 0"
    and "h = shdr + 80 * of_nat n" "kload64 s (h + 8) = Inr 11" "kload64 s (h + 40) = Inr sz" "kload64 s (h + 72) = Inr ent"
    and "kload64 s (h + 32) = Inr off" "ent \<noteq> 0" "ehdr + off \<noteq> 0"
  shows "sections_loop ehdr s shdr (temp, sy, t) = Some (Inr (Some h, sy\<lparr>num_symbols := ucast (sz div ent), symtab := ehdr + off\<rparr>,
    fold term_putchar (numeral_text 10 (unat (scast (ucast (sz div ent) :: u32) :: u64)) @ str '' Symbols found'' @ [0x0A]) t))"
proof -
  let ?n = "ucast (sz div ent) :: u32"
  have "int_arg (scast ?n) = scast ?n" by (simp add: int_arg_def ucast_scast)
  then have "ktext (line ''%d Symbols found'') [WordArg (scast ?n)]
      = Some (numeral_text 10 (unat (scast ?n :: u64)) @ str '' Symbols found'' @ [0x0A])"
    by (simp add: ktext_conv ktext_Cons ktext_Nil conversions_def)
  then have "symbol_section ehdr s h (temp, sy, t) = Inr (Some h, sy\<lparr>num_symbols := ?n, symtab := ehdr + off\<rparr>,
      fold term_putchar (numeral_text 10 (unat (scast ?n :: u64)) @ str '' Symbols found'' @ [0x0A]) t)"
    using assms(5-9) by (simp add: symbol_section_def kprintf_text)
  then have "sections_loop ehdr s h (temp, sy, t) = sections_loop ehdr s (h + 80) (Some h, sy\<lparr>num_symbols := ?n, symtab := ehdr + off\<rparr>,
      fold term_putchar (numeral_text 10 (unat (scast ?n :: u64)) @ str '' Symbols found'' @ [0x0A]) t)"
    using assms(3) by (subst sections_loop.simps) simp
  also have "\<dots> = Some (Inr (Some h, sy\<lparr>num_symbols := ?n, symtab := ehdr + off\<rparr>,
      fold term_putchar (numeral_text 10 (unat (scast ?n :: u64)) @ str '' Symbols found'' @ [0x0A]) t))"
    using assms(2,10) by (subst sections_loop.simps) simp
  finally show ?thesis using sections_loop_pass [of n s shdr sy ehdr temp t] assms(1,3,4) by simp
qed

text \<open>Where no section has type 11 the loop runs on through memory until a read fails: it cannot return.\<close>

lemma sections_loop_returns:
  assumes "sections_loop ehdr s shdr x = Some (Inr y)"
  shows "strtab (fst (snd x)) \<noteq> 0 \<and> symtab (fst (snd x)) \<noteq> 0 \<or> (\<exists>n. kload64 s (shdr + 80 * of_nat n + 8) = Inr 11)"
proof -
  define P where "P = (\<lambda>(ehdr :: u64) s shdr (x :: u64 option \<times> symbols \<times> term_t) (r :: fault + (u64 option \<times> symbols \<times> term_t)).
    (\<exists>y. r = Inr y) \<longrightarrow> strtab (fst (snd x)) \<noteq> 0 \<and> symtab (fst (snd x)) \<noteq> 0 \<or> (\<exists>n. kload64 s (shdr + 80 * of_nat n + 8) = Inr 11))"
  have step: "P ehdr s shdr x r"
    if IH: "\<And>a b c d r. f a b c d = Some r \<Longrightarrow> P a b c d r"
      and r: "(if strtab (fst (snd x)) = 0 \<or> symtab (fst (snd x)) = 0
        then (case symbol_section ehdr s shdr x of Inl e \<Rightarrow> Some (Inl e) | Inr y \<Rightarrow> f ehdr s (shdr + 80) y)
        else Some (Inr x)) = Some r" for f ehdr s shdr x r
      unfolding P_def prod.case
    proof (intro impI disjCI, elim exE)
      fix y assume y: "r = Inr y" and none: "\<nexists>n. kload64 s (shdr + 80 * of_nat n + 8) = Inr 11"
      have "kload64 s (shdr + 8) \<noteq> Inr 11" using none [simplified, rule_format, of 0] by simp
      then have same: "z = x" if "symbol_section ehdr s shdr x = Inr z" for z
        using that by (cases x) (auto simp: symbol_section_def bindf_Inr split: if_splits)
      have "kload64 s (shdr + 80 + 80 * of_nat n + 8) \<noteq> Inr 11" for n
        using none [simplified, rule_format, of "Suc n"] by (simp add: algebra_simps)
      moreover have "P ehdr s (shdr + 80) x r" if "strtab (fst (snd x)) = 0 \<or> symtab (fst (snd x)) = 0"
        by (rule IH) (use r that same y in \<open>auto split: sum.splits\<close>)
      ultimately show "strtab (fst (snd x)) \<noteq> 0 \<and> symtab (fst (snd x)) \<noteq> 0"
        using y by (cases y) (auto simp: P_def)
    qed
  have "P ehdr s shdr x (Inr y)"
    by (rule sections_loop.raw_induct [where P = P and xa = "(((ehdr, s), shdr), x)" and y = "Inr y", unfolded prod.case, OF _ assms])
      (rule step)
  then show ?thesis by (cases y) (simp add: P_def)
qed

subsection \<open>What a lookup finds\<close>

text \<open>The \<open>i\<close>-th entry of the table names the string and has the value.\<close>

definition symbol_at :: "kstate \<Rightarrow> symbols \<Rightarrow> nat \<Rightarrow> u8 list \<times> u64 \<Rightarrow> bool" where
  "symbol_at s sy i = (\<lambda>(name, v). \<exists>off.
     kload64 s (symtab sy + 30 * of_nat i) = Inr off \<and> kload64 s (symtab sy + 30 * of_nat i + 14) = Inr v
     \<and> cstring (mem s) (strtab sy + off) name \<and> (\<forall>j \<le> length name. high (strtab sy + off + of_nat j)) \<and> length name < INT_MAX)"

lemma kstring_cstring:
  assumes "cstring (mem s) p cs" "\<forall>j \<le> length cs. high (p + of_nat j)" "length cs < INT_MAX"
  shows "i \<le> length cs \<Longrightarrow> kstring s p i = Inr (drop i cs)"
proof (induction "length cs - i" arbitrary: i)
  case 0
  then show ?case using cstring_byte [OF assms(1), of i] assms(2) by (subst kstring.simps) (simp add: kload8_def byte_at_def)
next
  case (Suc n)
  then have i: "i < length cs" "i < 2 ^ 64" using assms(3) by simp_all
  then have "mem s (p + of_nat i) = cs ! i" "cs ! i \<noteq> 0"
    using cstring_byte [OF assms(1), of i] by (auto simp: byte_at_def)
  moreover have "kstring s p (i + 1) = Inr (drop (i + 1) cs)" using Suc by simp
  ultimately show ?case using i assms(2) by (subst kstring.simps) (simp add: kload8_def Cons_nth_drop_Suc)
qed

text \<open>The names a lookup prints: up to the first that is equal, and what it returns.\<close>

fun looked_up :: "u8 list \<Rightarrow> (u8 list \<times> u64) list \<Rightarrow> u8 list \<times> u64" where
  "looked_up name [] = ([], 0)"
| "looked_up name ((n, v) # syms) =
     (if n = name then (n @ [0x0A], v)
      else (n @ [0x0A] @ fst (looked_up name syms), snd (looked_up name syms)))"

lemma looked_up_value: "snd (looked_up name syms) = (case map_of syms name of None \<Rightarrow> 0 | Some v \<Rightarrow> v)"
  by (induction syms) auto

lemma lookup_loop_finds:
  assumes n: "sint (num_symbols sy) = int (length syms)" and syms: "\<forall>i < length syms. symbol_at s sy i (syms ! i)"
    and name: "cstring (mem s) symbol name" "length name < INT_MAX"
  shows "i \<le> length syms \<Longrightarrow> lookup_loop s sy symbol i t =
    Inr (snd (looked_up name (drop i syms)), fold term_putchar (fst (looked_up name (drop i syms))) t)"
proof (induction "length syms - i" arbitrary: i t)
  case 0
  then have "i = length syms" by simp
  then have "\<not> int i < sint (num_symbols sy)" "drop i syms = []" using n by simp_all
  then show ?case by (simp only: lookup_loop.simps [of s sy symbol i t] if_False) simp
next
  case (Suc k)
  then have i: "i < length syms" by simp
  obtain nm v where nv: "syms ! i = (nm, v)" by (cases "syms ! i")
  obtain off where o: "kload64 s (symtab sy + 30 * of_nat i) = Inr off" "kload64 s (symtab sy + 30 * of_nat i + 14) = Inr v"
    "cstring (mem s) (strtab sy + off) nm" "\<forall>j \<le> length nm. high (strtab sy + off + of_nat j)" "length nm < INT_MAX"
    using syms [rule_format, OF i] unfolding nv symbol_at_def prod.case by blast
  have ks: "kstring s (strtab sy + off) 0 = Inr nm" using kstring_cstring [OF o(3-5), of 0] by simp
  have "\<forall>c \<in> set nm. c \<noteq> 0" using o(3) unfolding cstring_def by metis
  then have "c_text nm = nm" by (simp add: c_text_def)
  then have "ktext (line ''%s'') [StrArg nm] = Some (nm @ [0x0A])"
    by (simp add: ktext_conv ktext_Cons ktext_Nil conversions_def)
  then have kp: "kprintf (line ''%s'') [StrArg nm] t = Inr (fold term_putchar (nm @ [0x0A]) t)"
    by (simp only: kprintf_text option.case)
  have cmp: "my_strcmp (mem s) symbol (strtab sy + off) = Inr (if name = nm then 0 else 1)"
    by (rule strcmp_cstring [OF name(1) o(3) name(2)])
  have "int i < sint (num_symbols sy)" using i n by simp
  then have "lookup_loop s sy symbol i t = (if nm = name then Inr (v, fold term_putchar (nm @ [0x0A]) t)
      else lookup_loop s sy symbol (i + 1) (fold term_putchar (nm @ [0x0A]) t))"
    unfolding lookup_loop.simps [of s sy symbol i t] Let_def
    by (simp only: if_True o(1,2) ks kp cmp bindf_simps) auto
  moreover have "drop i syms = (nm, v) # drop (i + 1) syms" using Cons_nth_drop_Suc [OF i] nv by simp
  ultimately show ?case using Suc by simp
qed

subsection \<open>Properties\<close>

text \<open>
  C24: \<open>lookup_symbol\<close>, for any table of symbols and any name: it prints the names of the table in their
  order up to the first that is equal, and returns that symbol's value, or all of them and 0 where none
  is; on the empty table \<open>init_tables\<close> leaves when it is not called it prints nothing and returns 0.
\<close>

theorem lookup_symbol_finds:
  assumes "sint (num_symbols sy) = int (length syms)" "\<forall>i < length syms. symbol_at s sy i (syms ! i)"
    and "cstring (mem s) symbol name" "length name < INT_MAX"
  shows "lookup_symbol s sy symbol t =
      Inr (case map_of syms name of None \<Rightarrow> 0 | Some v \<Rightarrow> v, fold term_putchar (fst (looked_up name syms)) t)
    \<and> lookup_symbol s no_symbols symbol t = Inr (0, t)"
  using lookup_loop_finds [OF assms, of 0 t] lookup_symbol_none
  by (simp add: lookup_symbol_def looked_up_value)

definition symbol_mem :: mem where
  "symbol_mem = (\<lambda>_. 0)(0xffffffff8000100e := 7, 0xffffffff8000101e := 2, 0xffffffff8000102c := 9,
     0xffffffff80002000 := 0x66, 0xffffffff80002002 := 0x67, 0xffffffff80003000 := 0x67)"

definition symbol_state :: "kstate" where
  "symbol_state = boot_state\<lparr>mem := symbol_mem\<rparr>"

definition two_symbols :: symbols where
  "two_symbols = \<lparr>strtab = 0xffffffff80002000, symtab = 0xffffffff80001000, num_symbols = 2\<rparr>"

lemma symbol_kload:
  assumes "0xffffffff80000000 \<le> a" "a \<le> 0xffffffff8fffffff"
  shows "kload64 symbol_state a = Inr (load64 symbol_mem a)"
proof -
  have "high (a + i)" if "i < 8" for i
    using that boot_high [OF assms, of "unat i"] order_trans [of "0xffff800000000000" "0xffffffff80000000" "a + i"]
    by (simp add: high_def word_less_nat_alt)
  from kload64_high [OF this] show ?thesis by (simp add: symbol_state_def)
qed

lemma lookup_symbol_finds_witness:
  "lookup_symbol symbol_state two_symbols 0xffffffff80003000 blank_term
    = Inr (9, fold term_putchar [0x66, 0x0A, 0x67, 0x0A] blank_term)"
proof -
  let ?syms = "[([0x66 :: u8], 7 :: u64), ([0x67], 9)]"
  have m: "mem symbol_state = symbol_mem" by (simp add: symbol_state_def)
  have "symbol_at symbol_state two_symbols 0 ([0x66], 7)"
    unfolding symbol_at_def prod.case m
    by (rule exI [of _ 0])
      (simp add: two_symbols_def symbol_kload load64_def symbol_mem_def cstring_def byte_at_def high_def le_Suc_eq)
  moreover have "symbol_at symbol_state two_symbols 1 ([0x67], 9)"
    unfolding symbol_at_def prod.case m
    by (rule exI [of _ 2])
      (simp add: two_symbols_def symbol_kload load64_def symbol_mem_def cstring_def byte_at_def high_def le_Suc_eq)
  ultimately have "\<forall>i < length ?syms. symbol_at symbol_state two_symbols i (?syms ! i)"
    by (auto simp: less_Suc_eq)
  moreover have "cstring (mem symbol_state) 0xffffffff80003000 [0x67]"
    by (simp add: cstring_def byte_at_def m symbol_mem_def)
  ultimately show ?thesis
    using lookup_symbol_finds [of two_symbols ?syms symbol_state "0xffffffff80003000" "[0x67]" blank_term]
    by (simp add: two_symbols_def)
qed

end
