(* ===== verification/Startup.thy ===== *)
theory Startup
  imports Symbols Gdt Idt Irq Exceptions Userheap
begin

text \<open>
  \<open>_start\<close> of \<open>kernel/boot.c\<close>: the components of the kernel put together in the order the boot does it.
  The state is the machine, screen and keyboard of \<open>Sysio\<close> with the descriptor tables, the interrupt
  table and the globals of \<open>boot.c\<close>, \<open>proc.c\<close> and \<open>debug.c\<close> beside them. The run is split where the code
  changes what it works on: \<open>start_setup\<close> up to the interrupt controller, \<open>start_reports\<close> up to the
  breakpoint, the debugger that the breakpoint enters, \<open>start_page\<close> with the test of \<open>vm_map\<close>,
  \<open>start_exec\<close>, and \<open>start_tests\<close>, which is reached where no module is named \<open>init\<close>. The result is the
  user mode that \<open>init\<close> starts in; it is \<open>None\<close> where a search of the tags does not end.
\<close>

record system =
  core :: world
  tables :: gdt_state
  vectors :: "idt_entry list"
  idtr :: "(u16 \<times> u64) option"
  interrupts_on :: bool
  header :: u64
  hhdm_addr :: u64
  syms :: symbols
  term_write :: u64

text \<open>The addresses that the compiler and the linker fix.\<close>

record start_links =
  debugger :: debug_links
  handler_at :: "handler_t \<Rightarrow> u64"
  idt_at :: u64
  test_global :: u64
  test_global_name :: u64
  test_string :: u64
  frame_i :: u64
  init_literal :: u64
  hello_literal :: u64
  read_buf :: u64
  copy_array :: u64

definition with_machine :: "kstate \<Rightarrow> system \<Rightarrow> system" where
  "with_machine s y = y\<lparr>core := (core y)\<lparr>machine := s\<rparr>\<rparr>"

definition with_screen :: "term_t \<Rightarrow> system \<Rightarrow> system" where
  "with_screen t y = y\<lparr>core := (core y)\<lparr>screen := t\<rparr>\<rparr>"

definition say :: "(u8 list \<times> vararg list) list \<Rightarrow> system \<Rightarrow> fault + system" where
  "say calls y = bindf (prints calls (screen (core y))) (\<lambda>t. Inr (with_screen t y))"

text \<open>\<open>set_hdr\<close> of \<open>kernel/proc.c\<close>.\<close>

definition set_hdr :: "u64 \<Rightarrow> system \<Rightarrow> system" where
  "set_hdr hdr y = y\<lparr>header := hdr\<rparr>"

text \<open>\<open>set_term_write\<close> of \<open>kernel/kprint.c\<close>, which stores the pointer that \<open>term_setup\<close> reads; no code calls it.\<close>

definition set_term_write :: "u64 \<Rightarrow> system \<Rightarrow> system" where
  "set_term_write fn y = y\<lparr>term_write := fn\<rparr>"

subsection \<open>What the kernel asks the bootloader for\<close>

text \<open>
  The static data of \<open>boot.c\<close> that the bootloader finds in the section \<open>.stivale2hdr\<close>, given the addresses
  of the stack and of the two tags. Fields without an initialiser are zero.
\<close>

record stivale2_tag =
  tag_id :: u64
  next_tag :: u64

record terminal_tag =
  header_tag :: stivale2_tag
  tag_flags :: u64
  callback :: u64

record stivale2_header =
  entry_point :: u64
  stack_top :: u64
  request :: u64
  first_tag :: u64

definition unmap_null_hdr_tag :: stivale2_tag where
  "unmap_null_hdr_tag = \<lparr>tag_id = 0x92919432b16fe7e7, next_tag = 0\<rparr>"

definition terminal_hdr_tag :: "u64 \<Rightarrow> terminal_tag" where
  "terminal_hdr_tag unmap_null_at =
     \<lparr>header_tag = \<lparr>tag_id = 0xa85d499b1823be72, next_tag = unmap_null_at\<rparr>, tag_flags = 0, callback = 0\<rparr>"

definition stivale_hdr :: "u64 \<Rightarrow> u64 \<Rightarrow> stivale2_header" where
  "stivale_hdr stack terminal_at =
     \<lparr>entry_point = 0, stack_top = stack + 8192, request = 0x1E, first_tag = terminal_at\<rparr>"

subsection \<open>Setting up\<close>

definition start_setup :: "device \<Rightarrow> start_links \<Rightarrow> u64 \<Rightarrow> system \<Rightarrow> (fault + (u64 \<times> system)) option" where
  "start_setup dev sl hdr y =
     bindo (init_list hdr (machine (core y))) (\<lambda>s.
     let root = read_cr3 s AND 0xFFFFFFFFFFFFF000;
         y = with_screen (term_init dev (ptov s) (screen (core y))) (with_machine s y)
     in Some (
       bindf (say [(line ''Terminal initialized'', []), (line ''Setting up gdt'', [])] y) (\<lambda>y.
       let y = y\<lparr>tables := gdt_setup (tables y)\<rparr> in
       bindf (say [(line ''Setting up idt'', [])] y) (\<lambda>y.
       bindf (say (idt_setup_report (handler_at sl Example_handler_ec)) y) (\<lambda>y.
       let (idt, record) = idt_setup (handler_at sl) (idt_at sl) (vectors y);
           y = with_machine (unmap_lower_half root (machine (core y))) (y\<lparr>vectors := idt, idtr := Some record\<rparr>) in
       bindf (say [(line ''Initializing pic'', [])] y) (\<lambda>y.
       let (p, on) = pic_init (ports (screen (core y)));
           p = pic_unmask_irq dev 1 p
       in Inr (root, with_screen ((screen (core y))\<lparr>ports := p\<rparr>) (y\<lparr>interrupts_on := on\<rparr>))))))))"

subsection \<open>Reporting\<close>

definition start_reports :: "start_links \<Rightarrow> u64 \<Rightarrow> system \<Rightarrow> (fault + system) option" where
  "start_reports sl hdr y =
     bindo (Some (say [(line ''Setting up processes'', [])] y)) (\<lambda>y.
     bindo (find_tag (machine (core y)) hdr MODULES_ID) (\<lambda>tag.
     let y = set_hdr tag y in
     bindo (Some (lookup_symbol (machine (core y)) (syms y) (test_global_name sl) (screen (core y)))) (\<lambda>(found, t).
     bindo (Some (say [(line ''Address of test_global: %p, result: %p'', [WordArg (test_global sl), WordArg found]),
                       (line ''Printing memory and mods'', [])] (with_screen t y))) (\<lambda>y.
     bindo (memmap_print (machine (core y)) hdr) (\<lambda>(h, calls).
     bindo (Some (say calls (y\<lparr>hhdm_addr := h\<rparr>))) (\<lambda>y.
     bindo (print_mods (machine (core y)) hdr) (\<lambda>calls.
     Some (say (calls @ [(line ''String: %p'', [WordArg (test_string sl)])]) y))))))))"

text \<open>\<open>BREAK\<close>: the trap gate of vector 3 and its handler.\<close>

definition start_break :: "start_links \<Rightarrow> (u8 \<Rightarrow> u32) \<Rightarrow> system \<Rightarrow> fault + system" where
  "start_break sl junk y = bindf (exception3 (debugger sl) junk (core y)) (\<lambda>w. Inr (y\<lparr>core := w\<rparr>))"

subsection \<open>The test of \<open>vm_map\<close>\<close>

definition start_page :: "start_links \<Rightarrow> u64 \<Rightarrow> system \<Rightarrow> fault + system" where
  "start_page sl root y =
     bindf (say [(line ''i: %p'', [WordArg (frame_i sl)])] y) (\<lambda>y.
     let p = 0x501040200 in
     bindf (vm_map root p True True True (machine (core y))) (\<lambda>(result, s).
       if result
       then bindf (kstore 4 p 123 s) (\<lambda>s.
            bindf (kload32 s p) (\<lambda>v.
            say [(line ''Stored %d at %p'', [WordArg v, WordArg p])] (with_machine s y)))
       else say [(line ''vm_map failed with an error'', [])] (with_machine s y)))"

subsection \<open>The first program\<close>

definition start_exec :: "start_links \<Rightarrow> system \<Rightarrow> fault + (exec_result \<times> system)" where
  "start_exec sl y =
     bindf (say [(line ''Running executable'', [])] y) (\<lambda>y.
     bindf (execute_mod (header y) (init_literal sl) (str ''init'') (machine (core y)) (screen (core y))) (\<lambda>(r, s, t).
     Inr (r, with_screen t (with_machine s y))))"

text \<open>
  Where \<open>init\<close> was not found: the two system calls, then 600 keys echoed, then \<open>halt\<close>. \<open>rc\<close> is what
  the call left in \<open>rax\<close>; the calls 0 and 1 always return.
\<close>

definition start_syscall :: "start_links \<Rightarrow> u64 \<Rightarrow> u64 \<Rightarrow> u64 \<Rightarrow> u64 \<Rightarrow> system \<Rightarrow> fault + (u64 \<times> system)" where
  "start_syscall sl nr arg0 arg1 arg2 y =
     bindf (syscall_handler \<lparr>mods = header y, init_name = init_literal sl, copy = copy_array sl\<rparr> nr arg0 arg1 arg2 (core y))
       (\<lambda>(r, w). case r of Return v \<Rightarrow> Inr (v, y\<lparr>core := w\<rparr>) | EnterUser a b c d \<Rightarrow> Inl Undefined)"

definition echo_key :: "nat \<Rightarrow> world \<Rightarrow> fault + world" where
  "echo_key i w = bindf (kgetc (kbd w)) (\<lambda>(c, k). kput (str ''%c'') [WordArg (scast c)] (w\<lparr>kbd := k\<rparr>))"

definition start_tests :: "start_links \<Rightarrow> system \<Rightarrow> fault + system" where
  "start_tests sl y =
     bindf (start_syscall sl 1 1 (hello_literal sl) 7 y) (\<lambda>(r, y).
     bindf (start_syscall sl 0 0 (read_buf sl) 5 y) (\<lambda>(rc, y).
     bindf (if rc \<le>s 0 then say [(line ''read failed'', [])] y
            else if 6 \<le> rc then Inl Undefined
            else bindf (kstore8 (read_buf sl + rc) 0 (machine (core y))) (\<lambda>s.
                 bindf (kstring s (read_buf sl) 0) (\<lambda>cs.
                 say [(str ''read '' @ [0x27] @ str ''%s'' @ [0x27, 0x0A], [StrArg cs])] (with_machine s y)))) (\<lambda>y.
     bindf (foldf echo_key [0..<600] (core y)) (\<lambda>w. Inl Halted))))"

subsection \<open>The whole\<close>

definition start :: "device \<Rightarrow> start_links \<Rightarrow> (u8 \<Rightarrow> u32) \<Rightarrow> u64 \<Rightarrow> system \<Rightarrow> (fault + (exec_result \<times> system)) option" where
  "start dev sl junk hdr y =
     bindo (start_setup dev sl hdr y) (\<lambda>(root, y).
     bindo (start_reports sl hdr y) (\<lambda>y.
     Some (bindf (start_break sl junk y) (\<lambda>y.
           bindf (start_page sl root y) (\<lambda>y.
           bindf (start_exec sl y) (\<lambda>(r, y).
           case r of
             UserMode a b c d \<Rightarrow> Inr (r, y)
           | NotFound \<Rightarrow> bindf (start_tests sl y) (\<lambda>y. Inr (r, y))))))))"

subsection \<open>Unmapping the lower half of any tree\<close>

text \<open>
  The tables the bootloader leaves need not satisfy \<open>space_ok\<close>: they map the whole of memory, free
  pages included, by large pages. What \<open>unmap_lower_half\<close> does to the top-level table it does to any:
  giving back a frame writes its first eight bytes, so every entry but the first is safe even if a
  table pointed back to the top-level table.
\<close>

definition upper_kept :: "u64 \<Rightarrow> kstate \<Rightarrow> kstate \<Rightarrow> bool" where
  "upper_kept r s s' \<longleftrightarrow> hhdm s' = hhdm s \<and> cr3 s' = cr3 s
     \<and> (\<forall>i. 1 \<le> i \<longrightarrow> i < 512 \<longrightarrow> get_pte (mem s') (slot r i) = get_pte (mem s) (slot r i))"

lemma upper_kept_refl [simp]: "upper_kept r s s"
  by (simp add: upper_kept_def)

lemma upper_kept_trans: "upper_kept r s s' \<Longrightarrow> upper_kept r s' s'' \<Longrightarrow> upper_kept r s s''"
  by (simp add: upper_kept_def)

lemma upper_kept_free:
  assumes "page_aligned r" "page_aligned (hhdm s)" "page_aligned p"
  shows "upper_kept r s (pmem_free p s)"
proof -
  have "load64 (store64 (mem s) (p + hhdm s) v) (slot r i) = load64 (mem s) (slot r i)" if "1 \<le> i" "i < 512" for i v
  proof -
    have "i \<noteq> 0" using that(1) by auto
    then show ?thesis using load64_store64_slot [of "p + hhdm s" 0 r i "mem s" v] assms that(2) by (simp add: slot_def)
  qed
  then show ?thesis by (simp add: upper_kept_def pmem_free_def get_pte_def Let_def)
qed

lemma upper_kept_fold:
  assumes "\<And>x s. page_aligned (hhdm s) \<Longrightarrow> upper_kept r s (f x s)" "page_aligned (hhdm s)"
  shows "upper_kept r s (fold f xs s)"
  using assms(2)
proof (induction xs arbitrary: s)
  case (Cons x xs)
  have "upper_kept r s (f x s)" using assms(1) Cons.prems by blast
  moreover from this have "upper_kept r (f x s) (fold f xs (f x s))"
    using Cons.IH Cons.prems by (simp add: upper_kept_def)
  ultimately show ?case using upper_kept_trans by simp
qed simp

lemma upper_kept_l3:
  assumes r: "page_aligned r" and h: "page_aligned (hhdm s)"
  shows "upper_kept r s (unmap_l3_entry t i s)"
proof -
  have l2: "upper_kept r s (unmap_l2_entry t i s)" if "page_aligned (hhdm s)" for t i s
    using upper_kept_free [OF r that] by (simp add: unmap_l2_entry_def Let_def)
  let ?e = "get_pte (mem s) (slot t i)"
  let ?s = "fold (unmap_l2_entry (ptov s (pte_frame ?e))) (indices 512) s"
  have k: "upper_kept r s ?s" by (rule upper_kept_fold [OF l2 h])
  then have "page_aligned (hhdm ?s)" using h by (simp add: upper_kept_def)
  from upper_kept_trans [OF k upper_kept_free [OF r this]] show ?thesis
    by (simp add: unmap_l3_entry_def Let_def)
qed

lemma unmap_l4_entry_clears:
  assumes r: "page_aligned r" and h: "page_aligned (hhdm s)" and i: "i < 512"
  shows "hhdm (unmap_l4_entry r i s) = hhdm s" "cr3 (unmap_l4_entry r i s) = cr3 s"
    and "1 \<le> j \<Longrightarrow> j < 512 \<Longrightarrow> get_pte (mem (unmap_l4_entry r i s)) (slot r j)
      = (if j = i then (get_pte (mem s) (slot r j))\<lparr>pte_present := False\<rparr> else get_pte (mem s) (slot r j))"
proof -
  let ?e = "get_pte (mem s) (slot r i)"
  let ?s1 = "s\<lparr>mem := set_pte (mem s) (slot r i) (?e\<lparr>pte_present := False\<rparr>)\<rparr>"
  let ?s2 = "fold (unmap_l3_entry (ptov ?s1 (pte_frame (get_pte (mem ?s1) (slot r i))))) (indices 512) ?s1"
  have k: "upper_kept r ?s1 ?s2" by (rule upper_kept_fold [OF upper_kept_l3 [OF r]]) (use h in simp_all)
  then have "page_aligned (hhdm ?s2)" using h by (simp add: upper_kept_def)
  note k = upper_kept_trans [OF k upper_kept_free [OF r this page_aligned_pte_frame [of "get_pte (mem ?s2) (slot r i)"]]]
  have step: "unmap_l4_entry r i s = (if pte_present ?e then pmem_free (pte_frame (get_pte (mem ?s2) (slot r i))) ?s2 else s)"
    by (simp add: unmap_l4_entry_def Let_def)
  show "hhdm (unmap_l4_entry r i s) = hhdm s" "cr3 (unmap_l4_entry r i s) = cr3 s"
    using k unfolding step by (simp_all add: upper_kept_def)
  show "get_pte (mem (unmap_l4_entry r i s)) (slot r j)
      = (if j = i then (get_pte (mem s) (slot r j))\<lparr>pte_present := False\<rparr> else get_pte (mem s) (slot r j))"
    if j: "1 \<le> j" "j < 512"
  proof (cases "pte_present ?e")
    case True
    then have "get_pte (mem (unmap_l4_entry r i s)) (slot r j) = get_pte (mem ?s1) (slot r j)"
      using k j unfolding step by (simp add: upper_kept_def)
    then show ?thesis using get_set_pte [OF r i r j(2), of "mem s"] by simp
  next
    case False
    then have "?e\<lparr>pte_present := False\<rparr> = ?e" by (cases ?e) simp
    then show ?thesis using False unfolding step by auto
  qed
qed

lemma unmap_l4_entries_clear:
  assumes "page_aligned r" "page_aligned (hhdm s)" "\<forall>i \<in> set is. i < 512"
  shows "hhdm (fold (unmap_l4_entry r) is s) = hhdm s \<and> cr3 (fold (unmap_l4_entry r) is s) = cr3 s
    \<and> (\<forall>j. 1 \<le> j \<longrightarrow> j < 512 \<longrightarrow> get_pte (mem (fold (unmap_l4_entry r) is s)) (slot r j)
        = (if j \<in> set is then (get_pte (mem s) (slot r j))\<lparr>pte_present := False\<rparr> else get_pte (mem s) (slot r j)))"
  using assms(2,3)
proof (induction "is" arbitrary: s)
  case (Cons i "is")
  note c = unmap_l4_entry_clears [OF assms(1) Cons.prems(1), of i]
  show ?case using Cons.IH [of "unmap_l4_entry r i s"] c Cons.prems by auto
qed simp

lemma upper_index:
  assumes "0x8000000000 \<le> va" "va < 0x800000000000"
  shows "1 \<le> table_index 3 va" "unat (table_index 3 va) < 256"
proof -
  have m: "(0x1ff :: u64) = mask 9" by (simp add: mask_eq_exp_minus_1)
  have v: "2 ^ 39 \<le> unat va" "unat va < 2 ^ 47" using assms by (simp_all add: word_le_nat_alt word_less_nat_alt)
  have "table_index 3 va = take_bit 9 (drop_bit 39 va)" unfolding table_index_def m by (simp add: take_bit_eq_mask)
  then have "unat (table_index 3 va) = unat va div 2 ^ 39 mod 512"
    by (simp add: take_bit_eq_mod drop_bit_eq_div unat_div_distrib unat_mod_distrib)
  moreover have "unat va div 2 ^ 39 < 256" "1 \<le> unat va div 2 ^ 39" using v by (simp_all add: div_greater_zero_iff)
  ultimately show "1 \<le> table_index 3 va" "unat (table_index 3 va) < 256"
    by (simp_all add: word_le_nat_alt)
qed

lemma unmap_lower_half_clears:
  assumes "page_aligned root" "page_aligned (hhdm s)" "0x8000000000 \<le> va" "va < 0x800000000000"
  shows "walk (unmap_lower_half root s) root va = None"
proof -
  let ?i = "table_index 3 va" and ?s1 = "fold (unmap_l4_entry (root + hhdm s)) (indices 256) s"
  have i: "1 \<le> ?i" "?i < 512" "?i \<in> set (indices 256)" using upper_index [OF assms(3,4)] in_indices by simp_all
  have "\<forall>j \<in> set (indices 256). j < 512" using indices_less [of 256] by simp
  from unmap_l4_entries_clear [OF page_aligned_add [OF assms(1,2)] assms(2) this] i
  have "\<not> pte_present (get_pte (mem ?s1) (slot (root + hhdm s) ?i))" "hhdm ?s1 = hhdm s" by simp_all
  then have "\<not> pte_present (get_pte (mem (unmap_lower_half root s)) (slot (root + hhdm (unmap_lower_half root s)) ?i))"
    by (simp add: unmap_lower_half_def ptov_def reset_v_heap_def write_cr3_def Let_def)
  moreover have 4: "(4 :: nat) = Suc 3" by simp
  ultimately show ?thesis unfolding walk_def by (subst 4, subst mmu_walk.simps) (simp only: Let_def not_False_eq_True if_True)
qed

subsection \<open>What the set-up prints\<close>

lemma with_simps [simp]:
  "core (with_machine s y) = (core y)\<lparr>machine := s\<rparr>" "core (with_screen t y) = (core y)\<lparr>screen := t\<rparr>"
  "tables (with_machine s y) = tables y" "tables (with_screen t y) = tables y"
  "vectors (with_machine s y) = vectors y" "vectors (with_screen t y) = vectors y"
  "idtr (with_machine s y) = idtr y" "idtr (with_screen t y) = idtr y"
  "interrupts_on (with_machine s y) = interrupts_on y" "interrupts_on (with_screen t y) = interrupts_on y"
  "header (with_machine s y) = header y" "header (with_screen t y) = header y"
  "syms (with_machine s y) = syms y" "syms (with_screen t y) = syms y"
  by (simp_all add: with_machine_def with_screen_def)

lemma say_text: "ktexts calls = Some u \<Longrightarrow> say calls y = Inr (with_screen (fold term_putchar u (screen (core y))) y)"
  by (simp add: say_def prints_text)

definition setup_text :: "u64 \<Rightarrow> u8 list" where
  "setup_text a = line ''Terminal initialized'' @ line ''Setting up gdt'' @ line ''Setting up idt'' @ line ''Setup''
     @ str ''Handler: 0x'' @ numeral_text 16 (unat a) @ [0x0A] @ line ''Initializing pic''"

lemma numeral_text_no_return: "0x0D \<notin> set (numeral_text 16 n)"
proof -
  have "digit_char d \<noteq> 0x0D" if "d < 16" for d
    using that unfolding hex_digit by (auto simp: digit_char_def)
  moreover have "d < 16" if "d \<in> set (digits 16 n)" for d using digits_less [OF _ that] by simp
  ultimately have "\<forall>d \<in> set (digits 16 n). 0x0D \<noteq> digit_char d" by metis
  then show ?thesis by (cases "n = 0") (simp_all add: numeral_text_def image_iff)
qed

lemma setup_text_no_return: "0x0D \<notin> set (setup_text a)"
  using numeral_text_no_return [of "unat a"] by (simp add: setup_text_def)

lemma displays_ports [simp]: "displays (t\<lparr>ports := p\<rparr>) ls \<longleftrightarrow> displays t ls"
  by (simp add: displays_def cell_def cell_addr_def)

lemma idt_report_text:
  "ktexts (idt_setup_report a) = Some (line ''Setup'' @ str ''Handler: 0x'' @ numeral_text 16 (unat a) @ [0x0A])"
  by (simp add: idt_setup_report_def ktext_literal ktext_conv ktext_Cons ktext_Nil conversions_def)

lemma start_setup_runs:
  assumes "init_list hdr (machine (core y)) = Some (Inr s)" "cr3 s = cr3 (machine (core y))"
  shows "\<exists>t. start_setup dev sl hdr y = Some (Inr (cr3_root (machine (core y)), y\<lparr>
      core := (core y)\<lparr>machine := unmap_lower_half (cr3_root (machine (core y))) s,
        screen := (fold term_putchar (setup_text (handler_at sl Example_handler_ec)) (term_clear t))
          \<lparr>ports := pic_unmask_irq dev 1 (fst (pic_init (ports (fold term_putchar (setup_text (handler_at sl Example_handler_ec)) (term_clear t)))))\<rparr>\<rparr>,
      tables := gdt_setup (tables y), vectors := fst (idt_setup (handler_at sl) (idt_at sl) (vectors y)),
      idtr := Some (4096, idt_at sl), interrupts_on := True\<rparr>))"
proof -
  let ?t = "term_enable_cursor dev ((screen (core y))\<lparr>vterm := ptov s 0xB8000\<rparr>)"
  have two: "say [(line ''Terminal initialized'', []), (line ''Setting up gdt'', [])] z
      = Inr (with_screen (fold term_putchar (line ''Terminal initialized'' @ line ''Setting up gdt'') (screen (core z))) z)" for z
    by (rule say_text) (simp add: ktext_literal)
  have one: "say [(line ''Setting up idt'', [])] z = Inr (with_screen (fold term_putchar (line ''Setting up idt'') (screen (core z))) z)"
    "say [(line ''Initializing pic'', [])] z = Inr (with_screen (fold term_putchar (line ''Initializing pic'') (screen (core z))) z)" for z
    by (rule say_text, simp add: ktext_literal)+
  have three: "say (idt_setup_report a) z = Inr (with_screen (fold term_putchar
      (line ''Setup'' @ str ''Handler: 0x'' @ numeral_text 16 (unat a) @ [0x0A]) (screen (core z))) z)" for a z
    by (rule say_text, rule idt_report_text)
  have root: "read_cr3 s AND 0xFFFFFFFFFFFFF000 = cr3_root (machine (core y))"
    using assms(2) by (simp add: read_cr3_def cr3_root_def)
  have ports: "snd (pic_init p) = True" "snd (idt_setup h b v) = (4096, b)" for p h b v
    by (simp_all add: pic_init_def idt_setup_def Let_def)
  show ?thesis
    by (rule exI [of _ ?t], simp only: start_setup_def assms(1) root one two three bindo_simps bindf_simps Let_def case_prod_beta)
      (simp add: with_machine_def with_screen_def setup_text_def term_init_def ports)
qed

subsection \<open>An integer in a mapped page\<close>

lemma store_int:
  assumes ok: "space_ok s root ps" and root: "root = cr3_root s" and va: "a < 2 ^ 47"
    and e: "lookup s root a = Some e" "pte_writable e" and off: "take_bit 12 a \<le> 4092"
  shows "\<exists>s'. kstore 4 a v s = Inr s' \<and> kload32 s' a = Inr (take_bit 32 v) \<and> page_written (pte_frame e) s s'"
proof -
  let ?b = "pte_frame e + hhdm s + take_bit 12 a"
  define good where "good m \<longleftrightarrow> page_written (pte_frame e) s (s\<lparr>mem := m\<rparr>)" for m
  have small: "take_bit 12 a + i < 4096" if "i < 4" for i using off that by unat_arith
  have res: "kresolve wr (s\<lparr>mem := m\<rparr>) (a + i) = Inr (?b + i)" if "good m" "i < 4" for wr m i
    using page_resolve [OF ok root va e that(1) [unfolded good_def] small [OF that(2)]] by simp
  have good_upd: "good (m(?b + i := c))" if "good m" "i < 4" for m i c
  proof -
    have "?b + i - (pte_frame e + hhdm s) < 4096" using small [OF that(2)] by simp
    then show ?thesis using that(1) by (auto simp: good_def page_written_def)
  qed
  have st: "kstore8 (a + i) c (s\<lparr>mem := m\<rparr>) = Inr (s\<lparr>mem := m(?b + i := c)\<rparr>)" if "good m" "i < 4" for m i c
    using res [OF that] by (simp add: kstore8_def)
  have ld: "kload8 (s\<lparr>mem := m\<rparr>) (a + i) = Inr (m (?b + i))" if "good m" "i < 4" for m i
    using res [OF that] by (simp add: kload8_def)
  define m1 where "m1 = (mem s)(?b + 0 := ucast v)"
  define m2 where "m2 = m1(?b + 1 := ucast (drop_bit 8 v))"
  define m3 where "m3 = m2(?b + 2 := ucast (drop_bit 16 v))"
  define m where "m = m3(?b + 3 := ucast (drop_bit 24 v))"
  have g0: "good (mem s)" by (simp add: good_def page_written_def)
  have g1: "good m1" unfolding m1_def by (intro good_upd g0) simp
  have g2: "good m2" unfolding m2_def by (intro good_upd g1) simp
  have g3: "good m3" unfolding m3_def by (intro good_upd g2) simp
  have g: "good m" unfolding m_def by (intro good_upd g3) simp
  have "kstore8 (a + 0) (ucast v) (s\<lparr>mem := mem s\<rparr>) = Inr (s\<lparr>mem := m1\<rparr>)" unfolding m1_def by (intro st g0) simp
  moreover have "kstore8 (a + 1) (ucast (drop_bit 8 v)) (s\<lparr>mem := m1\<rparr>) = Inr (s\<lparr>mem := m2\<rparr>)" unfolding m2_def by (intro st g1) simp
  moreover have "kstore8 (a + 2) (ucast (drop_bit 16 v)) (s\<lparr>mem := m2\<rparr>) = Inr (s\<lparr>mem := m3\<rparr>)" unfolding m3_def by (intro st g2) simp
  moreover have "kstore8 (a + 3) (ucast (drop_bit 24 v)) (s\<lparr>mem := m3\<rparr>) = Inr (s\<lparr>mem := m\<rparr>)" unfolding m_def by (intro st g3) simp
  ultimately have "kstore 4 a v s = Inr (s\<lparr>mem := m\<rparr>)"
    by (simp add: kstore_pos add.assoc drop_bit_drop_bit)
  moreover have "kload32 (s\<lparr>mem := m\<rparr>) a = Inr (take_bit 32 v)"
  proof -
    have "m (?b + 0) = ucast v" "m (?b + 1) = ucast (drop_bit 8 v)" "m (?b + 2) = ucast (drop_bit 16 v)" "m (?b + 3) = ucast (drop_bit 24 v)"
      unfolding m_def m3_def m2_def m1_def by simp_all
    moreover have "ucast (ucast v :: u8) OR push_bit 8 (ucast (ucast (drop_bit 8 v) :: u8) OR push_bit 8 (ucast (ucast (drop_bit 16 v) :: u8)
        OR push_bit 8 (ucast (ucast (drop_bit 24 v) :: u8)))) = take_bit 32 v"
      by (rule bit_word_eqI) (auto simp: bits less_diff_conv2 not_less, (metis le_add_diff_inverse not_less)+)
    ultimately show ?thesis
      using ld [OF g, of 0] ld [OF g, of 1] ld [OF g, of 2] ld [OF g, of 3] by (simp add: kload_pos add.assoc)
  qed
  ultimately show ?thesis using g by (auto simp: good_def)
qed

subsection \<open>Properties\<close>

text \<open>
  C19: the boot up to the interrupt controller, from a memory map whose usable regions are of at most 2 GiB
  each and do not overlap, and page tables of the bootloader that identity-map the usable pages: it ends;
  the free list is built of exactly the usable pages before the lower half of the address space is torn down, after which no user address above the first 512 GiB is mapped; the screen
  shows the lines the boot prints and nothing else; every vector is dispatched to its handler; the
  descriptor tables are loaded; interrupts are on, and of the sixteen IRQs only the keyboard's is not
  masked; no key has been taken.
\<close>

theorem start_setup_ready:
  assumes info: "boot_info (machine (core y)) hdr h rs" "free_list (machine (core y)) = 0"
    and boot: "vectors y = idt_boot" "gdt_size (tables y) = 0" "reads_mask dev"
  shows "\<exists>s root z. root = cr3_root (machine (core y)) \<and> start_setup dev sl hdr y = Some (Inr (root, z))
    \<and> pool s (rev (concat (map region_pages rs))) \<and> (\<forall>p. p \<in> set (concat (map region_pages rs)) \<longleftrightarrow> usable_page rs p)
    \<and> hhdm s = h \<and> machine (core z) = unmap_lower_half root s
    \<and> (\<forall>va. 0x8000000000 \<le> va \<longrightarrow> va < 0x800000000000 \<longrightarrow> walk (machine (core z)) root va = None)
    \<and> displays (screen (core z)) (foldl type_char [[]] (setup_text (handler_at sl Example_handler_ec)))
    \<and> (\<forall>v < 256. case vector_handler v of None \<Rightarrow> \<not> present (vectors z ! v)
        | Some f \<Rightarrow> gate (handler_at sl f) (if v = 3 \<or> v = 4 \<or> v = 0x80 then 0xF else 0xE) (vectors z ! v))
    \<and> idtr z = Some (4096, idt_at sl) \<and> gdtr (tables z) = Some (87, gdt (tables y)) \<and> tr (tables z) = Some TSS_SELECTOR
    \<and> interrupts_on z \<and> (\<forall>n < 16. masked (ports (screen (core z))) n \<longleftrightarrow> n \<noteq> 1) \<and> kbd (core z) = kbd (core y)"
proof -
  let ?root = "cr3_root (machine (core y))" and ?a = "handler_at sl Example_handler_ec"
  obtain s where s: "init_list hdr (machine (core y)) = Some (Inr s)" "hhdm s = h" "cr3 s = cr3 (machine (core y))"
    "pool s (rev (concat (map region_pages rs)))"
    using init_list_pool [OF info] by blast
  obtain t where t: "start_setup dev sl hdr y = Some (Inr (?root, y\<lparr>
      core := (core y)\<lparr>machine := unmap_lower_half ?root s, screen := (fold term_putchar (setup_text ?a) (term_clear t))
          \<lparr>ports := pic_unmask_irq dev 1 (fst (pic_init (ports (fold term_putchar (setup_text ?a) (term_clear t)))))\<rparr>\<rparr>,
      tables := gdt_setup (tables y), vectors := fst (idt_setup (handler_at sl) (idt_at sl) (vectors y)),
      idtr := Some (4096, idt_at sl), interrupts_on := True\<rparr>))" (is "_ = Some (Inr (_, ?z))")
    using start_setup_runs [OF s(1,3)] by blast
  define z where "z = ?z"
  define p where "p = ports (fold term_putchar (setup_text ?a) (term_clear t))"
  have z: "machine (core z) = unmap_lower_half ?root s" "kbd (core z) = kbd (core y)" "tables z = gdt_setup (tables y)"
    "vectors z = fst (idt_setup (handler_at sl) (idt_at sl) (vectors y))" "idtr z = Some (4096, idt_at sl)" "interrupts_on z"
    "ports (screen (core z)) = pic_unmask_irq dev 1 (fst (pic_init p))"
    by (simp_all add: z_def p_def)
  have "displays (fold term_putchar (setup_text ?a) (term_clear t)) (foldl type_char [[]] (setup_text ?a))"
    by (rule displays_text [OF displays_clear setup_text_no_return])
  then have shown: "displays (screen (core z)) (foldl type_char [[]] (setup_text ?a))"
    by (simp add: z_def)
  have root: "page_aligned ?root"
    unfolding page_aligned_def cr3_root_def by (rule bit_word_eqI) (simp only: bit_and_iff bit_page_mask bit_take_bit_iff, auto)
  have h: "page_aligned (hhdm s)" using s(4) by (simp add: pool_def hhdm_ok_def)
  have masks: "masked (pic_unmask_irq dev 1 (fst (pic_init p))) n \<longleftrightarrow> n \<noteq> 1" if "n < 16" for n
  proof -
    have "written (fst (pic_init p)) PIC1_DATA \<noteq> None" "written (fst (pic_init p)) PIC2_DATA \<noteq> None"
      by (simp_all add: pic_init_def Let_def io_wait_def)
    from masked_update(1) [OF boot(3) this, of 1 n] masked_init [OF that] that show ?thesis by simp
  qed
  have gates: "case vector_handler v of None \<Rightarrow> \<not> present (vectors z ! v)
        | Some g \<Rightarrow> gate (handler_at sl g) (if v = 3 \<or> v = 4 \<or> v = 0x80 then 0xF else 0xE) (vectors z ! v)"
    if "v < 256" for v
    using idt_setup_table [of "handler_at sl" "idt_at sl"] that
    by (cases "vector_handler v") (auto simp: z boot holds_gates_def idt_table_handlers idt_boot_def no_entry_def Let_def)
  have unmapped: "walk (machine (core z)) ?root va = None" if "0x8000000000 \<le> va" "va < 0x800000000000" for va
    unfolding z by (rule unmap_lower_half_clears [OF root h that])
  have desc: "gdtr (tables z) = Some (87, gdt (tables y))" "tr (tables z) = Some TSS_SELECTOR"
    unfolding z using gdt_setup_rest(3,4) [of "tables y"] boot(2) by simp_all
  have usable: "\<forall>p. p \<in> set (concat (map region_pages rs)) \<longleftrightarrow> usable_page rs p"
    using region_pages_usable by blast
  show ?thesis
    using t s(2,4) usable z(1,2,5,6) shown masks gates unmapped desc unfolding z_def [symmetric] z(7) [symmetric] by blast
qed

text \<open>A boot to run: the machine of \<open>Boot\<close>, and places for the kernel's own data.\<close>

definition sample_start :: start_links where
  "sample_start = \<lparr>debugger = \<lparr>lit_print = 0, lit_stack = 0, lit_string = 0, lit_continue = 0, line_buf = 0, dummy = 0\<rparr>,
     handler_at = (\<lambda>h. if h = Segfault then 0xFFFFFFFF80205678 else 0xFFFFFFFF80200000), idt_at = 0xFFFFFFFF80300000,
     test_global = 0, test_global_name = 0, test_string = 0, frame_i = 0xFFFF800000001FFE, init_literal = 0, hello_literal = 0,
     read_buf = 0, copy_array = 0\<rparr>"

definition sample_system :: system where
  "sample_system = \<lparr>core = \<lparr>machine = boot_state, screen = blank_term, kbd = kbd_boot\<rparr>, tables = sample_gdt, vectors = idt_boot,
     idtr = None, interrupts_on = False, header = 0, hhdm_addr = 0, syms = no_symbols, term_write = 0\<rparr>"

lemma start_setup_ready_witness:
  "\<exists>root z. start_setup imr_device sample_start 0xffffffff80000000 sample_system = Some (Inr (root, z))
    \<and> walk (machine (core z)) root 0x70000000000 = None \<and> gate 0xFFFFFFFF80205678 0xE (vectors z ! 14)
    \<and> \<not> masked (ports (screen (core z))) 1 \<and> masked (ports (screen (core z))) 0"
proof -
  have "boot_info (machine (core sample_system)) 0xffffffff80000000 0xffff800000000000 [(0x100000, 0x2000, 1), (0xB8000, 0x1000, 2)]"
    "free_list (machine (core sample_system)) = 0" "vectors sample_system = idt_boot" "gdt_size (tables sample_system) = 0"
    using boot_info_sample by (simp_all add: sample_system_def boot_state_def sample_gdt_def)
  moreover have "reads_mask imr_device" by (auto simp: reads_mask_def imr_device_def)
  ultimately obtain root z where z: "start_setup imr_device sample_start 0xffffffff80000000 sample_system = Some (Inr (root, z))"
    "\<forall>va. 0x8000000000 \<le> va \<longrightarrow> va < 0x800000000000 \<longrightarrow> walk (machine (core z)) root va = None"
    "\<forall>v < 256. case vector_handler v of None \<Rightarrow> \<not> present (vectors z ! v)
        | Some f \<Rightarrow> gate (handler_at sample_start f) (if v = 3 \<or> v = 4 \<or> v = 0x80 then 0xF else 0xE) (vectors z ! v)"
    "\<forall>n < 16. masked (ports (screen (core z))) n \<longleftrightarrow> n \<noteq> 1"
    using start_setup_ready [of sample_system "0xffffffff80000000" "0xffff800000000000" "[(0x100000, 0x2000, 1), (0xB8000, 0x1000, 2)]" imr_device sample_start]
    by blast
  have "gate 0xFFFFFFFF80205678 0xE (vectors z ! 14)"
    using z(3) [rule_format, of 14] by (simp add: vector_handler_def sample_start_def)
  then show ?thesis using z by auto
qed

text \<open>The three reports of the test.\<close>

lemma page_reports:
  "say [(line ''i: %p'', [WordArg a])] y = Inr (with_screen (fold term_putchar (str ''i: 0x'' @ numeral_text 16 (unat a) @ [0x0A]) (screen (core y))) y)"
  "say [(line ''Stored %d at %p'', [WordArg 123, WordArg 0x501040200])] y
      = Inr (with_screen (fold term_putchar (line ''Stored 123 at 0x501040200'') (screen (core y))) y)"
  "say [(line ''vm_map failed with an error'', [])] y
      = Inr (with_screen (fold term_putchar (line ''vm_map failed with an error'') (screen (core y))) y)"
  by (rule say_text, simp add: ktext_conv ktext_Cons ktext_Nil conversions_def)
    (rule say_text, simp add: ktext_conv ktext_Cons ktext_Nil conversions_def int_arg_def numeral_text_def digits.simps digit_char_def,
     rule say_text, simp add: ktext_literal)

text \<open>
  C20: the test of the memory manager in \<open>_start\<close>. In a well-formed address space with free frames for
  the page and its tables, the page of address \<open>0x501040200\<close> gets mapped where it was not, for the user,
  writable and executable; 123 is stored there and read back; the screen shows the line with the number and the address;
  the space stays well formed and no other page changes. Where the page was mapped already the code
  reports a failure and leaves the memory as it was.
\<close>

theorem start_page_maps:
  assumes ok: "space_ok (machine (core y)) root ps" "root = cr3_root (machine (core y))" "4 \<le> length ps"
  shows "\<exists>z qs. start_page sl root y = Inr z \<and> space_ok (machine (core z)) root qs
    \<and> (if walk (machine (core y)) root 0x501040200 = None
       then screen (core z) = fold term_putchar (str ''i: 0x'' @ numeral_text 16 (unat (frame_i sl)) @ [0x0A]
              @ line ''Stored 123 at 0x501040200'') (screen (core y))
         \<and> (\<exists>p. walk (machine (core z)) root 0x501040200 = Some (p, all_rights))
         \<and> kload32 (machine (core z)) 0x501040200 = Inr 123
         \<and> (\<forall>va < 2 ^ 47. drop_bit 12 va \<noteq> 0x501040 \<longrightarrow> walk (machine (core z)) root va = walk (machine (core y)) root va)
       else screen (core z) = fold term_putchar (str ''i: 0x'' @ numeral_text 16 (unat (frame_i sl)) @ [0x0A]
              @ line ''vm_map failed with an error'') (screen (core y)) \<and> machine (core z) = machine (core y))"
proof -
  let ?p = "0x501040200 :: u64" and ?s = "machine (core y)"
  have va: "?p < 2 ^ 47" by simp
  have page: "drop_bit 12 ?p = 0x501040" "take_bit 12 ?p = 0x200" by (simp_all add: drop_bit_eq_div take_bit_eq_mod)
  have kept: "machine (w\<lparr>screen := t\<rparr>) = machine w" "screen (w\<lparr>machine := s\<rparr>) = screen w" for w t s by simp_all
  show ?thesis
  proof (cases "walk ?s root ?p = None")
    case False
    then have "vm_map root ?p True True True ?s = Inr (False, ?s)"
      using vm_map_spec [OF ok(1) va ok(3), of True True True] walk_lookup [OF ok(1) va] by (simp split: option.splits)
    then have "start_page sl root y = Inr (with_screen (fold term_putchar (line ''vm_map failed with an error'')
        (fold term_putchar (str ''i: 0x'' @ numeral_text 16 (unat (frame_i sl)) @ [0x0A]) (screen (core y)))) (with_machine ?s y))"
      by (simp only: start_page_def page_reports bindf_simps Let_def prod.case with_simps if_False) (simp add: with_machine_def with_screen_def)
    then show ?thesis using False ok(1) by (auto simp: fold_append)
  next
    case True
    then have "lookup ?s root ?p = None" using walk_lookup [OF ok(1) va] by (simp split: option.splits)
    then obtain s1 k where s1: "vm_map root ?p True True True ?s = Inr (True, s1)" "k < 4" "space_ok s1 root (drop (Suc k) ps)"
      "same_rest ?s s1" "maps_page ?s root ?p True True True (ps ! k) s1"
      using vm_map_spec [OF ok(1) va ok(3), of True True True] by auto
    obtain e where e: "lookup s1 root ?p = Some e" "rights_of e = \<lparr>may_user = True, may_write = True, may_exec = True\<rparr>"
      using s1(5) va by (auto simp: maps_page_def)
    have root: "root = cr3_root s1" using s1(4) ok(2) by (simp add: same_rest_def cr3_root_def)
    obtain s2 where s2: "kstore 4 ?p 123 s1 = Inr s2" "kload32 s2 ?p = Inr (take_bit 32 123)" "page_written (pte_frame e) s1 s2"
      using store_int [OF s1(3) root va e(1), of 123] e(2) page by (auto simp: rights_of_def)
    have leaf: "table s1 root (path ?p) = Some (pte_frame e)" by (simp add: table_path_lookup e)
    have p4: "length (path ?p) = 4" by (simp add: path_def upper_def)
    note w = page_written_ok [OF s1(3) upath_path [OF va] p4 leaf s2(3)]
    have ld: "kload32 s2 ?p = Inr 123" using s2(2) by (simp add: take_bit_eq_mod)
    have run: "start_page sl root y = Inr (with_screen (fold term_putchar (line ''Stored 123 at 0x501040200'')
        (fold term_putchar (str ''i: 0x'' @ numeral_text 16 (unat (frame_i sl)) @ [0x0A]) (screen (core y)))) (with_machine s2 y))"
      by (simp only: start_page_def page_reports bindf_simps Let_def prod.case with_simps kept s1(1) s2(1) ld if_True)
        (simp add: with_machine_def with_screen_def)
    note m = maps_page_walk [OF ok(1) s1(3,5) va]
    have "walk s2 root va = walk ?s root va" if "va < 2 ^ 47" "drop_bit 12 va \<noteq> 0x501040" for va
      using w(3) [OF that(1)] m [OF that(1)] that(2) page by simp
    moreover have "walk s2 root ?p = Some (ps ! k + 0x200, all_rights)"
      using w(3) [OF va] m [OF va] page by (simp add: all_rights_def)
    ultimately show ?thesis using True run w(1) ld by (auto simp: fold_append)
  qed
qed

lemma start_page_maps_witness:
  "\<exists>z. start_page sample_start 0x1000 (with_machine sample sample_system) = Inr z \<and> kload32 (machine (core z)) 0x501040200 = Inr 123"
proof -
  have ok: "space_ok (machine (core (with_machine sample sample_system))) 0x1000 sample_frames"
    "0x1000 = cr3_root (machine (core (with_machine sample sample_system)))" "4 \<le> length sample_frames"
    using sample_space by (simp_all add: cr3_root_def sample_def sample_frames_def)
  have none: "walk (machine (core (with_machine sample sample_system))) 0x1000 0x501040200 = None"
    using sample_walk by simp
  from start_page_maps [OF ok, of sample_start] show ?thesis
    unfolding if_P [OF none] by blast
qed

end
