(* ===== verification/Programs.thy ===== *)
theory Programs
  imports Myio Symbols User_Calls
begin

text \<open>
  The programs of the repository (\<open>init/init.c\<close>, \<open>shell/shell.c\<close>, \<open>echo/echo.c\<close>, \<open>hello/hello.c\<close>,
  \<open>test/test.c\<close>) and \<open>stdlib/sys.c\<close>, over the models of the user library and of the system calls. A
  program ends in the user mode of another one, whose entry point \<open>exec\<close> found; a \<open>_start\<close> that returns
  has no caller and is undefined. \<open>places\<close> are the addresses of the variables in the frames of the
  program: \<open>char_at\<close> of the single characters, \<open>page_at\<close> of \<open>mmap\<close>, \<open>exit_at\<close> of \<open>my_exit\<close>; \<open>junk_line\<close>
  is what the caller of \<open>getline\<close> finds where that ends without a \<open>return\<close>.
\<close>

record places =
  char_at :: u64
  page_at :: u64
  exit_at :: u64
  junk_line :: u64

primrec store_string :: "u64 \<Rightarrow> u8 list \<Rightarrow> kstate \<Rightarrow> fault + kstate" where
  "store_string a [] s = Inr s"
| "store_string a (c # cs) s = bindf (kstore8 a c s) (store_string (a + 1) cs)"

subsection \<open>sys.c\<close>

text \<open>The call number 3 looks at its first argument only.\<close>

definition exec :: "links \<Rightarrow> u64 \<Rightarrow> world \<Rightarrow> fault + (outcome \<times> world)" where
  "exec lk name w = syscall_handler lk 3 name 0 0 w"

definition my_exit :: "links \<Rightarrow> places \<Rightarrow> world \<Rightarrow> fault + (outcome \<times> world)" where
  "my_exit lk pl w =
     bindf (store_string (exit_at pl) (str ''init'' @ [0]) (machine w)) (\<lambda>s.
     exec lk (exit_at pl) (w\<lparr>machine := s\<rparr>))"

text \<open>The end of a \<open>_start\<close> after its last call.\<close>

definition at_end :: "fault + (outcome \<times> world) \<Rightarrow> fault + (outcome \<times> world)" where
  "at_end r = bindf r (\<lambda>(res, w). case res of Return v \<Rightarrow> Inl Undefined | EnterUser a b c d \<Rightarrow> Inr (res, w))"

abbreviation (input) uprint :: "links \<Rightarrow> places \<Rightarrow> u8 list \<Rightarrow> vararg list \<Rightarrow> world \<Rightarrow> fault + world" where
  "uprint lk pl \<equiv> printf lk (char_at pl)"

abbreviation (input) ugetline :: "links \<Rightarrow> places \<Rightarrow> heap \<Rightarrow> world \<Rightarrow> fault + (u64 \<times> heap \<times> world)" where
  "ugetline lk pl \<equiv> getline lk (page_at pl) (char_at pl) (junk_line pl)"

subsection \<open>hello.c, echo.c and init.c\<close>

definition hello_start :: "links \<Rightarrow> places \<Rightarrow> world \<Rightarrow> fault + (outcome \<times> world)" where
  "hello_start lk pl w =
     bindf (uprint lk pl (line ''Hello world!'') [] w) (\<lambda>w.
     bindf (uprint lk pl (line ''This has been hello world'') [] w) (\<lambda>w.
     at_end (my_exit lk pl w)))"

definition echo_start :: "links \<Rightarrow> places \<Rightarrow> heap \<Rightarrow> world \<Rightarrow> fault + (outcome \<times> world)" where
  "echo_start lk pl h w =
     bindf (uprint lk pl (str ''I'' @ [0x27] @ line ''ll echo what you type:'') [] w) (\<lambda>w.
     bindf (ugetline lk pl h w) (\<lambda>(ln, h, w).
     bindf (kstring (machine w) ln 0) (\<lambda>cs.
     bindf (uprint lk pl (str ''%s'') [StrArg cs] w) (\<lambda>w.
     at_end (my_exit lk pl w)))))"

text \<open>
  \<open>name\<close> is the literal \<open>"shell"\<close>, \<open>buf\<close> an array of 20 bytes that \<open>strcpy\<close> fills and nothing reads.
  Where \<open>exec\<close> returns, the program spins for ever: \<open>Halted\<close>.
\<close>

definition init_start :: "links \<Rightarrow> u64 \<Rightarrow> u64 \<Rightarrow> world \<Rightarrow> fault + (outcome \<times> world)" where
  "init_start lk name buf w =
     bindf (copy_loop buf name 0 (machine w)) (\<lambda>(i, s).
     bindf (if i + 1 < 20 then kstore8 (buf + of_nat (i + 1)) 0 s else Inl Undefined) (\<lambda>s.
     bindf (exec lk name (w\<lparr>machine := s\<rparr>)) (\<lambda>(res, w).
     case res of Return v \<Rightarrow> Inl Halted | EnterUser a b c d \<Rightarrow> Inr (res, w))))"

subsection \<open>test.c\<close>

text \<open>
  The program stores to pages it may not be allowed to write, so these stores are made as the processor
  makes them in user mode: the page must be open to the user and writable.
\<close>

primrec ustore_string :: "u64 \<Rightarrow> u8 list \<Rightarrow> kstate \<Rightarrow> fault + kstate" where
  "ustore_string a [] s = Inr s"
| "ustore_string a (c # cs) s = bindf (ustore8 a c s) (ustore_string (a + 1) cs)"

definition test_page_write :: "links \<Rightarrow> u64 \<Rightarrow> world \<Rightarrow> fault + world" where
  "test_page_write lk test_page w =
     bindf (ustore_string test_page (line ''hello'') (machine w)) (\<lambda>s. my_write lk 1 test_page 6 (w\<lparr>machine := s\<rparr>))"

text \<open>\<open>greeting\<close> is the address of the literal, \<open>buf\<close> the array of six characters.\<close>

definition test_start :: "links \<Rightarrow> places \<Rightarrow> u64 \<Rightarrow> u64 \<Rightarrow> heap \<Rightarrow> world \<Rightarrow> fault + (outcome \<times> world)" where
  "test_start lk pl greeting buf h w =
     bindf (uprint lk pl (line ''String: %s Int: %d Char: %c Hex: %x Pointer: %p'')
       [StrArg (str ''heya''), WordArg 10, WordArg (ucast (chr CHR ''a'')), WordArg 10, WordArg greeting] w) (\<lambda>w.
     bindf (uprint lk pl (str ''Now we'' @ [0x27] @ str ''ll read in your next five characters: '') [] w) (\<lambda>w.
     bindf (my_read lk 0 buf 5 w) (\<lambda>w.
     bindf (kstore8 (buf + 5) 0 (machine w)) (\<lambda>s.
     bindf (kstring s buf 0) (\<lambda>cs.
     bindf (uprint lk pl ([0x0A] @ line ''You said: %s'') [StrArg cs] (w\<lparr>machine := s\<rparr>)) (\<lambda>w.
     bindf (uprint lk pl (line ''Now enter another line'') [] w) (\<lambda>w.
     bindf (ugetline lk pl h w) (\<lambda>(ln, h, w).
     bindf (kstring (machine w) ln 0) (\<lambda>cs.
     bindf (uprint lk pl (str ''Your line: %s'') [StrArg cs] w) (\<lambda>w.
     bindf (uprint lk pl (str ''We will now crash to demonstrate we'' @ [0x27] @ line ''re in user mode'') [] w) (\<lambda>w.
     bindf (uprint lk pl (line ''First a message written to a test page mapped to be executable'') [] w) (\<lambda>w.
     bindf (test_page_write lk 0x400000000 w) (\<lambda>w.
     bindf (uprint lk pl (line ''Now a message written to a test page mapped to be nonwritable'') [] w) (\<lambda>w.
     bindf (test_page_write lk 0x400001800 w) (\<lambda>w.
     at_end (my_exit lk pl w))))))))))))))))"

subsection \<open>shell.c\<close>

definition shell_round :: "links \<Rightarrow> places \<Rightarrow> heap \<Rightarrow> world \<Rightarrow> fault + (outcome \<times> heap \<times> world)" where
  "shell_round lk pl h w =
     bindf (uprint lk pl (str ''>> '') [] w) (\<lambda>w.
     bindf (ugetline lk pl h w) (\<lambda>(ln, h, w).
     bindf (kstrlen (machine w) ln) (\<lambda>n.
     bindf (kstore8 (ln + of_nat n - 2) 0 (machine w)) (\<lambda>s.
     bindf (exec lk ln (w\<lparr>machine := s\<rparr>)) (\<lambda>(res, w).
       case res of
         EnterUser a b c d \<Rightarrow> Inr (res, h, w)
       | Return v \<Rightarrow>
           if (ucast v :: u32) = - 1
           then bindf (kstring (machine w) ln 0) (\<lambda>cs.
                bindf (uprint lk pl (str ''Couldn'' @ [0x27] @ line ''t find %s'') [StrArg cs] w) (\<lambda>w. Inr (res, h, w)))
           else Inr (res, h, w))))))"

text \<open>Every round takes a key, so the loop ends in another program or waits for one.\<close>

lemma write_loop_keys: "write_loop buf n i w = Inr w' \<Longrightarrow> kbd w' = kbd w"
proof (induction buf n i w rule: write_loop.induct)
  case (1 buf n i w)
  then show ?case by (subst (asm) (2) write_loop.simps) (fastforce simp: bindf_Inr split: if_splits)
qed

lemma read_loop_keys: "read_loop buf n i w = Inr w' \<Longrightarrow> keys_left w' \<le> keys_left w"
proof (induction buf n i w rule: read_loop.induct)
  case (1 buf n i w)
  then show ?case
    by (subst (asm) (2) read_loop.simps) (fastforce simp: bindf_Inr keys_left_def Let_def split: if_splits dest: kgetc_avail)
qed

lemma read_one_keys: "my_read lk 0 buf 1 w = Inr w' \<Longrightarrow> keys_left w' < keys_left w"
  by (auto simp: my_read_def syscall_handler_def syscall_read_def bindf_Inr read_loop.simps [of buf 1 0 w] Let_def keys_left_def
      split: if_splits dest!: read_loop_keys [unfolded keys_left_def] kgetc_avail)

lemma my_write_keys: "my_write lk fp buf n w = Inr w' \<Longrightarrow> kbd w' = kbd w"
  by (auto simp: my_write_def syscall_handler_def syscall_write_def bindf_Inr split: if_splits dest: write_loop_keys)

lemma print_c_keys: "print_c lk a c w = Inr w' \<Longrightarrow> kbd w' = kbd w"
  by (auto simp: print_c_def bindf_Inr dest: my_write_keys)

lemma print_k_keys: "fold (print_k lk a) cs r = Inr w' \<Longrightarrow> \<exists>w. r = Inr w \<and> kbd w' = kbd w"
proof (induction cs arbitrary: r)
  case (Cons c cs)
  obtain v where v: "print_k lk a c r = Inr v" "kbd w' = kbd v" using Cons.IH [of "print_k lk a c r"] Cons.prems by auto
  then obtain u where "r = Inr u" "print_c lk a c u = Inr v" by (auto simp: print_k_def bindf_Inr)
  then show ?case using v(2) print_c_keys by metis
qed simp

lemma printf_keys: "printf lk a format args w = Inr w' \<Longrightarrow> kbd w' = kbd w"
  by (auto simp: printf_def joinf_def format_loop_text bindf_Inr split: option.splits dest: print_k_keys)

lemma sys_mmap_keys: "mmap lk p w = Inr (v, w') \<Longrightarrow> kbd w' = kbd w"
  by (auto simp: mmap_def syscall_handler_def bindf_Inr outcome_Inr)

lemma malloc_keys: "malloc (mmap lk p) sz h w = Inr (a, h', w') \<Longrightarrow> kbd w' = kbd w"
  by (auto simp: malloc_def Let_def bindf_Inr split: if_splits prod.splits dest: sys_mmap_keys)

lemma getline_loop_keys: "getline_loop lk a junk p i w = Inr (q, w') \<Longrightarrow> keys_left w' \<le> keys_left w \<and> (i < 254 \<longrightarrow> keys_left w' < keys_left w)"
proof (induction lk a junk p i w rule: getline_loop.induct)
  case (1 lk a junk p i w)
  then show ?case
    by (subst (asm) (2) getline_loop.simps)
      (fastforce simp: bindf_Inr keys_left_def split: if_splits dest: read_one_keys [unfolded keys_left_def] printf_keys)
qed

lemma getline_keys: "getline lk v a junk h w = Inr (p, h', w') \<Longrightarrow> keys_left w' < keys_left w"
  by (auto simp: getline_def bindf_Inr keys_left_def dest!: malloc_keys getline_loop_keys [unfolded keys_left_def])

lemma run_init_keys: "run_init lk s w = Inr (r, w') \<Longrightarrow> kbd w' = kbd w"
  by (auto simp: run_init_def bindf_Inr)

lemma exec_keys: "exec lk a w = Inr (r, w') \<Longrightarrow> kbd w' = kbd w"
  by (auto simp: exec_def syscall_handler_def sys_exec_def bindf_Inr Let_def exec_result_Inr split: if_splits dest!: run_init_keys)

lemma shell_round_keys: "shell_round lk pl h w = Inr (res, h', w') \<Longrightarrow> keys_left w' < keys_left w"
  by (auto simp: shell_round_def bindf_Inr keys_left_def outcome_Inr split: if_splits
      dest!: printf_keys exec_keys getline_keys [unfolded keys_left_def])

function shell :: "links \<Rightarrow> places \<Rightarrow> heap \<Rightarrow> world \<Rightarrow> fault + (outcome \<times> world)" where
  "shell lk pl h w =
     bindf (shell_round lk pl h w) (\<lambda>(res, h, w).
       case res of EnterUser a b c d \<Rightarrow> Inr (res, w) | Return v \<Rightarrow> shell lk pl h w)"
  by pat_completeness auto
termination
  by (relation "measure (\<lambda>(lk, pl, h, w). keys_left w)") (auto dest: shell_round_keys)

declare shell.simps [simp del]

subsection \<open>Bytes of the program\<close>

text \<open>In a well-formed space two addresses that are mapped to the same place are the same.\<close>

lemma walk_inj:
  assumes ok: "space_ok s root ps" and a: "a < 2 ^ 47" "walk s root a = Some (p, r)" and b: "b < 2 ^ 47" "walk s root b = Some (p, r')"
  shows "a = b"
proof -
  obtain e where e: "lookup s root a = Some e" "p = pte_frame e + take_bit 12 a"
    using a by (auto simp: walk_lookup [OF ok a(1)] split: option.splits)
  obtain f where f: "lookup s root b = Some f" "p = pte_frame f + take_bit 12 b"
    using b by (auto simp: walk_lookup [OF ok b(1)] split: option.splits)
  have off: "take_bit 12 x < (4096 :: u64)" for x by (simp add: take_bit_eq_mod word_mod_less_divisor)
  have "take_bit 12 (pte_frame g + take_bit 12 x) = take_bit 12 x" for g x
    using aligned_add(2) [OF page_aligned_pte_frame off] by simp
  then have low: "take_bit 12 a = take_bit 12 b" using e(2) f(2) by metis
  then have "pte_frame e = pte_frame f" using e(2) f(2) by simp
  then have "path a = path b"
    using space_okD(5) [OF ok upath_path [OF a(1)] upath_path [OF b(1)]] e(1) f(1) by (simp add: table_path_lookup)
  moreover have "a < 2 ^ 48" "b < 2 ^ 48" using a(1) b(1) by (auto elim: less_trans)
  ultimately have "drop_bit 12 a = drop_bit 12 b" using path_eq_iff by blast
  then show "a = b" using low by (metis bits_ident)
qed

definition user_ok :: "world \<Rightarrow> bool" where
  "user_ok w \<longleftrightarrow> (\<exists>ps. space_ok (machine w) (cr3 (machine w)) ps)"

definition ubyte :: "world \<Rightarrow> u64 \<Rightarrow> fault + u8" where
  "ubyte w a = kload8 (machine w) a"

text \<open>The same pages are mapped with the same rights, and the same pages are free.\<close>

definition same_pages :: "world \<Rightarrow> world \<Rightarrow> bool" where
  "same_pages w w' \<longleftrightarrow> user_ok w' \<and> cr3 (machine w') = cr3 (machine w)
     \<and> (\<forall>ps. space_ok (machine w) (cr3 (machine w)) ps \<longrightarrow> space_ok (machine w') (cr3 (machine w)) ps)
     \<and> (\<forall>va < 2 ^ 47. walk (machine w') (cr3 (machine w)) va = walk (machine w) (cr3 (machine w)) va)"

lemma same_pages_trans: "same_pages w w' \<Longrightarrow> same_pages w' w'' \<Longrightarrow> same_pages w w''"
  by (simp add: same_pages_def)

lemma same_pages_writes: "same_pages w w' \<Longrightarrow> user_writes w a \<Longrightarrow> user_writes w' a"
  by (auto simp: same_pages_def user_writes_def)

lemma user_store:
  assumes "user_ok w" "user_writes w a"
  shows "\<exists>s. kstore8 a c (machine w) = Inr s \<and> v_heap s = v_heap (machine w) \<and> same_pages w (w\<lparr>machine := s\<rparr>)
    \<and> (\<forall>b < 2 ^ 47. kload8 s b = (if b = a then Inr c else ubyte w b))"
proof -
  let ?s = "machine w"
  obtain ps where ok: "space_ok ?s (cr3 ?s) ps" using assms(1) by (auto simp: user_ok_def)
  obtain p r where a: "a < 2 ^ 47" "walk ?s (cr3 ?s) a = Some (p, r)" "may_write r"
    using assms(2) by (auto simp: user_writes_def)
  obtain s where s: "kstore8 a c ?s = Inr s" "space_ok s (cr3 ?s) ps" "cr3 s = cr3 ?s" "v_heap s = v_heap ?s"
    "\<And>va. va < 2 ^ 47 \<Longrightarrow> walk s (cr3 ?s) va = walk ?s (cr3 ?s) va"
    using store_byte [OF ok a] by blast
  have rt: "cr3_root ?s = cr3 ?s" "cr3_root s = cr3 ?s"
    using cr3_root_aligned [OF ok] s(3) by (simp_all add: cr3_root_def)
  have low: "\<not> 0xffff800000000000 \<le> b" "b < 0x800000000000" if "b < 2 ^ 47" for b :: u64 using that by unat_arith+
  have m: "s = ?s\<lparr>mem := (mem ?s)(p + hhdm ?s := c)\<rparr>"
    using s(1) a low [OF a(1)] rt by (simp add: kstore8_def kresolve_def)
  have "kload8 s b = (if b = a then Inr c else ubyte w b)" if b: "b < 2 ^ 47" for b
  proof (cases "walk ?s (cr3 ?s) b")
    case None
    then have "b \<noteq> a" using a(2) by auto
    then show ?thesis using None s(5) [OF b] low [OF b] rt by (simp add: ubyte_def kload8_def kresolve_def)
  next
    case (Some qr)
    obtain q r' where qr: "qr = (q, r')" by (cases qr)
    have "q = p \<longleftrightarrow> b = a" using walk_inj [OF ok b Some [unfolded qr] a(1)] a(2) Some qr by auto
    moreover have "kload8 s b = Inr (mem s (q + hhdm s))" "ubyte w b = Inr (mem ?s (q + hhdm ?s))"
      using Some s(5) [OF b] low [OF b] rt by (simp_all add: ubyte_def kload8_def kresolve_def qr)
    ultimately show ?thesis by (simp add: m)
  qed
  moreover have "space_ok s (cr3 ?s) qs" if qs: "space_ok ?s (cr3 ?s) qs" for qs
    using store_byte [OF qs a] s(1) by (metis Inr_inject)
  then have "same_pages w (w\<lparr>machine := s\<rparr>)" using s by (auto simp: same_pages_def user_ok_def)
  ultimately show ?thesis using s(1,4) by blast
qed

subsection \<open>Characters in and out\<close>

lemma print_c_bytes:
  assumes "user_ok w" "user_writes w a"
  shows "\<exists>w'. print_c lk a c w = Inr w' \<and> screen w' = term_putchar c (screen w) \<and> kbd w' = kbd w
    \<and> v_heap (machine w') = v_heap (machine w) \<and> same_pages w w' \<and> (\<forall>b < 2 ^ 47. b \<noteq> a \<longrightarrow> ubyte w' b = ubyte w b)"
proof -
  obtain s where s: "kstore8 a c (machine w) = Inr s" "v_heap s = v_heap (machine w)" "same_pages w (w\<lparr>machine := s\<rparr>)"
    "\<forall>b < 2 ^ 47. kload8 s b = (if b = a then Inr c else ubyte w b)"
    using user_store [OF assms] by blast
  have "readable (machine (w\<lparr>machine := s\<rparr>)) a [c]" using s(4) assms(2) by (simp add: readable_def user_writes_def)
  from write_loop_puts [OF this, of 0]
  have "print_c lk a c w = Inr (w\<lparr>machine := s, screen := term_putchar c (screen w)\<rparr>)"
    by (simp add: print_c_def s(1) my_write_def syscall_handler_def syscall_write_def)
  then show ?thesis using s by (auto simp: same_pages_def user_ok_def ubyte_def)
qed

lemma print_text_bytes:
  assumes "user_ok w" "user_writes w a"
  shows "\<exists>w'. fold (print_k lk a) cs (Inr w) = Inr w' \<and> screen w' = fold term_putchar cs (screen w) \<and> kbd w' = kbd w
    \<and> v_heap (machine w') = v_heap (machine w) \<and> (cs \<noteq> [] \<longrightarrow> same_pages w w') \<and> (cs = [] \<longrightarrow> w' = w)
    \<and> (\<forall>b < 2 ^ 47. b \<noteq> a \<longrightarrow> ubyte w' b = ubyte w b)"
  using assms
proof (induction cs arbitrary: w)
  case (Cons c cs)
  obtain w1 where w1: "print_c lk a c w = Inr w1" "screen w1 = term_putchar c (screen w)" "kbd w1 = kbd w"
    "v_heap (machine w1) = v_heap (machine w)" "same_pages w w1" "\<forall>b < 2 ^ 47. b \<noteq> a \<longrightarrow> ubyte w1 b = ubyte w b"
    using print_c_bytes [OF Cons.prems] by blast
  have "user_ok w1" "user_writes w1 a" using w1(5) Cons.prems(2) same_pages_writes by (auto simp: same_pages_def)
  from Cons.IH [OF this] w1 show ?case by (fastforce simp: print_k_def dest: same_pages_trans)
qed simp

lemma printf_char: "printf lk a (str ''%c'') [WordArg (scast c)] w = print_c lk a c w"
proof -
  have "ucast (scast c :: u64) = c" by (rule bit_word_eqI) (simp add: bits)
  then have "render (\<lambda>v. v) (pieces (c_text (str ''%c''))) [WordArg (scast c)] = Some [c]"
    by (simp add: c_text_def conversions_def)
  then show ?thesis by (simp add: printf_def joinf_def format_loop_text print_k_def)
qed

lemma my_read_one:
  assumes "user_ok w" "user_writes w a" "kbd_ok (kbd w)" "chars (kbd w) = c # cs"
  shows "\<exists>w'. my_read lk 0 a 1 w = Inr w' \<and> screen w' = screen w \<and> kbd_ok (kbd w') \<and> chars (kbd w') = cs
    \<and> v_heap (machine w') = v_heap (machine w) \<and> same_pages w w' \<and> ubyte w' a = Inr c
    \<and> (\<forall>b < 2 ^ 47. b \<noteq> a \<longrightarrow> ubyte w' b = ubyte w b)"
proof -
  obtain s where s: "kstore8 a c (machine w) = Inr s" "v_heap s = v_heap (machine w)" "same_pages w (w\<lparr>machine := s\<rparr>)"
    "\<forall>b < 2 ^ 47. kload8 s b = (if b = a then Inr c else ubyte w b)"
    using user_store [OF assms(1,2)] by blast
  obtain k where k: "kgetc (kbd w) = Inr (c, k)" "kbd_ok k" "chars k = cs" using kgetc_chars(2) [OF assms(3,4)] by blast
  let ?w = "w\<lparr>machine := s, kbd := k\<rparr>"
  have "read_loop a 1 0 w = Inr ?w"
    using s(1) k(1) read_loop_done(1) [of 1 a ?w] read_loop_done(2) [of a 1 ?w] by (subst read_loop.simps) (simp add: Let_def)
  then have "my_read lk 0 a 1 w = Inr ?w" by (simp add: my_read_def syscall_handler_def syscall_read_def)
  then show ?thesis using s k(2,3) assms(2) by (auto simp: same_pages_def user_ok_def ubyte_def user_writes_def)
qed

subsection \<open>A line\<close>

text \<open>The bytes of the block from its start.\<close>

definition holds :: "world \<Rightarrow> u64 \<Rightarrow> u8 list \<Rightarrow> bool" where
  "holds w p cs \<longleftrightarrow> (\<forall>j < length cs. ubyte w (p + of_nat j) = Inr (cs ! j))"

definition block_ok :: "world \<Rightarrow> u64 \<Rightarrow> u64 \<Rightarrow> bool" where
  "block_ok w a p \<longleftrightarrow> user_ok w \<and> user_writes w a \<and> (\<forall>j < 255. user_writes w (p + of_nat j) \<and> p + of_nat j \<noteq> a)"

lemma block_ok_same: "block_ok w a p \<Longrightarrow> same_pages w w' \<Longrightarrow> block_ok w' a p"
  by (auto simp: block_ok_def same_pages_writes) (simp add: same_pages_def)

lemma of_nat_inj: "i < 255 \<Longrightarrow> j < 255 \<Longrightarrow> (of_nat i :: u64) = of_nat j \<longleftrightarrow> i = j"
  by (simp add: word_unat_eq_iff unat_of_nat)

lemma block_store:
  assumes "block_ok w a p" "holds w p cs" "length cs < 255"
  shows "\<exists>s. kstore8 (p + of_nat (length cs)) c (machine w) = Inr s \<and> v_heap s = v_heap (machine w)
    \<and> same_pages w (w\<lparr>machine := s\<rparr>) \<and> holds (w\<lparr>machine := s\<rparr>) p (cs @ [c]) \<and> block_ok (w\<lparr>machine := s\<rparr>) a p"
proof -
  have w: "user_ok w" "user_writes w (p + of_nat (length cs))" using assms(1,3) by (simp_all add: block_ok_def)
  obtain s where s: "kstore8 (p + of_nat (length cs)) c (machine w) = Inr s" "v_heap s = v_heap (machine w)"
    "same_pages w (w\<lparr>machine := s\<rparr>)" "\<forall>b < 2 ^ 47. kload8 s b = (if b = p + of_nat (length cs) then Inr c else ubyte w b)"
    using user_store [OF w] by blast
  have "ubyte (w\<lparr>machine := s\<rparr>) (p + of_nat j) = Inr ((cs @ [c]) ! j)" if "j < length (cs @ [c])" for j
  proof -
    have "p + of_nat j < 2 ^ 47" using assms(1,3) that by (auto simp: block_ok_def user_writes_def)
    then show ?thesis
      using s(4) assms(2,3) that of_nat_inj [of j "length cs"] by (auto simp: ubyte_def holds_def nth_append less_Suc_eq)
  qed
  then show ?thesis using s block_ok_same [OF assms(1) s(3)] by (auto simp: holds_def)
qed

lemma holds_other:
  assumes "block_ok w a p" "holds w p cs" "length cs \<le> 255" "\<forall>b < 2 ^ 47. b \<noteq> a \<longrightarrow> ubyte w' b = ubyte w b"
  shows "holds w' p cs"
  using assms by (auto simp: holds_def block_ok_def user_writes_def)

lemma getline_loop_types:
  assumes "block_ok w a p" "kbd_ok (kbd w)" "chars (kbd w) = ks @ 0x0A # rest" "0x0A \<notin> set ks"
    and "length pre + length ks < 254" "holds w p pre"
  shows "\<exists>w'. getline_loop lk a junk p (length pre) w = Inr (p, w') \<and> same_pages w w' \<and> block_ok w' a p
    \<and> screen w' = fold term_putchar (ks @ [0x0A]) (screen w) \<and> kbd_ok (kbd w') \<and> chars (kbd w') = rest
    \<and> v_heap (machine w') = v_heap (machine w) \<and> holds w' p (pre @ ks @ [0x0A, 0])"
  using assms
proof (induction ks arbitrary: w pre)
  case Nil
  have w: "user_ok w" "user_writes w a" using Nil.prems(1) by (simp_all add: block_ok_def)
  obtain w1 where w1: "my_read lk 0 a 1 w = Inr w1" "screen w1 = screen w" "kbd_ok (kbd w1)" "chars (kbd w1) = rest"
    "v_heap (machine w1) = v_heap (machine w)" "same_pages w w1" "ubyte w1 a = Inr 0x0A" "\<forall>b < 2 ^ 47. b \<noteq> a \<longrightarrow> ubyte w1 b = ubyte w b"
    using my_read_one [OF w Nil.prems(2), of "0x0A" rest] Nil.prems(3) by auto
  note b1 = block_ok_same [OF Nil.prems(1) w1(6)]
  have u1: "user_ok w1" "user_writes w1 a" using b1 by (simp_all add: block_ok_def)
  obtain w2 where w2: "print_c lk a 0x0A w1 = Inr w2" "screen w2 = term_putchar 0x0A (screen w1)" "kbd w2 = kbd w1"
    "v_heap (machine w2) = v_heap (machine w1)" "same_pages w1 w2" "\<forall>b < 2 ^ 47. b \<noteq> a \<longrightarrow> ubyte w2 b = ubyte w1 b"
    using print_c_bytes [OF u1] by blast
  note b2 = block_ok_same [OF b1 w2(5)]
  have h2: "holds w2 p pre" using holds_other [OF Nil.prems(1,6)] w1(8) w2(6) Nil.prems(5) by simp
  obtain s3 where s3: "kstore8 (p + of_nat (length pre)) 0x0A (machine w2) = Inr s3" "v_heap s3 = v_heap (machine w2)"
    "same_pages w2 (w2\<lparr>machine := s3\<rparr>)" "holds (w2\<lparr>machine := s3\<rparr>) p (pre @ [0x0A])" "block_ok (w2\<lparr>machine := s3\<rparr>) a p"
    using block_store [OF b2 h2] Nil.prems(5) by auto
  obtain s4 where s4: "kstore8 (p + of_nat (length (pre @ [0x0A]))) 0 s3 = Inr s4" "v_heap s4 = v_heap s3"
    "same_pages (w2\<lparr>machine := s3\<rparr>) (w2\<lparr>machine := s4\<rparr>)" "holds (w2\<lparr>machine := s4\<rparr>) p ((pre @ [0x0A]) @ [0])"
    "block_ok (w2\<lparr>machine := s4\<rparr>) a p"
    using block_store [OF s3(5,4)] Nil.prems(5) by auto
  have "getline_loop lk a junk p (length pre) w = Inr (p, w2\<lparr>machine := s4\<rparr>)"
    using Nil.prems(5) w1(1,7) w2(1) s3(1) s4(1) printf_char [of lk a "0x0A"]
    by (subst getline_loop.simps) (simp add: ubyte_def add.commute)
  then show ?case
    using w1 w2 s3 s4 same_pages_trans [OF same_pages_trans [OF w1(6) w2(5)] same_pages_trans [OF s3(3) s4(3)]] by auto
next
  case (Cons c ks)
  have w: "user_ok w" "user_writes w a" using Cons.prems(1) by (simp_all add: block_ok_def)
  obtain w1 where w1: "my_read lk 0 a 1 w = Inr w1" "screen w1 = screen w" "kbd_ok (kbd w1)" "chars (kbd w1) = ks @ 0x0A # rest"
    "v_heap (machine w1) = v_heap (machine w)" "same_pages w w1" "ubyte w1 a = Inr c" "\<forall>b < 2 ^ 47. b \<noteq> a \<longrightarrow> ubyte w1 b = ubyte w b"
    using my_read_one [OF w Cons.prems(2), of c "ks @ 0x0A # rest"] Cons.prems(3) by auto
  note b1 = block_ok_same [OF Cons.prems(1) w1(6)]
  have u1: "user_ok w1" "user_writes w1 a" using b1 by (simp_all add: block_ok_def)
  obtain w2 where w2: "print_c lk a c w1 = Inr w2" "screen w2 = term_putchar c (screen w1)" "kbd w2 = kbd w1"
    "v_heap (machine w2) = v_heap (machine w1)" "same_pages w1 w2" "\<forall>b < 2 ^ 47. b \<noteq> a \<longrightarrow> ubyte w2 b = ubyte w1 b"
    using print_c_bytes [OF u1] by blast
  note b2 = block_ok_same [OF b1 w2(5)]
  have h2: "holds w2 p pre" using holds_other [OF Cons.prems(1,6)] w1(8) w2(6) Cons.prems(5) by simp
  obtain s3 where s3: "kstore8 (p + of_nat (length pre)) c (machine w2) = Inr s3" "v_heap s3 = v_heap (machine w2)"
    "same_pages w2 (w2\<lparr>machine := s3\<rparr>)" "holds (w2\<lparr>machine := s3\<rparr>) p (pre @ [c])" "block_ok (w2\<lparr>machine := s3\<rparr>) a p"
    using block_store [OF b2 h2] Cons.prems(5) by auto
  let ?w = "w2\<lparr>machine := s3\<rparr>"
  obtain w' where w': "getline_loop lk a junk p (length (pre @ [c])) ?w = Inr (p, w')" "same_pages ?w w'" "block_ok w' a p"
    "screen w' = fold term_putchar (ks @ [0x0A]) (screen ?w)" "kbd_ok (kbd w')" "chars (kbd w') = rest"
    "v_heap (machine w') = v_heap (machine ?w)" "holds w' p ((pre @ [c]) @ ks @ [0x0A, 0])"
    using Cons.IH [of ?w "pre @ [c]"] Cons.prems w1 w2 s3 by auto
  have same: "same_pages w w'" using same_pages_trans [OF same_pages_trans [OF same_pages_trans [OF w1(6) w2(5)] s3(3)] w'(2)] .
  have eq: "getline_loop lk a junk p (length pre) w = getline_loop lk a junk p (length (pre @ [c])) ?w"
    using Cons.prems(4,5) w1(1,7) w2(1) s3(1) printf_char [of lk a c]
    by (subst getline_loop.simps) (simp add: ubyte_def)
  show ?case
    by (rule exI [where x = w']) (use eq w' same w1(2,5) w2(2,4) s3(2) in simp)
qed


lemma holds_char:
  assumes "holds w p (cs @ [0])" "0 \<notin> set cs" "i < length cs"
  shows "kload8 (machine w) (p + of_nat i) = Inr (cs ! i)" "cs ! i \<noteq> 0"
proof -
  show "kload8 (machine w) (p + of_nat i) = Inr (cs ! i)"
    using assms(1,3) by (simp add: holds_def ubyte_def nth_append)
  show "cs ! i \<noteq> 0" using assms(2) nth_mem [OF assms(3)] by metis
qed

lemma kstring_holds:
  assumes "holds w p (cs @ [0])" "0 \<notin> set cs" "length cs < 255"
  shows "i \<le> length cs \<Longrightarrow> kstring (machine w) p i = Inr (drop i cs)"
proof (induction "length cs - i" arbitrary: i)
  case 0
  then show ?case using assms(1) by (subst kstring.simps) (simp add: holds_def ubyte_def nth_append)
next
  case (Suc n)
  then have i: "i < length cs" "i < 2 ^ 64" using assms(3) by simp_all
  then have "kload8 (machine w) (p + of_nat i) = Inr (cs ! i)" "cs ! i \<noteq> 0"
    using holds_char [OF assms(1,2)] by simp_all
  moreover have "kstring (machine w) p (i + 1) = Inr (drop (i + 1) cs)" using Suc by simp
  ultimately show ?case using i by (subst kstring.simps) (simp add: Cons_nth_drop_Suc)
qed

lemma kstrlen_holds:
  assumes "holds w p (cs @ [0])" "0 \<notin> set cs" "length cs < 255"
  shows "kstrlen (machine w) p = Inr (length cs + 1)"
proof -
  have "kstrlen_loop (machine w) p i = Inr (length cs)" if "i \<le> length cs" for i
    using that
  proof (induction "length cs - i" arbitrary: i)
    case 0
    then show ?case using assms(1) by (subst kstrlen_loop.simps) (simp add: holds_def ubyte_def nth_append)
  next
    case (Suc n)
    then have i: "i < length cs" by simp
    then have "kload8 (machine w) (p + of_nat i) = Inr (cs ! i)" "cs ! i \<noteq> 0"
      using holds_char [OF assms(1,2)] by simp_all
    then show ?case using Suc i assms(3) by (subst kstrlen_loop.simps) simp
  qed
  from this [of 0] show ?thesis using assms(3) by (simp add: kstrlen_def)
qed

lemma sys_mmap_screen: "mmap lk p w = Inr (v, w') \<Longrightarrow> screen w' = screen w"
  by (auto simp: mmap_def syscall_handler_def bindf_Inr outcome_Inr)

lemma malloc_screen: "malloc (mmap lk p) sz h w = Inr (a, h', w') \<Longrightarrow> screen w' = screen w"
  by (auto simp: malloc_def Let_def bindf_Inr split: if_splits prod.splits dest: sys_mmap_screen)

text \<open>
  Where the program can take a line: its heap can grow by one call of \<open>mmap\<close>, and its character
  variable is outside what the heap may use.
\<close>

definition line_room :: "places \<Rightarrow> heap \<Rightarrow> world \<Rightarrow> bool" where
  "line_room pl h w \<longleftrightarrow> heap_wf (\<lambda>w. v_heap (machine w)) user_writes h w \<and> heap_room (page_at pl) w 1
     \<and> user_writes w (char_at pl)
     \<and> (unat (char_at pl) < unat (bump h) \<or> unat (v_heap (machine w)) + 2048 \<le> unat (char_at pl))"

lemma block_disjoint:
  assumes "unat p + 255 \<le> (2 :: nat) ^ 47" "j < 255" "unat a < unat p \<or> unat p + 255 \<le> unat a"
  shows "p + of_nat j \<noteq> (a :: u64)" "p + of_nat j - p < 255"
proof -
  have "unat (p + of_nat j) = unat p + j"
    using assms by (simp add: unat_word_ariths unat_of_nat)
  then show "p + of_nat j \<noteq> a" using assms(2,3) by auto
  show "p + of_nat j - p < 255" using assms(2) by (simp add: word_less_nat_alt unat_of_nat)
qed

subsection \<open>The kernel's memory beside a program\<close>

lemma my_write_machine: "my_write lk fp buf n w = Inr w' \<Longrightarrow> machine w' = machine w"
  by (auto simp: my_write_def syscall_handler_def syscall_write_def bindf_Inr split: if_splits dest: write_loop_types)

lemma print_c_intact: "print_c lk a c w = Inr w' \<Longrightarrow> a < 2 ^ 47 \<Longrightarrow> intact A m (machine w) ps \<Longrightarrow> intact A m (machine w') ps"
  by (auto simp: print_c_def bindf_Inr dest!: my_write_machine dest: user_store_intact(1))

lemma print_k_intact:
  "fold (print_k lk a) cs (Inr w) = Inr w' \<Longrightarrow> a < 2 ^ 47 \<Longrightarrow> intact A m (machine w) ps \<Longrightarrow> intact A m (machine w') ps"
proof (induction cs arbitrary: w)
  case (Cons c cs)
  obtain v where v: "print_k lk a c (Inr w) = Inr v" using print_k_keys [of lk a cs "print_k lk a c (Inr w)"] Cons.prems(1) by auto
  then have "print_c lk a c w = Inr v" by (simp add: print_k_def)
  from print_c_intact [OF this Cons.prems(2,3)] show ?case using Cons.IH [of v] Cons.prems(1,2) v by simp
qed simp

lemma printf_intact:
  "printf lk a format args w = Inr w' \<Longrightarrow> a < 2 ^ 47 \<Longrightarrow> intact A m (machine w) ps \<Longrightarrow> intact A m (machine w') ps"
  by (auto simp: printf_def joinf_def format_loop_text bindf_Inr split: option.splits dest: print_k_intact)

lemma my_read_intact:
  "my_read lk 0 a 1 w = Inr w' \<Longrightarrow> a < 2 ^ 47 \<Longrightarrow> intact A m (machine w) ps \<Longrightarrow> intact A m (machine w') ps"
  using read_loop_intact [of a 1 0 w w' A m ps]
  by (auto simp: my_read_def syscall_handler_def syscall_read_def bindf_Inr word_less_nat_alt split: if_splits)

lemma getline_loop_Inr:
  assumes "getline_loop lk a junk p i w = Inr (q, w')"
  obtains (full) s where "kstore8 (p + of_nat 254) 0 (machine w) = Inr s" "w' = w\<lparr>machine := s\<rparr>"
  | (key) w1 c w2 s where "i < 254" "my_read lk 0 a 1 w = Inr w1" "kload8 (machine w1) a = Inr c"
      "printf lk a (str ''%c'') [WordArg (scast c)] w1 = Inr w2" "kstore8 (p + of_nat i) c (machine w2) = Inr s"
      "if c = 0x0A then \<exists>t. kstore8 (p + of_nat (i + 1)) 0 s = Inr t \<and> w' = w2\<lparr>machine := t\<rparr>
       else getline_loop lk a junk p (i + 1) (w2\<lparr>machine := s\<rparr>) = Inr (q, w')"
  using assms by (subst (asm) getline_loop.simps) (auto simp: bindf_Inr split: if_splits)

lemma getline_loop_intact:
  assumes "getline_loop lk a junk p i w = Inr (q, w')" "a < 2 ^ 47" "\<And>j. j < 255 \<Longrightarrow> p + of_nat j < 2 ^ 47" "i \<le> 254"
    and "intact A m (machine w) ps"
  shows "intact A m (machine w') ps"
  using assms
proof (induction lk a junk p i w rule: getline_loop.induct)
  case (1 lk a junk p i w)
  from "1.prems"(1) show ?case
  proof (cases rule: getline_loop_Inr)
    case full
    then show ?thesis using user_store_intact(1) [OF "1.prems"(5) "1.prems"(3) [of 254]] by simp
  next
    case (key w1 c w2 s)
    have "intact A m (machine w2) ps"
      using printf_intact [OF key(4) "1.prems"(2)] my_read_intact [OF key(2) "1.prems"(2,5)] by blast
    from user_store_intact(1) [OF this "1.prems"(3) key(5)] have s: "intact A m s ps" using key(1) by simp
    show ?thesis
    proof (cases "c = 0x0A")
      case True
      then obtain t where t: "kstore8 (p + of_nat (i + 1)) 0 s = Inr t" "w' = w2\<lparr>machine := t\<rparr>" using key(6) by auto
      then show ?thesis using user_store_intact(1) [OF s "1.prems"(3) t(1)] key(1) by simp
    next
      case False
      then show ?thesis using "1.IH" [OF key(1-5)] key(1,6) "1.prems"(2,3) s by simp
    qed
  qed
qed

lemma malloc_intact:
  assumes "malloc (mmap lk p) sz h w = Inr (a, h', w')" "heap_room p w (Suc n)" "page_aligned (cr3 (machine w))"
    and "intact A m (machine w) ps" "4 \<le> length ps"
  shows "\<exists>n \<le> 4. intact A m (machine w') (drop n ps)"
proof -
  let ?v = "v_heap (machine w)"
  have r: "take_bit 11 ?v = 0" "unat (page_top ?v) + 4096 * pages_for ?v (Suc n) \<le> 2 ^ 47" "page_aligned ?v \<or> user_writes w ?v"
    "p < 2 ^ 47" "take_bit 12 p \<le> 4088"
    using assms(2) by (simp_all add: heap_room_def Let_def)
  have "0 < pages_for ?v (Suc n)" if "page_aligned ?v" using that by (simp add: pages_for_def)
  then have v: "?v < 2 ^ 47" using r(2,3) by (auto simp: user_writes_def page_top_def word_less_nat_alt)
  have p: "unat p + 8 \<le> 2 ^ 47"
  proof -
    have "unat p < 34359738368 * 4096" using r(4) by (simp add: word_less_nat_alt)
    then have "unat p div 4096 < 34359738368" by (rule less_mult_imp_div_less)
    moreover have "unat p mod 4096 \<le> 4088" using r(5) by (simp add: word_le_nat_alt take_bit_eq_mod unat_mod_distrib)
    ultimately have "unat p + 8 \<le> 140737488355328" using div_mult_mod_eq [of "unat p" 4096] by linarith
    then show ?thesis by simp
  qed
  from assms(1) consider "w' = w" | x where "mmap lk p w = Inr (x, w')"
    by (auto simp: malloc_def Let_def bindf_Inr split: if_splits prod.splits)
  then show ?thesis
  proof cases
    case 1
    then show ?thesis using assms(4) by (intro exI [of _ 0]) simp
  next
    case 2
    then obtain s where "sys_mmap p (machine w) = Inr s" "w' = w\<lparr>machine := s\<rparr>"
      by (auto simp: mmap_def syscall_handler_def bindf_Inr)
    then show ?thesis using sys_mmap_intact(2) [OF assms(4,3) v assms(5) p] by simp
  qed
qed

text \<open>The registers and the direct map.\<close>

lemma print_c_kept: "print_c lk a c w = Inr w' \<Longrightarrow> kept (machine w) (machine w')"
  by (auto simp: print_c_def bindf_Inr dest!: my_write_machine kept_store)

lemma printf_kept: "printf lk a format args w = Inr w' \<Longrightarrow> kept (machine w) (machine w')"
proof -
  have "fold (print_k lk a) cs r = Inr w' \<Longrightarrow> r = Inr w \<Longrightarrow> kept (machine w) (machine w')" for cs r
  proof (induction cs arbitrary: r w)
    case (Cons c cs)
    obtain v where v: "print_k lk a c r = Inr v" using print_k_keys [of lk a cs "print_k lk a c r"] Cons.prems(1) by auto
    then have "kept (machine w) (machine v)" using Cons.prems(2) print_c_kept by (auto simp: print_k_def)
    then show ?case using Cons.IH [of "Inr v" v] Cons.prems(1) v kept_trans by auto
  qed simp
  then show "printf lk a format args w = Inr w' \<Longrightarrow> kept (machine w) (machine w')"
    by (auto simp: printf_def joinf_def format_loop_text bindf_Inr split: option.splits)
qed

lemma my_read_kept: "my_read lk 0 a n w = Inr w' \<Longrightarrow> kept (machine w) (machine w')"
  by (auto simp: my_read_def syscall_handler_def syscall_read_def bindf_Inr split: if_splits dest: read_loop_types)

lemma getline_loop_kept: "getline_loop lk a junk p i w = Inr (q, w') \<Longrightarrow> kept (machine w) (machine w')"
proof (induction lk a junk p i w rule: getline_loop.induct)
  case (1 lk a junk p i w)
  from "1.prems" show ?case
  proof (cases rule: getline_loop_Inr)
    case (key w1 c w2 s)
    have s: "kept (machine w) s"
      using kept_trans [OF kept_trans [OF my_read_kept [OF key(2)] printf_kept [OF key(4)]] kept_store [OF key(5)]] .
    then show ?thesis using "1.IH" [OF key(1-5)] key(6) kept_trans [OF s] by (auto split: if_splits dest: kept_store)
  qed (auto dest: kept_store)
qed

lemma malloc_kept: "malloc (mmap lk p) sz h w = Inr (a, h', w') \<Longrightarrow> kept (machine w) (machine w')"
  by (auto simp: malloc_def Let_def mmap_def syscall_handler_def sys_mmap_def bindf_Inr split: if_splits prod.splits
      dest!: kept_map kept_stores intro: kept_trans)

lemma getline_kept: "getline lk v a junk h w = Inr (p, h', w') \<Longrightarrow> kept (machine w) (machine w')"
  by (auto simp: getline_def bindf_Inr dest!: malloc_kept getline_loop_kept intro: kept_trans)

subsection \<open>A line, typed\<close>

lemma getline_types:
  assumes rm: "line_room pl h w" and kb: "kbd_ok (kbd w)" "chars (kbd w) = ks @ 0x0A # rest" and ks: "0x0A \<notin> set ks" "length ks < 254"
  shows "\<exists>p h' w'. getline lk (page_at pl) (char_at pl) (junk_line pl) h w = Inr (p, h', w') \<and> block_ok w' (char_at pl) p
    \<and> screen w' = fold term_putchar (ks @ [0x0A]) (screen w) \<and> kbd_ok (kbd w') \<and> chars (kbd w') = rest
    \<and> holds w' p (ks @ [0x0A, 0])
    \<and> (\<forall>A m ps. intact A m (machine w) ps \<and> 4 \<le> length ps \<longrightarrow> (\<exists>n \<le> 4. intact A m (machine w') (drop n ps)))"
proof -
  let ?brk = "\<lambda>w. v_heap (machine w)"
  have wf: "heap_wf ?brk user_writes h w" and hr: "heap_room (page_at pl) w (Suc 0)" and uc: "user_writes w (char_at pl)"
    using rm by (simp_all add: line_room_def)
  obtain p h1 w1 where 1: "malloc (mmap lk (page_at pl)) 255 h w = Inr (p, h1, w1)" "heap_wf ?brk user_writes h1 w1"
    "heap_room (page_at pl) w1 0" "\<forall>a. user_writes w a \<longrightarrow> user_writes w1 a" "\<forall>a. a - p < 255 \<longrightarrow> user_writes w1 a"
    "unat (bump h) \<le> unat p" "unat p + 255 \<le> unat (bump h1)" "unat (?brk w1) \<le> unat (?brk w) + 2048"
    using user_heap.malloc_small [OF wf hr, of 255 lk] by auto
  have top: "unat (bump h1) \<le> unat (?brk w1)" "unat (?brk w1) \<le> 2 ^ 47"
    using 1(2) heap_room_bound [OF 1(3)] by (simp_all add: heap_wf_def)
  have "user_ok w1" using 1(3) by (auto simp: heap_room_def Let_def user_ok_def)
  moreover have "unat (char_at pl) < unat p \<or> unat p + 255 \<le> unat (char_at pl)"
    using rm 1(6,7,8) top by (auto simp: line_room_def)
  ultimately have b1: "block_ok w1 (char_at pl) p"
    using block_disjoint [of p _ "char_at pl"] 1(4,5,7) top uc by (simp add: block_ok_def)
  have "holds w1 p []" by (simp add: holds_def)
  from getline_loop_types [OF b1 _ _ ks(1) _ this, of rest lk "junk_line pl"] kb ks(2) malloc_keys [OF 1(1)] malloc_screen [OF 1(1)]
  obtain w' where w': "getline_loop lk (char_at pl) (junk_line pl) p 0 w1 = Inr (p, w')" "block_ok w' (char_at pl) p"
    "screen w' = fold term_putchar (ks @ [0x0A]) (screen w)" "kbd_ok (kbd w')" "chars (kbd w') = rest" "holds w' p (ks @ [0x0A, 0])" by auto
  have al: "page_aligned (cr3 (machine w))" using hr by (auto simp: heap_room_def Let_def dest: space_okD(2))
  have "\<exists>n \<le> 4. intact A m (machine w') (drop n ps)" if k: "intact A m (machine w) ps" "4 \<le> length ps" for A m ps
  proof -
    obtain n where n: "n \<le> 4" "intact A m (machine w1) (drop n ps)" using malloc_intact [OF 1(1) hr al k] by blast
    have "intact A m (machine w') (drop n ps)"
      by (rule getline_loop_intact [OF w'(1) _ _ _ n(2)]) (use b1 in \<open>simp_all add: block_ok_def user_writes_def\<close>)
    then show ?thesis using n(1) by blast
  qed
  then show ?thesis using w' by (auto simp: getline_def 1(1))
qed


subsection \<open>A round of the shell\<close>

text \<open>A message without \<open>%x\<close> reads in a program as in the kernel.\<close>

lemma printf_text:
  assumes "ktext format args = Some u" "Conv (chr CHR ''x'') \<notin> set (pieces (c_text format))"
  shows "printf lk a format args w = fold (print_k lk a) u (Inr w)"
proof -
  have "render (\<lambda>v. v) (pieces (c_text format)) args = Some u"
    using assms(1) render_hex [OF assms(2)] unfolding ktext_def by metis
  then show ?thesis by (simp add: printf_def joinf_def format_loop_text)
qed

lemma no_hex: "list_all (\<lambda>c. c \<noteq> chr CHR ''x'') cs \<Longrightarrow> Conv (chr CHR ''x'') \<notin> set (pieces (c_text cs))"
proof -
  have "Conv c \<notin> set (pieces ds)" if "list_all (\<lambda>d. d \<noteq> c) ds" for c ds
    using that by (induction ds rule: pieces.induct) auto
  moreover assume "list_all (\<lambda>c. c \<noteq> chr CHR ''x'') cs"
  then have "list_all (\<lambda>c. c \<noteq> chr CHR ''x'') (c_text cs)" by (auto simp: c_text_def list_all_iff dest: set_takeWhileD)
  ultimately show ?thesis by blast
qed

lemma uprint_bytes:
  assumes "user_ok w" "user_writes w a" "ktext format args = Some u" "list_all (\<lambda>c. c \<noteq> chr CHR ''x'') format" "u \<noteq> []"
  shows "\<exists>w'. printf lk a format args w = Inr w' \<and> screen w' = fold term_putchar u (screen w) \<and> kbd w' = kbd w
    \<and> v_heap (machine w') = v_heap (machine w) \<and> same_pages w w' \<and> (\<forall>b < 2 ^ 47. b \<noteq> a \<longrightarrow> ubyte w' b = ubyte w b)"
  using print_text_bytes [OF assms(1,2), of lk u] assms(5) by (auto simp: printf_text [OF assms(3) no_hex [OF assms(4)]])

lemma not_found_text:
  assumes "0 \<notin> set ks"
  shows "ktext (str ''Couldn'' @ [0x27] @ line ''t find %s'') [StrArg ks] = Some (str ''Couldn'' @ [0x27] @ str ''t find '' @ ks @ [0x0A])"
proof -
  have ct: "c_text ks = ks" using assms by (auto simp: c_text_def takeWhile_eq_all_conv)
  have "str ''Couldn'' @ [0x27] @ line ''t find %s'' = (str ''Couldn'' @ [0x27] @ str ''t find '') @ 0x25 # chr CHR ''s'' # [0x0A]"
    by simp
  moreover have "ktext (0x25 # chr CHR ''s'' # [0x0A]) [StrArg ks] = Some (ks @ [0x0A])"
    by (subst ktext_conv) (simp_all add: conversions_def ct ktext_literal)
  ultimately show ?thesis by (simp add: ktext_Cons)
qed


lemma line_room_same:
  assumes "line_room pl h w" "same_pages w w'" "v_heap (machine w') = v_heap (machine w)"
  shows "line_room pl h w'"
proof -
  let ?v = "v_heap (machine w)"
  have h: "heap_room (page_at pl) w 1" using assms(1) by (simp add: line_room_def)
  have c: "cr3 (machine w') = cr3 (machine w)"
    and walk: "\<And>va. va < 2 ^ 47 \<Longrightarrow> walk (machine w') (cr3 (machine w)) va = walk (machine w) (cr3 (machine w)) va"
    and pool: "\<And>ps. space_ok (machine w) (cr3 (machine w)) ps \<Longrightarrow> space_ok (machine w') (cr3 (machine w)) ps"
    using assms(2) by (auto simp: same_pages_def)
  have "page_top ?v + of_nat (4096 * i) < 2 ^ 47" if "i < pages_for ?v 1" for i
  proof -
    have "unat (page_top ?v) + 4096 * pages_for ?v 1 \<le> 2 ^ 47" using h by (simp add: heap_room_def Let_def)
    then show ?thesis using that by (simp add: word_less_nat_alt unat_word_ariths unat_of_nat)
  qed
  then have "walk (machine w') (cr3 (machine w)) (page_top ?v + of_nat (4096 * i)) = None" if "i < pages_for ?v 1" for i
    using h walk that by (simp add: heap_room_def Let_def)
  then have "heap_room (page_at pl) w' 1"
    using h pool walk same_pages_writes [OF assms(2)] unfolding heap_room_def Let_def c assms(3) writable_def by auto
  then show ?thesis
    using assms(1) same_pages_writes [OF assms(2)] unfolding line_room_def heap_wf_def assms(3) by blast
qed


lemma holds_prefix: "holds w p (cs @ ds) \<Longrightarrow> holds w p cs"
  unfolding holds_def by (metis length_append nth_append trans_less_add1)

lemma shell_round_exec:
  assumes rm: "line_room pl h w" and kb: "kbd_ok (kbd w)" "chars (kbd w) = ks @ 0x0A # rest"
    and ks: "0x0A \<notin> set ks" "0 \<notin> set ks" "length ks < 254"
  obtains ln h' w' where "kstring (machine w') ln 0 = Inr ks" "kbd_ok (kbd w')" "chars (kbd w') = rest"
    "screen w' = fold term_putchar (str ''>> '' @ ks @ [0x0A]) (screen w)" "block_ok w' (char_at pl) ln" "holds w' ln (ks @ [0])"
    "\<And>A m ps. intact A m (machine w) ps \<Longrightarrow> 4 \<le> length ps \<Longrightarrow> \<exists>n \<le> 4. intact A m (machine w') (drop n ps)"
    "kept (machine w) (machine w')"
    "shell_round lk pl h w = bindf (exec lk ln w') (\<lambda>(res, v).
       case res of
         EnterUser a b c d \<Rightarrow> Inr (res, h', v)
       | Return r \<Rightarrow>
           if (ucast r :: u32) = - 1
           then bindf (kstring (machine v) ln 0) (\<lambda>cs.
                bindf (printf lk (char_at pl) (str ''Couldn'' @ [0x27] @ line ''t find %s'') [StrArg cs] v) (\<lambda>v. Inr (res, h', v)))
           else Inr (res, h', v))"
proof -
  let ?a = "char_at pl"
  have "user_ok w" "user_writes w ?a" using rm by (auto simp: line_room_def heap_room_def Let_def user_ok_def)
  from uprint_bytes [OF this ktext_literal, of "str ''>> ''" lk "[]"]
  obtain w1 where w1: "printf lk ?a (str ''>> '') [] w = Inr w1" "screen w1 = fold term_putchar (str ''>> '') (screen w)"
    "kbd w1 = kbd w" "v_heap (machine w1) = v_heap (machine w)" "same_pages w w1" by auto
  have "kbd_ok (kbd w1)" "chars (kbd w1) = ks @ 0x0A # rest" using kb w1(3) by simp_all
  from getline_types [OF line_room_same [OF rm w1(5,4)] this ks(1,3)]
  obtain p h' w2 where w2: "getline lk (page_at pl) ?a (junk_line pl) h w1 = Inr (p, h', w2)" "block_ok w2 ?a p"
    "screen w2 = fold term_putchar (ks @ [0x0A]) (screen w1)" "kbd_ok (kbd w2)" "chars (kbd w2) = rest"
    "holds w2 p (ks @ [0x0A, 0])"
    "\<And>A m ps. intact A m (machine w1) ps \<Longrightarrow> 4 \<le> length ps \<Longrightarrow> \<exists>n \<le> 4. intact A m (machine w2) (drop n ps)" by blast
  have len: "kstrlen (machine w2) p = Inr (length ks + 2)"
    using kstrlen_holds [of w2 p "ks @ [0x0A]"] w2(6) ks by simp
  obtain s where s: "kstore8 (p + of_nat (length ks)) 0 (machine w2) = Inr s"
    "holds (w2\<lparr>machine := s\<rparr>) p (ks @ [0])" "block_ok (w2\<lparr>machine := s\<rparr>) ?a p"
    using block_store [OF w2(2) holds_prefix [OF w2(6)], of 0] ks(3) by auto
  have str: "kstring s p 0 = Inr ks" using kstring_holds [OF s(2) ks(2), of 0] ks(3) by simp
  have kernel: "\<exists>n \<le> 4. intact A m s (drop n qs)" if k: "intact A m (machine w) qs" "4 \<le> length qs" for A m qs
  proof -
    have a: "?a < 2 ^ 47" using rm by (simp add: line_room_def user_writes_def)
    have p: "p + of_nat (length ks) < 2 ^ 47" using w2(2) ks(3) by (simp add: block_ok_def user_writes_def)
    obtain n where n: "n \<le> 4" "intact A m (machine w2) (drop n qs)"
      using w2(7) [OF printf_intact [OF w1(1) a k(1)] k(2)] by blast
    then show ?thesis using user_store_intact(1) [OF n(2) p s(1)] by blast
  qed
  have st: "kstore8 (p + of_nat (length ks + 2) - 2) 0 (machine w2) = Inr s" using s(1) by simp
  show thesis
  proof (rule that)
    show "kstring (machine (w2\<lparr>machine := s\<rparr>)) p 0 = Inr ks" using str by simp
    show "shell_round lk pl h w = bindf (exec lk p (w2\<lparr>machine := s\<rparr>)) (\<lambda>(res, v).
       case res of
         EnterUser a b c d \<Rightarrow> Inr (res, h', v)
       | Return r \<Rightarrow>
           if (ucast r :: u32) = - 1
           then bindf (kstring (machine v) p 0) (\<lambda>cs.
                bindf (printf lk ?a (str ''Couldn'' @ [0x27] @ line ''t find %s'') [StrArg cs] v) (\<lambda>v. Inr (res, h', v)))
           else Inr (res, h', v))"
      by (simp only: shell_round_def w1(1) w2(1) len st bindf_simps prod.case)
    show "kept (machine w) (machine (w2\<lparr>machine := s\<rparr>))"
      using kept_trans [OF kept_trans [OF printf_kept [OF w1(1)] getline_kept [OF w2(1)]] kept_store [OF s(1)]] by simp
  qed (use w1(2) w2 s(2,3) kernel in simp_all)
qed

end
