(* ===== verification/Execute.thy ===== *)
theory Execute
  imports View
begin

text \<open>
  Starting a program. \<open>program_view\<close> is what the steps of \<open>execute_mod\<close> amount to for the user half of memory:
  the chunks of the file's segments, the stack and the two test pages, as updates of the view of \<open>View\<close>
  (\<open>Elf_Image\<close> compares it with what the file describes); it is \<open>None\<close> where a chunk crosses its page or lies in a
  page that is already read-only, which the kernel cannot write (\<open>CR0.WP\<close>).
\<close>

subsection \<open>Segments\<close>

definition chunk_view :: "bool \<Rightarrow> rights \<Rightarrow> mem \<Rightarrow> u64 \<Rightarrow> u64 \<Rightarrow> u64 \<Rightarrow> uview \<Rightarrow> uview option" where
  "chunk_view wp r m src n va V =
     (if va < 2 ^ 47 \<and> unat (take_bit 12 va) + unat n \<le> 4096
         \<and> (case V va of None \<Rightarrow> True | Some (b, q) \<Rightarrow> may_write q \<or> \<not> wp)
      then Some (protect_view va r (copy_view va n (\<lambda>k. m (src + k)) (map_view va all_rights V)))
      else None)"

function segment_view :: "bool \<Rightarrow> rights \<Rightarrow> mem \<Rightarrow> u64 \<Rightarrow> u64 \<Rightarrow> u64 \<Rightarrow> uview \<Rightarrow> uview option" where
  "segment_view wp r m src sz va V =
     (if 0 < sz
      then (if sz < 2048 then chunk_view wp r m src sz va V
            else Option.bind (chunk_view wp r m src 2048 va V) (segment_view wp r m (src + 2048) (sz - 2048) (va + 2048)))
      else Some V)"
  by pat_completeness auto
termination
  by (relation "measure (\<lambda>(wp, r, m, src, sz, va, V). unat sz)") (auto simp: word_less_nat_alt unat_sub word_le_nat_alt)

declare segment_view.simps [simp del]

text \<open>The frames that loading may take: four a chunk.\<close>

definition segment_frames :: "u64 \<Rightarrow> nat" where
  "segment_frames sz = 4 * (unat sz div 2048 + 1)"

lemma segment_frames_step: "2048 \<le> sz \<Longrightarrow> segment_frames sz = segment_frames (sz - 2048) + 4"
proof -
  assume "2048 \<le> sz"
  then have u: "unat (sz - 2048) = unat sz - 2048" "2048 \<le> unat sz" by (simp_all add: unat_sub word_le_nat_alt)
  have "unat sz div 2048 = (unat sz - 2048) div 2048 + 1" using u(2) by (simp add: div_if)
  then show ?thesis by (simp add: segment_frames_def u(1))
qed

lemma chunk_step:
  assumes k: "intact A m0 s ps" and len: "4 \<le> length ps" and src: "\<And>k. k < n \<Longrightarrow> src + k \<in> A"
    and V: "chunk_view (cr0_wp s) \<lparr>may_user = rd, may_write = wr, may_exec = ex\<rparr> m0 src n va (view s) = Some V"
  obtains s' d where "load_chunk (cr3_root s) rd wr ex va src n s = Inr s'" "d \<le> 4" "intact A m0 s' (drop d ps)" "kept s s'" "view s' = V"
proof -
  have c: "va < 2 ^ 47" "unat (take_bit 12 va) + unat n \<le> 4096" "case view s va of None \<Rightarrow> True | Some (b, q) \<Rightarrow> may_write q \<or> \<not> cr0_wp s"
    and V: "V = protect_view va \<lparr>may_user = rd, may_write = wr, may_exec = ex\<rparr> (copy_view va n (\<lambda>k. m0 (src + k)) (map_view va all_rights (view s)))"
    using V by (simp_all add: chunk_view_def split: if_splits)
  obtain b s1 d where s1: "vm_map (cr3_root s) va True True True s = Inr (b, s1)" "d \<le> 4" "intact A m0 s1 (drop d ps)" "kept s s1"
    "view s1 = map_view va all_rights (view s)"
    by (rule map_step [OF k c(1) len, of True True True]) (simp add: all_rights_def)
  have wp: "cr0_wp s1 = cr0_wp s" using s1(4) by (simp add: kept_def)
  obtain b q where q: "view s1 va = Some (b, q)" "may_write q \<or> \<not> cr0_wp s1"
    using c(3) unfolding s1(5) wp by (cases "view s va") (auto simp: map_view_def all_rights_def)
  obtain s2 where s2: "kmemcpy va src n s1 = Inr s2" "intact A m0 s2 (drop d ps)" "kept s1 s2"
    "view s2 = copy_view va n (\<lambda>k. m0 (src + k)) (view s1)"
    by (rule copy_step [OF s1(3) c(1,2) q src])
  have rt: "cr3_root s2 = cr3_root s" using cr3_root_kept s1(4) s2(3) by metis
  note p = protect_step [OF s2(2) c(1) refl, of rd wr ex, unfolded rt]
  have "load_chunk (cr3_root s) rd wr ex va src n s = Inr (snd (vm_protect (cr3_root s) va rd wr ex s2))"
    by (simp add: load_chunk_def s1(1) s2(1))
  moreover have "kept s (snd (vm_protect (cr3_root s) va rd wr ex s2))"
    using kept_trans [OF kept_trans [OF s1(4) s2(3)] kept_protect] .
  ultimately show thesis using that s1(2,5) p s2(4) V by metis
qed

lemma segment_step:
  assumes "intact A m0 s ps" "segment_frames sz \<le> length ps" "\<And>k. k < sz \<Longrightarrow> ehdr + offset + k \<in> A"
    and "segment_view (cr0_wp s) \<lparr>may_user = rd, may_write = wr, may_exec = ex\<rparr> m0 (ehdr + offset) sz va (view s) = Some V"
  shows "\<exists>s' d. load_segment (cr3_root s) ehdr rd wr ex sz offset va s = Inr s' \<and> d \<le> segment_frames sz
    \<and> intact A m0 s' (drop d ps) \<and> kept s s' \<and> view s' = V"
  using assms
proof (induction "unat sz" arbitrary: sz offset va s ps rule: less_induct)
  case less
  note V = less.prems(4) [unfolded segment_view.simps [of _ _ _ _ sz]]
  consider "sz = 0" | "0 < sz" "sz < 2048" | "2048 \<le> sz" by (cases "sz = 0"; cases "sz < 2048") (auto simp: word_gt_0)
  then show ?case
  proof cases
    case 1
    then have "load_segment (cr3_root s) ehdr rd wr ex sz offset va s = Inr s" "V = view s" using V by (simp_all add: load_segment.simps)
    then show ?thesis using less.prems(1) by (intro exI [of _ s] exI [of _ 0]) simp
  next
    case 2
    then have V: "chunk_view (cr0_wp s) \<lparr>may_user = rd, may_write = wr, may_exec = ex\<rparr> m0 (ehdr + offset) sz va (view s) = Some V"
      using V by simp
    have "4 \<le> length ps" using less.prems(2) by (simp add: segment_frames_def)
    from chunk_step [OF less.prems(1) this less.prems(3) V] obtain s' d where
      "load_chunk (cr3_root s) rd wr ex va (ehdr + offset) sz s = Inr s'" "d \<le> 4" "intact A m0 s' (drop d ps)" "kept s s'" "view s' = V"
      by blast
    moreover have "4 \<le> segment_frames sz" by (simp add: segment_frames_def)
    ultimately show ?thesis using 2 by (subst load_segment.simps) (auto intro: exI [of _ s'] exI [of _ d])
  next
    case 3
    have pos: "0 < sz" "\<not> sz < 2048" using 3 by unat_arith+
    obtain V1 where V1: "chunk_view (cr0_wp s) \<lparr>may_user = rd, may_write = wr, may_exec = ex\<rparr> m0 (ehdr + offset) 2048 va (view s) = Some V1"
      "segment_view (cr0_wp s) \<lparr>may_user = rd, may_write = wr, may_exec = ex\<rparr> m0 (ehdr + offset + 2048) (sz - 2048) (va + 2048) V1 = Some V"
      using V pos by (auto simp: bind_eq_Some_conv)
    have len: "4 \<le> length ps" using less.prems(2) by (simp add: segment_frames_def)
    have in2048: "ehdr + offset + k \<in> A" if "k < 2048" for k
      using less.prems(3) less_le_trans [OF that 3] by blast
    obtain s1 d where s1: "load_chunk (cr3_root s) rd wr ex va (ehdr + offset) 2048 s = Inr s1" "d \<le> 4" "intact A m0 s1 (drop d ps)"
      "kept s s1" "view s1 = V1"
      by (rule chunk_step [OF less.prems(1) len in2048 V1(1)])
    have rt: "cr3_root s1 = cr3_root s" "cr0_wp s1 = cr0_wp s" using s1(4) cr3_root_kept [OF s1(4)] by (simp_all add: kept_def)
    have lt: "unat (sz - 2048) < unat sz" using 3 by (simp add: unat_sub word_le_nat_alt)
    have fr: "segment_frames (sz - 2048) \<le> length (drop d ps)" using less.prems(2) s1(2) segment_frames_step [OF 3] by simp
    have inA: "ehdr + (offset + 2048) + k \<in> A" if "k < sz - 2048" for k
    proof -
      have "2048 + k < sz" using that 3 by unat_arith
      from less.prems(3) [OF this] show ?thesis by (simp add: ac_simps)
    qed
    have V2: "segment_view (cr0_wp s1) \<lparr>may_user = rd, may_write = wr, may_exec = ex\<rparr> m0 (ehdr + (offset + 2048)) (sz - 2048) (va + 2048) (view s1) = Some V"
      using V1(2) by (simp add: rt s1(5) add.assoc)
    obtain s2 d2 where s2: "load_segment (cr3_root s1) ehdr rd wr ex (sz - 2048) (offset + 2048) (va + 2048) s1 = Inr s2"
      "d2 \<le> segment_frames (sz - 2048)" "intact A m0 s2 (drop d2 (drop d ps))" "kept s1 s2" "view s2 = V"
      using less.hyps [OF lt s1(3) fr inA V2] by blast
    have "load_segment (cr3_root s) ehdr rd wr ex sz offset va s = Inr s2"
      using pos s1(1) s2(1) by (subst load_segment.simps) (simp add: rt)
    moreover have "d2 + d \<le> segment_frames sz" using s1(2) s2(2) segment_frames_step [OF 3] by simp
    moreover have "intact A m0 s2 (drop (d2 + d) ps)" using s2(3) by simp
    ultimately show ?thesis using kept_trans [OF s1(4) s2(4)] s2(5) by blast
  qed
qed


subsection \<open>The file\<close>

text \<open>The headers of \<open>elf.h\<close>, which are packed.\<close>

record Elf64_Ehdr =
  e_ident :: "u8 list"
  e_type :: u16
  e_machine :: u16
  e_version :: u32
  e_entry :: u64
  e_phoff :: u64
  e_shoff :: u64
  e_flags :: u32
  e_ehsize :: u16
  e_phentsize :: u16
  e_phnum :: u16
  e_shentsize :: u16
  e_shnum :: u16
  e_shstrndx :: u16

record Elf64_Phdr =
  p_type :: u32
  p_flags :: u32
  p_offset :: u64
  p_vaddr :: u64
  p_paddr :: u64
  p_filesz :: u64
  p_memsz :: u64
  p_align :: u64

definition load16 :: "mem \<Rightarrow> u64 \<Rightarrow> u16" where
  "load16 m a = ucast (load64 m a)"

definition load32 :: "mem \<Rightarrow> u64 \<Rightarrow> u32" where
  "load32 m a = ucast (load64 m a)"

lemma ucast_load: "ucast (load16 m a) = take_bit 16 (load64 m a)" "ucast (load32 m a) = take_bit 32 (load64 m a)"
  by (rule bit_word_eqI, auto simp: load16_def load32_def bits)+

lemma unat_up: "unat (ucast (x :: u32) :: u64) = unat x"
proof -
  have "unat x < 2 ^ LENGTH(32)" by (rule unsigned_less)
  then show ?thesis unfolding unsigned_ucast_eq by (intro take_bit_nat_eq_self) simp
qed

lemma ucast_is_1 [simp]: "(ucast (x :: u32) :: u64) = 1 \<longleftrightarrow> x = 1" and ucast_is_0: "(ucast x :: u64) = 0 \<longleftrightarrow> x = 0"
  using unat_up [of x] by (simp_all add: word_unat_eq_iff)

definition ehdr_in :: "mem \<Rightarrow> u64 \<Rightarrow> Elf64_Ehdr" where
  "ehdr_in m a = \<lparr>e_ident = map (\<lambda>i. m (a + of_nat i)) [0..<16], e_type = load16 m (a + 16), e_machine = load16 m (a + 18),
     e_version = load32 m (a + 20), e_entry = load64 m (a + 24), e_phoff = load64 m (a + 32), e_shoff = load64 m (a + 40),
     e_flags = load32 m (a + 48), e_ehsize = load16 m (a + 52), e_phentsize = load16 m (a + 54), e_phnum = load16 m (a + 56),
     e_shentsize = load16 m (a + 58), e_shnum = load16 m (a + 60), e_shstrndx = load16 m (a + 62)\<rparr>"

definition phdr_in :: "mem \<Rightarrow> u64 \<Rightarrow> Elf64_Phdr" where
  "phdr_in m a = \<lparr>p_type = load32 m a, p_flags = load32 m (a + 4), p_offset = load64 m (a + 8), p_vaddr = load64 m (a + 16),
     p_paddr = load64 m (a + 24), p_filesz = load64 m (a + 32), p_memsz = load64 m (a + 40), p_align = load64 m (a + 48)\<rparr>"

definition segment_rights :: "Elf64_Phdr \<Rightarrow> rights" where
  "segment_rights h = \<lparr>may_user = (p_flags h \<noteq> 0), may_write = bit (p_flags h) 1, may_exec = bit (p_flags h) 0\<rparr>"

definition header_view :: "bool \<Rightarrow> mem \<Rightarrow> u64 \<Rightarrow> Elf64_Phdr \<Rightarrow> uview \<Rightarrow> uview option" where
  "header_view wp m ehdr h V =
     (if p_type h = 1 then segment_view wp (segment_rights h) m (ehdr + p_offset h) (p_memsz h) (p_vaddr h) V else Some V)"

definition phdrs_in :: "mem \<Rightarrow> u64 \<Rightarrow> Elf64_Phdr list" where
  "phdrs_in m ehdr = map (\<lambda>i. phdr_in m (ehdr + e_phoff (ehdr_in m ehdr) + 56 * of_nat i)) [0..<unat (e_phnum (ehdr_in m ehdr))]"

primrec headers_view :: "bool \<Rightarrow> mem \<Rightarrow> u64 \<Rightarrow> Elf64_Phdr list \<Rightarrow> uview \<Rightarrow> uview option" where
  "headers_view wp m ehdr [] V = Some V"
| "headers_view wp m ehdr (h # hs) V = Option.bind (header_view wp m ehdr h V) (headers_view wp m ehdr hs)"

definition stack_rights :: "bool \<Rightarrow> rights" where
  "stack_rights usr = \<lparr>may_user = usr, may_write = True, may_exec = False\<rparr>"

text \<open>The stack of four pages, the test page and the page that only the kernel may use.\<close>

definition stack_view :: "uview \<Rightarrow> uview" where
  "stack_view V = map_view 0x400001800 (stack_rights False) (map_view 0x400000000 (stack_rights True)
     (fold (\<lambda>k. map_view (0x70000000000 + k * 0x1000) (stack_rights True)) [0, 1, 2, 3] V))"

definition program_view :: "bool \<Rightarrow> mem \<Rightarrow> u64 \<Rightarrow> uview \<Rightarrow> uview option" where
  "program_view wp m ehdr V = map_option stack_view (headers_view wp m ehdr (phdrs_in m ehdr) V)"

text \<open>The bytes of the file that are read, and the frames that are taken.\<close>

definition header_bytes :: "u64 \<Rightarrow> Elf64_Phdr \<Rightarrow> u64 set" where
  "header_bytes ehdr h = (if p_type h = 1 then {a. a - (ehdr + p_offset h) < p_memsz h} else {})"

definition program_bytes :: "mem \<Rightarrow> u64 \<Rightarrow> u64 set" where
  "program_bytes m ehdr = {a. a - ehdr < 64}
     \<union> (\<Union>i < unat (e_phnum (ehdr_in m ehdr)). {a. a - (ehdr + e_phoff (ehdr_in m ehdr) + 56 * of_nat i) < 56})
     \<union> (\<Union>h \<in> set (phdrs_in m ehdr). header_bytes ehdr h)"

definition header_frames :: "Elf64_Phdr \<Rightarrow> nat" where
  "header_frames h = (if p_type h = 1 then segment_frames (p_memsz h) else 0)"

definition program_frames :: "mem \<Rightarrow> u64 \<Rightarrow> nat" where
  "program_frames m ehdr = sum_list (map header_frames (phdrs_in m ehdr)) + 24"

lemma kload16_high:
  assumes "\<And>i. i < 2 \<Longrightarrow> high (a + i)"
  shows "kload16 s a = Inr (ucast (load16 (mem s) a))"
proof -
  have "kload16 s a = Inr (ucast (mem s a) OR push_bit 8 (ucast (mem s (a + 1))))"
    using assms [of 0] assms [of 1] by (simp add: kload_pos kload8_Inr)
  also have "\<dots> = Inr (ucast (load16 (mem s) a))"
    unfolding ucast_load
    by (rule arg_cong [where f = Inr], rule bit_word_eqI)
      (auto simp: bit_load64 bits less_diff_conv2 not_less dest: bit_u8_less)
  finally show ?thesis .
qed

lemma kload_intact:
  assumes "intact A m0 s ps" "\<And>i. i < 8 \<Longrightarrow> a + i \<in> A"
  shows "kload64 s a = Inr (load64 m0 a)" "kload32 s a = Inr (ucast (load32 m0 a))" "kload16 s a = Inr (ucast (load16 m0 a))"
proof -
  have h: "high (a + i)" "mem s (a + i) = m0 (a + i)" if "i < 8" for i
    using assms(1) assms(2) [OF that] by (auto simp: intact_def foreign_def)
  have l: "load64 (mem s) a = load64 m0 a" by (rule load64_cong) (rule h(2))
  show "kload64 s a = Inr (load64 m0 a)" using h(1) l by (simp add: kload64_high)
  have "high (a + i)" if "i < 4" for i using h(1) less_trans [OF that, of 8] by simp
  then show "kload32 s a = Inr (ucast (load32 m0 a))" using l by (simp add: kload32_high ucast_load)
  have "high (a + i)" if "i < 2" for i using h(1) less_trans [OF that, of 8] by simp
  then show "kload16 s a = Inr (ucast (load16 m0 a))" using l by (simp add: kload16_high load16_def)
qed


subsection \<open>Loading the file\<close>

lemma flag_bits: "drop_bit 1 ((x :: u64) AND 2) \<noteq> 0 \<longleftrightarrow> bit x 1" "(x :: u64) AND 1 \<noteq> 0 \<longleftrightarrow> bit x 0"
proof -
  have "bit (drop_bit 1 (x AND 2)) n \<longleftrightarrow> n = 0 \<and> bit x 1" for n
    by (auto simp: bit_drop_bit_eq bit_and_iff bit_2_iff bit_1_iff)
  then show "drop_bit 1 (x AND 2) \<noteq> 0 \<longleftrightarrow> bit x 1" by (metis bit_0_eq bit_eqI bot_apply bot_bool_def)
  have "bit (x AND 1) n \<longleftrightarrow> n = 0 \<and> bit x 0" for n
    by (auto simp: bit_and_iff bit_1_iff)
  then show "x AND 1 \<noteq> 0 \<longleftrightarrow> bit x 0" by (metis bit_0_eq bit_eqI bot_apply bot_bool_def)
qed

lemma header_step:
  fixes m0 phdr i
  defines "h \<equiv> phdr_in m0 (phdr + 56 * of_nat i)"
  assumes k: "intact A m0 s ps" and len: "header_frames h \<le> length ps" and A: "header_bytes ehdr h \<subseteq> A"
    and ph: "\<And>k. k < 56 \<Longrightarrow> phdr + 56 * of_nat i + k \<in> A"
    and V: "header_view (cr0_wp s) m0 ehdr h (view s) = Some V"
  shows "\<exists>s' d. load_header (cr3_root s) ehdr phdr i s () = Inr (s', ()) \<and> d \<le> header_frames h
    \<and> intact A m0 s' (drop d ps) \<and> kept s s' \<and> view s' = V"
proof -
  let ?ph = "phdr + 56 * of_nat i"
  have at: "?ph + c + j \<in> A" if "j < 8" "c \<in> {0, 4, 8, 16, 40}" for c j
  proof -
    have "c + j < 56" using that by unat_arith
    from ph [OF this] show ?thesis by (simp add: add.assoc)
  qed
  note ld = kload_intact [OF k at]
  have f: "kload32 s ?ph = Inr (ucast (p_type h))" "kload64 s (?ph + 40) = Inr (p_memsz h)" "kload64 s (?ph + 8) = Inr (p_offset h)"
    "kload64 s (?ph + 16) = Inr (p_vaddr h)" "kload32 s (?ph + 4) = Inr (ucast (p_flags h))"
    using ld(2) [of 0] ld(1) [of 40] ld(1) [of 8] ld(1) [of 16] ld(2) [of 4] by (simp_all add: h_def phdr_in_def)
  show ?thesis
  proof (cases "p_type h = 1")
    case False
    then have "load_header (cr3_root s) ehdr phdr i s () = Inr (s, ())" "V = view s"
      using V f(1) by (simp_all add: load_header_def Let_def header_view_def)
    then show ?thesis using k by (intro exI [of _ s] exI [of _ 0]) simp
  next
    case True
    have sz: "segment_frames (p_memsz h) \<le> length ps" using len True by (simp add: header_frames_def)
    have src: "ehdr + p_offset h + k \<in> A" if "k < p_memsz h" for k
      using A True that by (auto simp: header_bytes_def)
    have V': "segment_view (cr0_wp s) \<lparr>may_user = (p_flags h \<noteq> 0), may_write = bit (p_flags h) 1, may_exec = bit (p_flags h) 0\<rparr>
        m0 (ehdr + p_offset h) (p_memsz h) (p_vaddr h) (view s) = Some V"
      using V True by (simp add: header_view_def segment_rights_def)
    obtain s' d where s': "load_segment (cr3_root s) ehdr (p_flags h \<noteq> 0) (bit (p_flags h) 1) (bit (p_flags h) 0) (p_memsz h) (p_offset h) (p_vaddr h) s = Inr s'"
      "d \<le> segment_frames (p_memsz h)" "intact A m0 s' (drop d ps)" "kept s s'" "view s' = V"
      using segment_step [OF k sz src V'] by blast
    have rd: "(if (ucast (p_flags h) :: u64) = 0 then False else True) \<longleftrightarrow> p_flags h \<noteq> 0" by (simp add: ucast_is_0)
    have fl: "bit (ucast (p_flags h) :: u64) 1 = bit (p_flags h) 1" "bit (ucast (p_flags h) :: u64) 0 = bit (p_flags h) 0" by (simp_all add: bits)
    have ty: "(ucast (p_type h) :: u64) = 1" using True by simp
    have "load_header (cr3_root s) ehdr phdr i s () = Inr (s', ())"
      unfolding load_header_def Let_def by (simp only: f ty bindf_simps if_True rd flag_bits fl s'(1)) simp
    then show ?thesis using s'(2-5) True by (auto simp: header_frames_def)
  qed
qed

lemma headers_step:
  fixes m0 phdr
  defines "hd_at \<equiv> \<lambda>i. phdr_in m0 (phdr + 56 * of_nat i)"
  assumes cnt: "\<And>s ps. intact A m0 s ps \<Longrightarrow> count s = Inr (of_nat n)" and n: "n < 2 ^ 16"
    and A: "\<And>i. i < n \<Longrightarrow> header_bytes ehdr (hd_at i) \<subseteq> A"
    and ph: "\<And>i k. i < n \<Longrightarrow> k < 56 \<Longrightarrow> phdr + 56 * of_nat i + k \<in> A"
  shows "intact A m0 s ps \<Longrightarrow> i \<le> n \<Longrightarrow> sum_list (map header_frames (map hd_at [i..<n])) \<le> length ps \<Longrightarrow>
    headers_view (cr0_wp s) m0 ehdr (map hd_at [i..<n]) (view s) = Some V \<Longrightarrow>
    \<exists>s' d. steps_below count (load_header (cr3_root s) ehdr phdr) i s () = Inr (s', ())
      \<and> d \<le> sum_list (map header_frames (map hd_at [i..<n])) \<and> intact A m0 s' (drop d ps) \<and> kept s s' \<and> view s' = V"
proof (induction "n - i" arbitrary: i s ps)
  case 0
  then have "i = n" by simp
  then have "steps_below count (load_header (cr3_root s) ehdr phdr) i s () = Inr (s, ())" "V = view s"
    using 0 cnt [OF 0(2)] by (simp_all add: steps_below.simps [of count])
  then show ?case using 0 by (intro exI [of _ s] exI [of _ 0]) simp
next
  case (Suc k)
  then have i: "i < n" by simp
  have upt: "map hd_at [i..<n] = hd_at i # map hd_at [i + 1..<n]" using i by (simp add: upt_conv_Cons)
  obtain V1 where V1: "header_view (cr0_wp s) m0 ehdr (hd_at i) (view s) = Some V1"
    "headers_view (cr0_wp s) m0 ehdr (map hd_at [i + 1..<n]) V1 = Some V"
    using Suc.prems(4) unfolding upt by (auto simp: bind_eq_Some_conv)
  have fr: "header_frames (hd_at i) + sum_list (map header_frames (map hd_at [i + 1..<n])) \<le> length ps"
    using Suc.prems(3) unfolding upt by simp
  then have len: "header_frames (hd_at i) \<le> length ps" by simp
  obtain s1 d where s1: "load_header (cr3_root s) ehdr phdr i s () = Inr (s1, ())" "d \<le> header_frames (hd_at i)"
    "intact A m0 s1 (drop d ps)" "kept s s1" "view s1 = V1"
    using header_step [OF Suc.prems(1) len [unfolded hd_at_def] A [OF i, unfolded hd_at_def] ph [OF i] V1(1) [unfolded hd_at_def]]
    unfolding hd_at_def by blast
  have rt: "cr3_root s1 = cr3_root s" "cr0_wp s1 = cr0_wp s" using s1(4) cr3_root_kept [OF s1(4)] by (simp_all add: kept_def)
  have "sum_list (map header_frames (map hd_at [i + 1..<n])) \<le> length (drop d ps)" using fr s1(2) by simp
  moreover have "headers_view (cr0_wp s1) m0 ehdr (map hd_at [i + 1..<n]) (view s1) = Some V" using V1(2) s1(5) rt by simp
  moreover have "k = n - (i + 1)" "i + 1 \<le> n" using Suc.hyps(2) i by simp_all
  ultimately obtain s2 d2 where s2: "steps_below count (load_header (cr3_root s) ehdr phdr) (i + 1) s1 () = Inr (s2, ())"
    "d2 \<le> sum_list (map header_frames (map hd_at [i + 1..<n]))" "intact A m0 s2 (drop d2 (drop d ps))" "kept s1 s2" "view s2 = V"
    using Suc.hyps(1) [of "i + 1" s1 "drop d ps"] s1(3) rt(1) by metis
  have "(of_nat i :: u64) < of_nat n" using i n of_nat_less_u64 [of i n] by simp
  then have "steps_below count (load_header (cr3_root s) ehdr phdr) i s () = Inr (s2, ())"
    using cnt [OF Suc.prems(1)] i n s1(1) s2(1) by (simp add: steps_below.simps [of count _ i])
  moreover have "d2 + d \<le> sum_list (map header_frames (map hd_at [i..<n]))" unfolding upt using s1(2) s2(2) by simp
  moreover have "intact A m0 s2 (drop (d2 + d) ps)" using s2(3) by simp
  ultimately show ?case using kept_trans [OF s1(4) s2(4)] s2(5) by blast
qed


lemma map_user_step:
  assumes "intact A m0 s ps" "p < 2 ^ 47" "4 \<le> length ps"
  shows "\<exists>s' d. map_user p usr s = Inr s' \<and> d \<le> 4 \<and> intact A m0 s' (drop d ps) \<and> kept s s' \<and> view s' = map_view p (stack_rights usr) (view s)"
proof -
  obtain b s' d where "vm_map (cr3_root s) p usr True False s = Inr (b, s')" "d \<le> 4" "intact A m0 s' (drop d ps)" "kept s s'"
    "view s' = map_view p (stack_rights usr) (view s)"
    by (rule map_step [OF assms, of usr True False]) (simp add: stack_rights_def)
  then show ?thesis by (auto simp: map_user_def)
qed

lemma map_users_step:
  "intact A m0 s ps \<Longrightarrow> \<forall>k \<in> set ks. b + k * 0x1000 < 2 ^ 47 \<Longrightarrow> 4 * length ks \<le> length ps \<Longrightarrow>
    \<exists>s' d. foldf (\<lambda>k. map_user (b + k * 0x1000) usr) ks s = Inr s' \<and> d \<le> 4 * length ks \<and> intact A m0 s' (drop d ps) \<and> kept s s'
      \<and> view s' = fold (\<lambda>k. map_view (b + k * 0x1000) (stack_rights usr)) ks (view s)"
proof (induction ks arbitrary: s ps)
  case Nil
  then show ?case by (intro exI [of _ s] exI [of _ 0]) simp
next
  case (Cons k ks)
  obtain s1 d where s1: "map_user (b + k * 0x1000) usr s = Inr s1" "d \<le> 4" "intact A m0 s1 (drop d ps)" "kept s s1"
    "view s1 = map_view (b + k * 0x1000) (stack_rights usr) (view s)"
    using map_user_step [OF Cons.prems(1)] Cons.prems(2,3) by fastforce
  have "4 * length ks \<le> length (drop d ps)" using Cons.prems(3) s1(2) by simp
  then obtain s2 d2 where s2: "foldf (\<lambda>k. map_user (b + k * 0x1000) usr) ks s1 = Inr s2" "d2 \<le> 4 * length ks"
    "intact A m0 s2 (drop d2 (drop d ps))" "kept s1 s2" "view s2 = fold (\<lambda>k. map_view (b + k * 0x1000) (stack_rights usr)) ks (view s1)"
    using Cons.IH [OF s1(3)] Cons.prems(2) by fastforce
  then show ?case
    using s1 kept_trans [OF s1(4) s2(4)] by (intro exI [of _ s2] exI [of _ "d2 + d"]) simp
qed

lemma word_add_diff_less: "(k :: u64) < n \<Longrightarrow> a + k - a < n"
  by simp

lemma start_mod_step:
  assumes k: "intact A m0 s ps" and A: "program_bytes m0 ehdr \<subseteq> A" and len: "program_frames m0 ehdr \<le> length ps"
    and V: "program_view (cr0_wp s) m0 ehdr (view s) = Some V"
  shows "\<exists>s' d. start_mod ehdr s = Inr (UserMode 0x43 0x70000003FF8 0x3B (e_entry (ehdr_in m0 ehdr)), s')
    \<and> intact A m0 s' (drop d ps) \<and> kept s s' \<and> view s' = V"
proof -
  define n where "n = unat (e_phnum (ehdr_in m0 ehdr))"
  define off where "off = e_phoff (ehdr_in m0 ehdr)"
  let ?phdr = "ehdr + off" and ?h = "\<lambda>i. phdr_in m0 (ehdr + off + 56 * of_nat i)"
  have hs: "phdrs_in m0 ehdr = map ?h [0..<n]" by (simp add: phdrs_in_def n_def off_def)
  have at: "ehdr + c + j \<in> A" if "j < 8" "c \<in> {24, 32, 56}" for c j
  proof -
    have "c + j < 64" using that by unat_arith
    then have "ehdr + (c + j) - ehdr < 64" by simp
    then have "ehdr + (c + j) \<in> program_bytes m0 ehdr" unfolding program_bytes_def by blast
    then show ?thesis using A by (auto simp: add.assoc)
  qed
  have phoff: "kload64 s' (ehdr + 32) = Inr off" "kload64 s' (ehdr + 24) = Inr (e_entry (ehdr_in m0 ehdr))" "kload16 s' (ehdr + 56) = Inr (of_nat n)"
    if "intact A m0 s' qs" for s' qs
    using kload_intact [OF that at] by (simp_all add: off_def n_def ehdr_in_def)
  have n: "n < 2 ^ 16"
  proof -
    have "unat (e_phnum (ehdr_in m0 ehdr)) < 2 ^ LENGTH(16)" by (rule unsigned_less)
    then show ?thesis by (simp add: n_def)
  qed
  have bytes: "header_bytes ehdr (?h i) \<subseteq> A" if "i < n" for i
  proof -
    have "?h i \<in> set (phdrs_in m0 ehdr)" using that by (simp add: hs)
    then show ?thesis using A unfolding program_bytes_def by blast
  qed
  have ph: "?phdr + 56 * of_nat i + k \<in> A" if "i < n" "k < 56" for i k
  proof -
    have "?phdr + 56 * of_nat i + k \<in> program_bytes m0 ehdr"
      unfolding program_bytes_def n_def [symmetric] off_def [symmetric] using that word_add_diff_less [OF that(2)] by blast
    then show ?thesis using A by blast
  qed
  obtain V1 where V1: "headers_view (cr0_wp s) m0 ehdr (map ?h [0..<n]) (view s) = Some V1" "V = stack_view V1"
    using V by (auto simp: program_view_def hs)
  have fr: "sum_list (map header_frames (map ?h [0..<n])) + 24 \<le> length ps" using len by (simp add: program_frames_def hs)
  then have fr': "sum_list (map header_frames (map ?h [0..<n])) \<le> length ps" by simp
  have "\<exists>s1 d1. steps_below (\<lambda>s. kload16 s (ehdr + 56)) (load_header (cr3_root s) ehdr ?phdr) 0 s () = Inr (s1, ())
    \<and> d1 \<le> sum_list (map header_frames (map ?h [0..<n])) \<and> intact A m0 s1 (drop d1 ps) \<and> kept s s1 \<and> view s1 = V1"
    by (rule headers_step [OF _ n bytes ph k _ fr' V1(1)]) (use phoff(3) in simp_all)
  then obtain s1 d1 where s1: "steps_below (\<lambda>s. kload16 s (ehdr + 56)) (load_header (cr3_root s) ehdr ?phdr) 0 s () = Inr (s1, ())"
    "d1 \<le> sum_list (map header_frames (map ?h [0..<n]))" "intact A m0 s1 (drop d1 ps)" "kept s s1" "view s1 = V1"
    by blast
  have "\<forall>k \<in> set [0, 1, 2, 3 :: u64]. 0x70000000000 + k * 0x1000 < 2 ^ 47" by simp
  moreover have "4 * length [0, 1, 2, 3 :: u64] \<le> length (drop d1 ps)" using fr s1(2) by simp
  ultimately obtain s2 d2 where s2: "foldf (\<lambda>k. map_user (0x70000000000 + k * 0x1000) True) [0, 1, 2, 3] s1 = Inr s2" "d2 \<le> 16"
    "intact A m0 s2 (drop d2 (drop d1 ps))" "kept s1 s2"
    "view s2 = fold (\<lambda>k. map_view (0x70000000000 + k * 0x1000) (stack_rights True)) [0, 1, 2, 3] V1"
    using map_users_step [OF s1(3), of "[0, 1, 2, 3]" "0x70000000000" True] s1(5) by auto
  have "4 \<le> length (drop d2 (drop d1 ps))" using fr s1(2) s2(2) by simp
  from map_user_step [OF s2(3) _ this, of "0x400000000" True]
  obtain s3 d3 where s3: "map_user 0x400000000 True s2 = Inr s3" "d3 \<le> 4" "intact A m0 s3 (drop d3 (drop d2 (drop d1 ps)))" "kept s2 s3"
    "view s3 = map_view 0x400000000 (stack_rights True) (view s2)" by auto
  have "4 \<le> length (drop d3 (drop d2 (drop d1 ps)))" using fr s1(2) s2(2) s3(2) by simp
  from map_user_step [OF s3(3) _ this, of "0x400001800" False]
  obtain s4 d4 where s4: "map_user 0x400001800 False s3 = Inr s4" "intact A m0 s4 (drop d4 (drop d3 (drop d2 (drop d1 ps))))" "kept s3 s4"
    "view s4 = map_view 0x400001800 (stack_rights False) (view s3)" by auto
  have "start_mod ehdr s = Inr (UserMode 0x43 0x70000003FF8 0x3B (e_entry (ehdr_in m0 ehdr)), s4)"
    by (simp add: start_mod_def Let_def phoff(1) [OF k] s1(1) s2(1) s3(1) s4(1) phoff(2) [OF s4(2)] del: foldf.simps)
  moreover have "view s4 = V" unfolding V1(2) stack_view_def s4(4) s3(5) s2(5) ..
  moreover have "intact A m0 s4 (drop (d4 + (d3 + (d2 + d1))) ps)" using s4(2) by (simp add: add.assoc)
  moreover have "kept s s4" using kept_trans [OF kept_trans [OF s1(4) s2(4)] kept_trans [OF s3(4) s4(3)]] .
  ultimately show ?thesis by blast
qed


subsection \<open>What cannot be loaded\<close>

lemma kresolve_view:
  assumes "intact A m s ps" "va < 2 ^ 47"
  shows "kresolve True s va = (case view s va of None \<Rightarrow> Inl (PageFault va)
    | Some (b, q) \<Rightarrow> if cr0_wp s \<and> \<not> may_write q then Inl (PageFault va) else kresolve True s va)"
proof -
  have "\<not> 0xffff800000000000 \<le> va" using assms(2) by unat_arith
  then show ?thesis using assms(2) by (auto simp: kresolve_def view_def split: option.split)
qed

lemma kmemcpy_prefix:
  "p \<le> j \<Longrightarrow> j \<le> n \<Longrightarrow> kmemcpy_loop va src j p s = Inr s' \<Longrightarrow> kmemcpy_loop va src n p s = kmemcpy_loop va src n j s'"
proof (induction va src j p s rule: kmemcpy_loop.induct)
  case (1 va src j p s)
  show ?case
  proof (cases "p < j")
    case False
    then have "p = j" "s' = s" using "1.prems" by (auto simp: kmemcpy_loop.simps [of va src j])
    then show ?thesis by simp
  next
    case True
    have "p < n" by (rule less_le_trans [OF True "1.prems"(2)])
    then show ?thesis
      using "1.IH" [OF True] "1.prems"(2,3) True inc_le [OF True]
      by (subst kmemcpy_loop.simps, subst (asm) (2) kmemcpy_loop.simps) (auto split: sum.splits)
  qed
qed

lemma kmemcpy_fault:
  assumes "intact A m s ps" "va + j < 2 ^ 47" "j < n" "src + j \<in> A"
    and "case view s (va + j) of None \<Rightarrow> True | Some (b, q) \<Rightarrow> cr0_wp s \<and> \<not> may_write q"
  shows "kmemcpy_loop va src n j s = Inl (PageFault (va + j))"
proof -
  have "kresolve True s (va + j) = Inl (PageFault (va + j))"
    using kresolve_view [OF assms(1,2)] assms(5) by (auto split: option.splits)
  moreover have "high (src + j)" using assms(1,4) by (simp add: intact_def foreign_def)
  ultimately show ?thesis using assms(3) by (subst kmemcpy_loop.simps) simp
qed

text \<open>A chunk that starts in a page that is read-only faults at its first byte.\<close>

lemma chunk_readonly:
  assumes k: "intact A m s ps" and va: "va < 2 ^ 47" and len: "4 \<le> length ps" and n: "0 < n" and src: "src \<in> A"
    and v: "view s va = Some (b, q)" "cr0_wp s" "\<not> may_write q"
  shows "load_chunk (cr3_root s) rd wr ex va src n s = Inl (PageFault va)"
proof -
  obtain b1 s1 d where s1: "vm_map (cr3_root s) va True True True s = Inr (b1, s1)" "intact A m s1 (drop d ps)" "kept s s1"
    "view s1 = map_view va \<lparr>may_user = True, may_write = True, may_exec = True\<rparr> (view s)"
    by (rule map_step [OF k va len, of True True True])
  have "view s1 va = Some (b, q)" by (simp add: s1(4) map_view_def v(1))
  then have "kmemcpy va src n s1 = Inl (PageFault va)"
    using kmemcpy_fault [OF s1(2), of va 0 n src] va n src v s1(3) by (simp add: kmemcpy_def kept_def)
  then show ?thesis by (simp add: load_chunk_def s1(1))
qed

text \<open>A chunk that goes on into a page that is not mapped faults at the start of that page.\<close>

lemma chunk_crossing:
  assumes k: "intact A m s ps" and low: "va < 2 ^ 47" and va: "page_of va + 4096 < 2 ^ 47" and len: "4 \<le> length ps" and src: "\<And>k. k < n \<Longrightarrow> src + k \<in> A"
    and cross: "4096 < unat (take_bit 12 va) + unat n" and n: "n \<le> 4096"
    and v: "case view s va of None \<Rightarrow> True | Some (b, q) \<Rightarrow> may_write q \<or> \<not> cr0_wp s" "view s (page_of va + 4096) = None"
  shows "load_chunk (cr3_root s) rd wr ex va src n s = Inl (PageFault (page_of va + 4096))"
proof -
  define j where "j = 4096 - take_bit 12 va"
  have off: "take_bit 12 va < 4096" by (rule offset_less)
  have vj: "va + j = page_of va + 4096" using arg_cong [OF page_of_split(2) [of va], of "\<lambda>x. x + j"] by (simp add: j_def)
  have uj: "unat j = 4096 - unat (take_bit 12 va)" using off by (simp add: j_def unat_sub word_less_nat_alt word_le_nat_alt)
  then have jn: "j < n" using cross off unfolding word_less_nat_alt by simp
  have pg: "drop_bit 12 (page_of va + 4096) \<noteq> drop_bit 12 va"
  proof
    assume "drop_bit 12 (page_of va + 4096) = drop_bit 12 va"
    then have "page_of va + 4096 = page_of va + take_bit 12 (page_of va + 4096)"
      using bits_ident [of 12 "page_of va + 4096"] page_of_split(1,3) [of va] bits_ident [of 12 "page_of va"] by (simp add: page_aligned_def)
    then show False using offset_less [of "page_of va + 4096"] by simp
  qed
  obtain b1 s1 d where s1: "vm_map (cr3_root s) va True True True s = Inr (b1, s1)" "intact A m s1 (drop d ps)" "kept s s1"
    "view s1 = map_view va all_rights (view s)"
    by (rule map_step [OF k low len, of True True True]) (simp add: all_rights_def)
  have "cr0_wp s1 = cr0_wp s" using s1(3) by (simp add: kept_def)
  then obtain b q where v1: "view s1 va = Some (b, q)" "may_write q \<or> \<not> cr0_wp s1"
    using v(1) by (cases "view s va") (auto simp: s1(4) map_view_def all_rights_def)
  have v2: "view s1 (page_of va + 4096) = None" using pg by (simp add: s1(4) map_view_def v(2))
  have "unat (take_bit 12 va) + unat j \<le> 4096" using uj off by (simp add: word_less_nat_alt)
  moreover have "src + k \<in> A" if "k < j" for k using src less_trans [OF that jn] by blast
  ultimately obtain s2 where s2: "kmemcpy va src j s1 = Inr s2" "intact A m s2 (drop d ps)" "kept s1 s2"
    "view s2 = copy_view va j (\<lambda>k. m (src + k)) (view s1)"
    using copy_step [OF s1(2) low _ v1, of j src] by auto
  have "view s2 (va + j) = None" by (simp add: s2(4) vj copy_view_def v2)
  then have "kmemcpy_loop va src n j s2 = Inl (PageFault (va + j))"
    using kmemcpy_fault [OF s2(2) _ jn src [OF jn]] va vj by simp
  then have "kmemcpy va src n s1 = Inl (PageFault (page_of va + 4096))"
    using kmemcpy_prefix [of 0 j n va src s1 s2] s2(1) jn vj by (simp add: kmemcpy_def)
  then show ?thesis by (simp add: load_chunk_def s1(1))
qed

text \<open>After the chunks that load, the next one decides.\<close>

lemma unat_less: "unat (x :: u64) < 2 ^ 64"
proof -
  have "unat x < 2 ^ LENGTH(64)" by (rule unsigned_less)
  then show ?thesis by simp
qed

lemma chunk_bytes: "2048 * k \<le> unat (sz :: u64) \<Longrightarrow> unat (2048 * of_nat k :: u64) = 2048 * k"
proof -
  assume "2048 * k \<le> unat sz"
  then have "unat (of_nat (2048 * k) :: u64) = 2048 * k" using unat_less [of sz] unfolding unat_of_nat by (simp add: take_bit_nat_eq_self)
  then show ?thesis by simp
qed

lemma load_segment_split:
  "2048 * k \<le> unat sz \<Longrightarrow> load_segment root ehdr rd wr ex sz offset va s =
     bindf (load_segment root ehdr rd wr ex (2048 * of_nat k) offset va s)
       (load_segment root ehdr rd wr ex (sz - 2048 * of_nat k) (offset + 2048 * of_nat k) (va + 2048 * of_nat k))"
proof (induction k arbitrary: sz offset va s)
  case 0
  then show ?case by (simp add: load_segment.simps [of _ _ _ _ _ 0])
next
  case (Suc k)
  let ?c = "2048 * of_nat (Suc k) :: u64"
  have c: "unat ?c = 2048 * Suc k" by (rule chunk_bytes [OF Suc.prems])
  have sz: "0 < sz" "\<not> sz < 2048" "2048 \<le> sz" using Suc.prems by (auto simp: word_less_nat_alt word_le_nat_alt)
  have pos: "0 < ?c" "\<not> ?c < 2048" using c by (simp_all only: word_less_nat_alt) simp_all
  have "2048 * k \<le> unat (sz - 2048)" using Suc.prems sz(3) by (simp add: unat_sub)
  note IH = Suc.IH [OF this]
  have c': "?c - 2048 = 2048 * of_nat k" by simp
  have "load_segment root ehdr rd wr ex sz offset va s
      = bindf (load_chunk root rd wr ex va (ehdr + offset) 2048 s) (load_segment root ehdr rd wr ex (sz - 2048) (offset + 2048) (va + 2048))"
    using sz by (subst load_segment.simps) simp
  moreover have "load_segment root ehdr rd wr ex ?c offset va s
      = bindf (load_chunk root rd wr ex va (ehdr + offset) 2048 s) (load_segment root ehdr rd wr ex (2048 * of_nat k) (offset + 2048) (va + 2048))"
    using pos by (subst load_segment.simps) (simp del: of_nat_Suc add: c')
  ultimately show ?case
    by (cases "load_chunk root rd wr ex va (ehdr + offset) 2048 s") (simp_all add: IH add.assoc diff_diff_eq algebra_simps)
qed

lemma load_segment_stuck:
  assumes "load_segment root ehdr rd wr ex (2048 * of_nat k) offset va s = Inr s1" "2048 * k < unat sz"
    and "load_chunk root rd wr ex (va + 2048 * of_nat k) (ehdr + offset + 2048 * of_nat k)
      (if unat sz - 2048 * k < 2048 then sz - 2048 * of_nat k else 2048) s1 = Inl e"
  shows "load_segment root ehdr rd wr ex sz offset va s = Inl e"
proof -
  have "unat (2048 * of_nat k :: u64) = 2048 * k" using assms(2) by (intro chunk_bytes [of _ sz]) simp
  then have n: "unat (sz - 2048 * of_nat k) = unat sz - 2048 * k"
    using assms(2) by (subst unat_sub) (simp_all add: word_le_nat_alt)
  have "0 < sz - 2048 * of_nat k" "sz - 2048 * of_nat k < 2048 \<longleftrightarrow> unat sz - 2048 * k < 2048"
    using assms(2) by (simp_all add: word_less_nat_alt n)
  then have "load_segment root ehdr rd wr ex (sz - 2048 * of_nat k) (offset + 2048 * of_nat k) (va + 2048 * of_nat k) s1 = Inl e"
    using assms(3) by (subst load_segment.simps) (auto simp: add.assoc split: if_splits)
  then show ?thesis using load_segment_split [of k sz] assms(1,2) by simp
qed

text \<open>The first page of a read-only segment is protected after its first chunk.\<close>

lemma readonly_second_chunk:
  assumes "intact A m s ps" "va < 2 ^ 47" "8 \<le> length ps" "view s va = None" "\<And>k. k < sz \<Longrightarrow> ehdr + offset + k \<in> A"
    and a: "cr0_wp s \<and> 2048 < sz \<and> unat (take_bit 12 va) + 2048 < 4096"
  shows "load_segment (cr3_root s) ehdr rd False ex sz offset va s = Inl (PageFault (va + 2048))"
proof -
  let ?r = "\<lparr>may_user = rd, may_write = False, may_exec = ex\<rparr>"
  have big: "0 < sz" "\<not> sz < 2048" "0 < sz - 2048" using a by unat_arith+
  have "4 \<le> length ps" using assms(3) by simp
  moreover have src: "ehdr + offset + k \<in> A" if "k \<le> 2048" for k
    using assms(5) le_less_trans [OF that, of sz] a by blast
  moreover have "chunk_view (cr0_wp s) ?r m (ehdr + offset) 2048 va (view s) =
      Some (protect_view va ?r (copy_view va 2048 (\<lambda>k. m (ehdr + offset + k)) (map_view va all_rights (view s))))" (is "_ = Some ?V")
    using assms(2,4) a by (simp add: chunk_view_def)
  ultimately obtain s1 d where s1: "load_chunk (cr3_root s) rd False ex va (ehdr + offset) 2048 s = Inr s1" "d \<le> 4"
    "intact A m s1 (drop d ps)" "kept s s1" "view s1 = ?V"
    by (rule chunk_step [OF assms(1)]) (use src less_imp_le in blast)+
  have in_page: "take_bit 12 va + 2048 < 4096" using a by (simp add: word_less_nat_alt unat_word_ariths)
  have pg: "drop_bit 12 (va + 2048) = drop_bit 12 va" "va + 2048 < 2 ^ 47" by (rule in_page_add [OF assms(2) in_page])+
  then have v: "view s1 (va + 2048) = Some (0, ?r)"
    by (simp add: s1(5) protect_view_def copy_view_def map_view_def assms(4))
  have rt: "cr3_root s1 = cr3_root s" "cr0_wp s1" using s1(4) cr3_root_kept [OF s1(4)] a by (simp_all add: kept_def)
  have len: "4 \<le> length (drop d ps)" using assms(3) s1(2) by simp
  have "load_chunk (cr3_root s) rd False ex (va + 2048) (ehdr + (offset + 2048)) n s1 = Inl (PageFault (va + 2048))" if "0 < n" for n
    using chunk_readonly [OF s1(3) pg(2) len that _ v rt(2), of "ehdr + (offset + 2048)" rd False ex] src [of 2048] rt(1)
    by (simp add: add.assoc)
  moreover have "0 < (2048 :: u64)" by simp
  ultimately show "load_segment (cr3_root s) ehdr rd False ex sz offset va s = Inl (PageFault (va + 2048))"
    using big s1(1) by (subst load_segment.simps, simp, subst load_segment.simps) simp
qed

lemma chunk_stuck:
  assumes k: "intact A m s ps" and va: "va < 2 ^ 47" and len: "4 \<le> length ps" and n: "0 < n" "n \<le> 2048" and src: "\<And>k. k < n \<Longrightarrow> src + k \<in> A"
  shows "cr0_wp s \<Longrightarrow> view s va = Some (b, q) \<Longrightarrow> \<not> may_write q
      \<Longrightarrow> load_chunk (cr3_root s) rd wr ex va src n s = Inl (PageFault va)"
    and "page_of va + 4096 < 2 ^ 47 \<Longrightarrow> 4096 < unat (take_bit 12 va) + unat n \<Longrightarrow> view s (page_of va + 4096) = None
      \<Longrightarrow> case view s va of None \<Rightarrow> True | Some (b, q) \<Rightarrow> may_write q \<or> \<not> cr0_wp s
      \<Longrightarrow> load_chunk (cr3_root s) rd wr ex va src n s = Inl (PageFault (page_of va + 4096))"
proof -
  have "src \<in> A" using src [of 0] n(1) by simp
  then show "cr0_wp s \<Longrightarrow> view s va = Some (b, q) \<Longrightarrow> \<not> may_write q
      \<Longrightarrow> load_chunk (cr3_root s) rd wr ex va src n s = Inl (PageFault va)"
    using chunk_readonly [OF k va len n(1)] by blast
  have "n \<le> 4096" using order_trans [OF n(2), of 4096] by simp
  then show "page_of va + 4096 < 2 ^ 47 \<Longrightarrow> 4096 < unat (take_bit 12 va) + unat n \<Longrightarrow> view s (page_of va + 4096) = None
      \<Longrightarrow> case view s va of None \<Rightarrow> True | Some (b, q) \<Rightarrow> may_write q \<or> \<not> cr0_wp s
      \<Longrightarrow> load_chunk (cr3_root s) rd wr ex va src n s = Inl (PageFault (page_of va + 4096))"
    using chunk_crossing [OF k va _ len src] by blast
qed

text \<open>
  C36: what \<open>execute_mod\<close> cannot load. A read-only segment whose first 2048 bytes end before its first page
  does, and that goes on, faults with \<open>CR0.WP\<close> set at its byte 2048: the page is protected after the first chunk.
  In general, when k chunks of a segment are loaded and bytes are left, the kernel takes a page fault at the
  first byte of the next chunk if it lies in a page that is read-only (with \<open>CR0.WP\<close> set), and, if the
  chunk begins in a page that is not mapped or can be written and goes on into one that is not mapped, at
  the start of the latter, because only the page of a chunk's first byte is mapped.
\<close>

theorem load_segment_faults:
  assumes "intact A m s ps" "8 \<le> length ps" "\<And>j. j < sz \<Longrightarrow> ehdr + offset + j \<in> A"
  shows "(cr0_wp s \<and> 2048 < sz \<and> va < 2 ^ 47 \<and> unat (take_bit 12 va) + 2048 < 4096 \<and> view s va = None
      \<longrightarrow> load_segment (cr3_root s) ehdr rd False ex sz offset va s = Inl (PageFault (va + 2048)))
    \<and> (\<forall>k s1 ps1 x y. load_segment (cr3_root s) ehdr rd wr ex (2048 * of_nat k) offset va s = Inr s1 \<and> 2048 * k < unat sz
        \<and> intact A m s1 ps1 \<and> cr3_root s1 = cr3_root s \<and> 4 \<le> length ps1 \<and> x = va + 2048 * of_nat k \<and> x < 2 ^ 47 \<and> y = page_of x + 4096
      \<longrightarrow> (\<forall>b q. cr0_wp s1 \<and> view s1 x = Some (b, q) \<and> \<not> may_write q
            \<longrightarrow> load_segment (cr3_root s) ehdr rd wr ex sz offset va s = Inl (PageFault x))
        \<and> (y < 2 ^ 47 \<and> 4096 < unat (take_bit 12 x) + min (unat sz - 2048 * k) 2048 \<and> view s1 y = None
            \<and> (case view s1 x of None \<Rightarrow> True | Some (b, q) \<Rightarrow> may_write q \<or> \<not> cr0_wp s1)
            \<longrightarrow> load_segment (cr3_root s) ehdr rd wr ex sz offset va s = Inl (PageFault y)))"
proof (intro conjI allI impI)
  assume "cr0_wp s \<and> 2048 < sz \<and> va < 2 ^ 47 \<and> unat (take_bit 12 va) + 2048 < 4096 \<and> view s va = None"
  then show "load_segment (cr3_root s) ehdr rd False ex sz offset va s = Inl (PageFault (va + 2048))"
    using readonly_second_chunk [OF assms(1) _ assms(2) _ assms(3)] by blast
next
  fix k s1 ps1 x y
  assume h: "load_segment (cr3_root s) ehdr rd wr ex (2048 * of_nat k) offset va s = Inr s1 \<and> 2048 * k < unat sz
    \<and> intact A m s1 ps1 \<and> cr3_root s1 = cr3_root s \<and> 4 \<le> length ps1 \<and> x = va + 2048 * of_nat k \<and> x < 2 ^ 47 \<and> y = page_of x + 4096"
  let ?n = "if unat sz - 2048 * k < 2048 then sz - 2048 * of_nat k else 2048"
  have "unat (2048 * of_nat k :: u64) = 2048 * k" using h by (intro chunk_bytes [of _ sz]) simp
  then have n: "unat (sz - 2048 * of_nat k) = unat sz - 2048 * k" "unat ?n = min (unat sz - 2048 * k) 2048"
    and k: "unat (2048 * of_nat k :: u64) = 2048 * k"
    using h by (auto simp: unat_sub word_le_nat_alt)
  have n': "0 < ?n" "?n \<le> 2048" using h by (auto simp: word_less_nat_alt word_le_nat_alt n(1))
  have src: "ehdr + offset + 2048 * of_nat k + j \<in> A" if "j < ?n" for j
  proof -
    have "unat j < unat sz - 2048 * k" using that n(2) by (simp add: word_less_nat_alt del: if_split)
    then have lt: "2048 * k + unat j < unat sz" by linarith
    then have "2048 * k + unat j < 2 ^ 64" using unat_less [of sz] by linarith
    then have "unat (2048 * of_nat k + j) = 2048 * k + unat j" using unat_add_lem [of "2048 * of_nat k" j] by (simp add: k)
    then have "2048 * of_nat k + j < sz" using lt by (simp add: word_less_nat_alt)
    from assms(3) [OF this] show ?thesis by (simp add: add.assoc)
  qed
  note stuck = chunk_stuck [where A = A and m = m and s = s1 and ps = ps1 and va = x, OF _ _ _ n' src]
  note fault = load_segment_stuck [OF conjunct1 [OF h]]
  { fix b q
    assume "cr0_wp s1 \<and> view s1 x = Some (b, q) \<and> \<not> may_write q"
    then show "load_segment (cr3_root s) ehdr rd wr ex sz offset va s = Inl (PageFault x)"
      using fault stuck(1) h by metis }
  assume "y < 2 ^ 47 \<and> 4096 < unat (take_bit 12 x) + min (unat sz - 2048 * k) 2048 \<and> view s1 y = None
    \<and> (case view s1 x of None \<Rightarrow> True | Some (b, q) \<Rightarrow> may_write q \<or> \<not> cr0_wp s1)"
  then show "load_segment (cr3_root s) ehdr rd wr ex sz offset va s = Inl (PageFault y)"
    using fault stuck(2) h n(2) by metis
qed

lemma load_segment_faults_witness:
  "load_segment 0x1000 0xffffffff80100000 True False True 2049 0 0x400000 spare = Inl (PageFault 0x400800)
   \<and> load_segment 0x1000 0xffffffff80100000 True True False 0x200 0 0x400F00 spare = Inl (PageFault 0x401000)"
proof -
  have area: "0xffffffff80100000 + 0 + k \<in> kernel_area" if "k < n" "n \<le> 2049" for k n :: u64
  proof -
    have "k < 2049" using that by (rule less_le_trans)
    then have "(0xffffffff80100000 :: u64) \<le> 0xffffffff80100000 + k"
      by (simp add: word_le_nat_alt word_less_nat_alt unat_word_ariths)
    from order_trans [OF _ this] show ?thesis by (simp add: kernel_area_def)
  qed
  have len: "8 \<le> length (rev spare_frames @ sample_frames)" by (simp add: spare_frames_def indices_def)
  have "load_segment (cr3_root spare) 0xffffffff80100000 True False True 2049 0 0x400000 spare = Inl (PageFault (0x400000 + 2048))"
    using conjunct1 [OF load_segment_faults [OF spare_intact len area, where va = "0x400000" and sz = 2049 and rd = True and ex = True]]
    by (simp add: spare_view take_bit_eq_mod)
  moreover have "load_segment (cr3_root spare) 0xffffffff80100000 True True False (2048 * of_nat 0) 0 0x400F00 spare = Inr spare"
    by (simp add: load_segment.simps)
  then have "load_segment (cr3_root spare) 0xffffffff80100000 True True False 0x200 0 0x400F00 spare = Inl (PageFault (page_of 0x400F00 + 4096))"
    using conjunct2 [OF load_segment_faults [OF spare_intact len area, where va = "0x400F00" and sz = "0x200" and rd = True and wr = True and ex = False],
        THEN spec [where x = 0], THEN spec [where x = spare], THEN spec [where x = "rev spare_frames @ sample_frames"],
        THEN spec [where x = "0x400F00"], THEN spec [where x = "page_of 0x400F00 + 4096"]] spare_intact len
    by (simp add: spare_view take_bit_eq_mod page_of_def)
  ultimately show ?thesis by (simp add: page_of_def)
qed

end
