(* ===== verification/Elf_Image.thy ===== *)
theory Elf_Image
  imports Execute
begin

text \<open>
  What an ELF file describes, address by address, as the System V ABI has it: a loadable segment puts
  \<open>p_filesz\<close> bytes of the file at \<open>p_vaddr\<close> and zeros after them up to \<open>p_memsz\<close>, with the permissions of the
  segment on every page it touches; nothing else is there but the stack and the two test pages. \<open>loadable\<close>
  says which files the chunks of 2048 bytes of \<open>execute_mod\<close> load like that; for these, \<open>program_view\<close>, the effect of
  the chunks, is \<open>elf_view\<close>.
\<close>

definition in_pages :: "u64 \<Rightarrow> u64 \<Rightarrow> u64 \<Rightarrow> bool" where
  "in_pages va sz x \<longleftrightarrow> 0 < sz \<and> unat va div 4096 \<le> unat x div 4096 \<and> unat x div 4096 \<le> (unat va + unat sz - 1) div 4096"

definition elf_page :: "Elf64_Phdr \<Rightarrow> u64 \<Rightarrow> bool" where
  "elf_page h x \<longleftrightarrow> p_type h = 1 \<and> in_pages (p_vaddr h) (p_memsz h) x"

definition elf_byte :: "mem \<Rightarrow> u64 \<Rightarrow> Elf64_Phdr \<Rightarrow> u64 \<Rightarrow> u8" where
  "elf_byte m ehdr h x = (if x - p_vaddr h < p_filesz h then m (ehdr + p_offset h + (x - p_vaddr h)) else 0)"

text \<open>The stack of 16 KiB, the test page, and the page that only the kernel may use.\<close>

definition extra_view :: uview where
  "extra_view x =
     (if 0x70000000000 \<le> x \<and> x < 0x70000004000 \<or> 0x400000000 \<le> x \<and> x < 0x400001000 then Some (0, stack_rights True)
      else if 0x400001000 \<le> x \<and> x < 0x400002000 then Some (0, stack_rights False) else None)"

definition elf_view :: "mem \<Rightarrow> u64 \<Rightarrow> uview" where
  "elf_view m ehdr x =
     (case find (\<lambda>h. elf_page h x) (phdrs_in m ehdr) of
        Some h \<Rightarrow> Some (elf_byte m ehdr h x, segment_rights h)
      | None \<Rightarrow> extra_view x)"

text \<open>
  A segment with no zeros to fill, or whose zeros are there in the file, whose chunks do not cross a page, and, where the kernel cannot write to
  a page that is already read-only, of one chunk if it is read-only; no two segments share a page.
\<close>

definition chunks_fit :: "bool \<Rightarrow> bool \<Rightarrow> u64 \<Rightarrow> u64 \<Rightarrow> bool" where
  "chunks_fit wp wr va sz \<longleftrightarrow> unat va + unat sz \<le> 2 ^ 47
     \<and> (if sz \<le> 2048 then unat (take_bit 12 va) + unat sz \<le> 4096 else take_bit 11 va = 0 \<and> (wr \<or> \<not> wp))"

definition segment_fits :: "bool \<Rightarrow> mem \<Rightarrow> u64 \<Rightarrow> Elf64_Phdr \<Rightarrow> bool" where
  "segment_fits wp m ehdr h \<longleftrightarrow> p_type h = 1 \<longrightarrow> p_filesz h \<le> p_memsz h \<and> chunks_fit wp (bit (p_flags h) 1) (p_vaddr h) (p_memsz h)
     \<and> (\<forall>k < p_memsz h. p_filesz h \<le> k \<longrightarrow> m (ehdr + p_offset h + k) = 0)"

definition loadable :: "bool \<Rightarrow> mem \<Rightarrow> u64 \<Rightarrow> bool" where
  "loadable wp m ehdr \<longleftrightarrow> (\<forall>h \<in> set (phdrs_in m ehdr). segment_fits wp m ehdr h)
     \<and> sorted_wrt (\<lambda>h k. \<forall>x. \<not> (elf_page h x \<and> elf_page k x)) (phdrs_in m ehdr)"

subsection \<open>Addresses as numbers\<close>

lemma page_number: "drop_bit 12 x = drop_bit 12 y \<longleftrightarrow> unat x div 4096 = unat (y :: u64) div 4096"
  by (simp add: word_unat_eq_iff unsigned_drop_bit_eq drop_bit_eq_div unat_div_distrib)

lemma diff_less:
  fixes x va n :: u64
  assumes "unat va + unat n \<le> 2 ^ 63"
  shows "x - va < n \<longleftrightarrow> unat va \<le> unat x \<and> unat x < unat va + unat n"
proof (cases "va \<le> x")
  case True
  then have "unat (x - va) = unat x - unat va" by (rule unat_sub)
  then show ?thesis using True by (auto simp: word_less_nat_alt word_le_nat_alt)
next
  case False
  define e where "e = x - va"
  have "\<not> e < n"
  proof
    assume "e < n"
    then have "unat va + unat e < 2 ^ 64" using assms by (simp add: word_less_nat_alt)
    then have "unat (va + e) = unat va + unat e" using unat_add_lem [of va e] by simp
    then show False using False by (simp add: e_def word_le_nat_alt)
  qed
  then show ?thesis using False by (simp add: e_def word_le_nat_alt)
qed

lemma same_page: "a \<le> x \<Longrightarrow> x < a + n \<Longrightarrow> a mod 4096 + n \<le> 4096 \<Longrightarrow> x div 4096 = a div (4096 :: nat)"
proof -
  assume h: "a \<le> x" "x < a + n" "a mod 4096 + n \<le> 4096"
  have "4096 * (a div 4096) + a mod 4096 = a" by simp
  then have "4096 * (a div 4096) \<le> x" "x < 4096 * (a div 4096) + 4096" using h by linarith+
  then show ?thesis by (intro div_nat_eqI) simp_all
qed

lemma half_offset: "a mod 2048 = 0 \<Longrightarrow> a mod 4096 = 0 \<or> a mod 4096 = (2048 :: nat)"
proof -
  assume "a mod 2048 = 0"
  then obtain q where "a = 2048 * q" by auto
  then have "a mod 4096 = 2048 * (q mod 2)" using mult_mod_right [of 2048 q 2] by simp
  then show ?thesis by (cases "q mod 2 = 0") auto
qed

lemma half_fits: "a mod 2048 = 0 \<Longrightarrow> a mod 4096 + 2048 \<le> (4096 :: nat)"
  using half_offset [of a] by linarith

lemma page_top: "a mod 4096 + n \<le> 4096 \<Longrightarrow> 0 < n \<Longrightarrow> (a + n - 1) div 4096 = a div (4096 :: nat)"
  by (rule same_page [of _ _ n]) simp_all

lemma half_pages:
  fixes a n x :: nat
  assumes "a mod 2048 = 0" "2048 \<le> n"
  shows "(a div 4096 \<le> x \<and> x \<le> (a + n - 1) div 4096)
    \<longleftrightarrow> x = a div 4096 \<or> 2048 < n \<and> (a + 2048) div 4096 \<le> x \<and> x \<le> (a + n - 1) div 4096"
proof -
  have "(a + 2048) div 4096 \<le> (a + 4096) div 4096" by (intro div_le_mono) simp
  then have "(a + 2048) div 4096 \<le> a div 4096 + 1" by simp
  moreover have "a div 4096 \<le> (a + n - 1) div 4096" using assms(2) by (intro div_le_mono) simp
  moreover have "n = 2048 \<Longrightarrow> (a + n - 1) div 4096 = a div 4096" using page_top [OF half_fits [OF assms(1)]] by simp
  moreover have "a div 4096 \<le> (a + 2048) div 4096" by (intro div_le_mono) simp
  ultimately show ?thesis using assms(2) by (cases "n = 2048") auto
qed

subsection \<open>Chunks\<close>

definition old_byte :: "uview \<Rightarrow> u64 \<Rightarrow> u8" where
  "old_byte V x = (case V x of None \<Rightarrow> 0 | Some (b, q) \<Rightarrow> b)"

definition laid :: "rights \<Rightarrow> mem \<Rightarrow> u64 \<Rightarrow> u64 \<Rightarrow> u64 \<Rightarrow> uview \<Rightarrow> uview" where
  "laid r m src va n V = (\<lambda>x. if in_pages va n x then Some (if x - va < n then m (src + (x - va)) else old_byte V x, r) else V x)"

lemma laid_chunk:
  assumes fit: "0 < n" "unat va + unat n \<le> 2 ^ 47" "unat (take_bit 12 va) + unat n \<le> 4096"
    and V: "(\<forall>x. unat x div 4096 = unat va div 4096 \<longrightarrow> V x = None)
      \<or> (\<forall>x. unat x div 4096 = unat va div 4096 \<longrightarrow> (\<exists>b. V x = Some (b, r))) \<and> (may_write r \<or> \<not> wp)"
  shows "chunk_view wp r m src n va V = Some (laid r m src va n V)"
proof -
  have off: "unat (take_bit 12 va) = unat va mod 4096" by (simp add: take_bit_eq_mod unat_mod_distrib)
  have n0: "0 < unat n" using fit(1) by (simp add: word_less_nat_alt)
  have pg: "in_pages va n x \<longleftrightarrow> unat x div 4096 = unat va div 4096" for x
  proof -
    have "(unat va + unat n - 1) div 4096 = unat va div 4096" using page_top [OF fit(3) [unfolded off] n0] .
    then show ?thesis using fit(1) by (auto simp: in_pages_def)
  qed
  have lt: "x - va < n \<Longrightarrow> unat x div 4096 = unat va div 4096" for x
    using diff_less [of va n x] same_page [of "unat va" "unat x" "unat n"] fit(2,3) unfolding off by simp
  have va: "va < 2 ^ 47" using fit(2) n0 by (simp add: word_less_nat_alt)
  have wr: "case V va of None \<Rightarrow> True | Some (b, q) \<Rightarrow> may_write q \<or> \<not> wp" using V by (auto split: option.split)
  have "protect_view va r (copy_view va n (\<lambda>k. m (src + k)) (map_view va all_rights V)) x = laid r m src va n V x" for x
    using V lt [of x]
    by (auto simp: protect_view_def copy_view_def map_view_def laid_def pg page_number old_byte_def split: option.split)
  then show ?thesis using va wr fit(3) by (simp add: chunk_view_def fun_eq_iff)
qed

lemma laid_split:
  assumes "unat va + unat sz \<le> 2 ^ 47" "2048 \<le> sz" "unat va mod 2048 = 0"
  shows "laid r m (src + 2048) (va + 2048) (sz - 2048) (laid r m src va 2048 V) = laid r m src va sz V"
proof
  fix x
  have n: "unat (sz - 2048) = unat sz - 2048" "2048 \<le> unat sz" using assms(2) by (simp_all add: unat_sub word_le_nat_alt)
  have a: "unat (va + 2048) = unat va + 2048" using unat_add_lem [of va 2048] assms(1) n(2) by simp
  have lt: "x - va < sz \<longleftrightarrow> unat va \<le> unat x \<and> unat x < unat va + unat sz"
    "x - va < 2048 \<longleftrightarrow> unat va \<le> unat x \<and> unat x < unat va + 2048"
    "x - (va + 2048) < sz - 2048 \<longleftrightarrow> unat va + 2048 \<le> unat x \<and> unat x < unat va + unat sz"
    using diff_less [of va sz x] diff_less [of va 2048 x] diff_less [of "va + 2048" "sz - 2048" x] assms(1) n a by auto
  have pos: "0 < sz" "0 < sz - 2048 \<longleftrightarrow> 2048 < unat sz" using n by (auto simp: word_less_nat_alt)
  have pg: "in_pages va 2048 x \<longleftrightarrow> unat x div 4096 = unat va div 4096"
    "in_pages (va + 2048) (sz - 2048) x \<longleftrightarrow> 2048 < unat sz \<and> (unat va + 2048) div 4096 \<le> unat x div 4096 \<and> unat x div 4096 \<le> (unat va + unat sz - 1) div 4096"
    "in_pages va sz x \<longleftrightarrow> unat va div 4096 \<le> unat x div 4096 \<and> unat x div 4096 \<le> (unat va + unat sz - 1) div 4096"
    using page_top [OF half_fits [OF assms(3)]] pos n by (auto simp: in_pages_def a)
  have src: "src + 2048 + (x - (va + 2048)) = src + (x - va)" by simp
  have first: "unat x div 4096 = unat va div 4096" if "unat va \<le> unat x" "unat x < unat va + 2048"
    using same_page [OF that] half_fits [OF assms(3)] .
  have rest: "2048 < unat sz" "(unat va + 2048) div 4096 \<le> unat x div 4096" "unat x div 4096 \<le> (unat va + unat sz - 1) div 4096"
    if "unat va + 2048 \<le> unat x" "unat x < unat va + unat sz"
    using that by (simp_all add: div_le_mono)
  show "laid r m (src + 2048) (va + 2048) (sz - 2048) (laid r m src va 2048 V) x = laid r m src va sz V x"
    unfolding laid_def pg lt src half_pages [OF assms(3) n(2)] old_byte_def
    using first rest n(2) by auto
qed

lemma segment_lay:
  assumes "unat va + unat sz \<le> 2 ^ 47" "unat sz \<le> 2048 \<longrightarrow> unat va mod 4096 + unat sz \<le> 4096"
    "2048 < unat sz \<longrightarrow> unat va mod 2048 = 0 \<and> (may_write r \<or> \<not> wp)"
    "\<And>x. in_pages va sz x \<Longrightarrow> unat x div 4096 \<noteq> unat va div 4096 \<Longrightarrow> V x = None"
    "0 < sz \<longrightarrow> (\<forall>x. unat x div 4096 = unat va div 4096 \<longrightarrow> V x = None)
      \<or> (\<forall>x. unat x div 4096 = unat va div 4096 \<longrightarrow> (\<exists>b. V x = Some (b, r))) \<and> (may_write r \<or> \<not> wp)"
  shows "segment_view wp r m src sz va V = Some (laid r m src va sz V)"
  using assms
proof (induction "unat sz" arbitrary: sz src va V rule: less_induct)
  case less
  have off: "unat (take_bit 12 va) = unat va mod 4096" by (simp add: take_bit_eq_mod unat_mod_distrib)
  consider "sz = 0" | "0 < sz" "sz < 2048" | "2048 \<le> sz" by (cases "sz = 0"; cases "sz < 2048") (auto simp: word_gt_0)
  then show ?case
  proof cases
    case 1
    then show ?thesis by (simp add: segment_view.simps laid_def in_pages_def)
  next
    case 2
    then show ?thesis using laid_chunk [of sz va V r wp m src] less.prems(1,2,5)
      by (simp add: segment_view.simps [of _ _ _ _ sz] off word_less_nat_alt)
  next
    case 3
    have n: "unat (sz - 2048) = unat sz - 2048" "2048 \<le> unat sz" using 3 by (simp_all add: unat_sub word_le_nat_alt)
    have a: "unat (va + 2048) = unat va + 2048" using unat_add_lem [of va 2048] less.prems(1) n(2) by simp
    have pos: "0 < sz" "\<not> sz < 2048" using 3 by unat_arith+
    have fit: "unat va mod 4096 + 2048 \<le> 4096"
    proof (cases "2048 < unat sz")
      case True
      then have "unat va mod 2048 = 0" using less.prems(3) by simp
      then show ?thesis by (rule half_fits)
    next
      case False
      then show ?thesis using less.prems(2) n(2) by simp
    qed
    have c: "chunk_view wp r m src 2048 va V = Some (laid r m src va 2048 V)"
      by (rule laid_chunk) (use less.prems(1,5) n(2) fit pos off in simp_all)
    let ?V = "laid r m src va 2048 V"
    show ?thesis
    proof (cases "sz = 2048")
      case True
      then show ?thesis using c by (simp add: segment_view.simps [of _ _ _ _ 2048] segment_view.simps [of _ _ _ _ 0])
    next
      case False
      then have big: "2048 < unat sz" using n(2) by (simp add: word_unat_eq_iff)
      then have al: "unat va mod 2048 = 0" "may_write r \<or> \<not> wp" using less.prems(3) by simp_all
      have in1: "in_pages va 2048 x \<longleftrightarrow> unat x div 4096 = unat va div 4096" for x
        using page_top [OF fit] by (auto simp: in_pages_def)
      have in2: "in_pages (va + 2048) (sz - 2048) x \<Longrightarrow> in_pages va sz x" for x
        using pos n by (auto simp: in_pages_def a)
      have "segment_view wp r m (src + 2048) (sz - 2048) (va + 2048) ?V = Some (laid r m (src + 2048) (va + 2048) (sz - 2048) ?V)"
      proof (rule less.hyps)
        show "unat (sz - 2048) < unat sz" "unat (va + 2048) + unat (sz - 2048) \<le> 2 ^ 47" using n big less.prems(1) by (simp_all add: a)
        have "(unat va + 2048) mod 4096 + 2048 \<le> 4096" by (rule half_fits) (use al(1) in simp)
        then show "unat (sz - 2048) \<le> 2048 \<longrightarrow> unat (va + 2048) mod 4096 + unat (sz - 2048) \<le> 4096" unfolding a by linarith
        show "2048 < unat (sz - 2048) \<longrightarrow> unat (va + 2048) mod 2048 = 0 \<and> (may_write r \<or> \<not> wp)" using al by (simp add: a)
      next
        fix x
        assume "in_pages (va + 2048) (sz - 2048) x" "unat x div 4096 \<noteq> unat (va + 2048) div 4096"
        moreover from this have "unat x div 4096 \<noteq> unat va div 4096"
          using div_le_mono [of "unat va" "unat va + 2048" 4096] by (simp add: in_pages_def a)
        ultimately show "?V x = None" using in1 in2 less.prems(4) by (simp add: laid_def)
      next
        show "0 < sz - 2048 \<longrightarrow> (\<forall>x. unat x div 4096 = unat (va + 2048) div 4096 \<longrightarrow> ?V x = None)
          \<or> (\<forall>x. unat x div 4096 = unat (va + 2048) div 4096 \<longrightarrow> (\<exists>b. ?V x = Some (b, r))) \<and> (may_write r \<or> \<not> wp)"
        proof (cases "unat (va + 2048) div 4096 = unat va div 4096")
          case True
          then show ?thesis using al(2) in1 by (simp add: laid_def)
        next
          case False
          have "in_pages va sz x" if "unat x div 4096 = unat (va + 2048) div 4096" for x
            by (rule in2) (use that big n pos in \<open>simp add: in_pages_def a div_le_mono word_less_nat_alt\<close>)
          then show ?thesis using False in1 less.prems(4) by (simp add: laid_def)
        qed
      qed
      then show ?thesis using c pos laid_split [OF less.prems(1) 3 al(1)] by (simp add: segment_view.simps [of _ _ _ _ sz])
    qed
  qed
qed

subsection \<open>Files\<close>

lemma header_lay:
  assumes "segment_fits wp m ehdr h" "\<And>x. elf_page h x \<Longrightarrow> V x = None"
  shows "header_view wp m ehdr h V = Some (\<lambda>x. if elf_page h x then Some (elf_byte m ehdr h x, segment_rights h) else V x)"
proof (cases "p_type h = 1")
  case True
  let ?a = "unat (p_vaddr h)" and ?n = "unat (p_memsz h)" and ?r = "segment_rights h"
  have fits: "p_filesz h \<le> p_memsz h" "chunks_fit wp (bit (p_flags h) 1) (p_vaddr h) (p_memsz h)"
    "\<And>k. k < p_memsz h \<Longrightarrow> p_filesz h \<le> k \<Longrightarrow> m (ehdr + p_offset h + k) = 0"
    using assms(1) True by (simp_all add: segment_fits_def)
  have le: "p_memsz h \<le> 2048 \<longleftrightarrow> ?n \<le> 2048" by (simp add: word_le_nat_alt)
  have half: "?a mod 2048 = 0" if "take_bit 11 (p_vaddr h) = 0"
    using arg_cong [OF that, of unat] by (simp add: take_bit_eq_mod unat_mod_distrib)
  have off: "unat (take_bit 12 (p_vaddr h)) = ?a mod 4096" by (simp add: take_bit_eq_mod unat_mod_distrib)
  have none: "V x = None" if "in_pages (p_vaddr h) (p_memsz h) x" for x using assms(2) that True by (simp add: elf_page_def)
  have first: "in_pages (p_vaddr h) (p_memsz h) x" if "unat x div 4096 = ?a div 4096" "0 < p_memsz h" for x
    using that by (simp add: in_pages_def div_le_mono word_less_nat_alt)
  have "segment_view wp ?r m (ehdr + p_offset h) (p_memsz h) (p_vaddr h) V
      = Some (laid ?r m (ehdr + p_offset h) (p_vaddr h) (p_memsz h) V)"
  proof (rule segment_lay)
    show "?a + ?n \<le> 2 ^ 47" "?n \<le> 2048 \<longrightarrow> ?a mod 4096 + ?n \<le> 4096"
      "2048 < ?n \<longrightarrow> ?a mod 2048 = 0 \<and> (may_write ?r \<or> \<not> wp)"
      using fits(2) half le off by (auto simp: chunks_fit_def segment_rights_def not_le split: if_splits)
  qed (use none first in auto)
  moreover have "laid ?r m (ehdr + p_offset h) (p_vaddr h) (p_memsz h) V x
      = (if elf_page h x then Some (elf_byte m ehdr h x, ?r) else V x)" for x
    using none [of x] fits(1) fits(3) [of "x - p_vaddr h"] True
    by (auto simp: laid_def elf_page_def elf_byte_def old_byte_def dest: less_le_trans)
  ultimately show ?thesis using True by (simp add: header_view_def fun_eq_iff)
qed (simp add: header_view_def elf_page_def)

lemma headers_lay:
  assumes "\<forall>h \<in> set hs. segment_fits wp m ehdr h" "sorted_wrt (\<lambda>h k. \<forall>x. \<not> (elf_page h x \<and> elf_page k x)) hs"
    "\<And>h x. h \<in> set hs \<Longrightarrow> elf_page h x \<Longrightarrow> V x = None"
  shows "headers_view wp m ehdr hs V = Some (\<lambda>x. case find (\<lambda>h. elf_page h x) hs of
    Some h \<Rightarrow> Some (elf_byte m ehdr h x, segment_rights h) | None \<Rightarrow> V x)"
  using assms
proof (induction hs arbitrary: V)
  case (Cons h hs)
  let ?V = "\<lambda>x. if elf_page h x then Some (elf_byte m ehdr h x, segment_rights h) else V x"
  have "header_view wp m ehdr h V = Some ?V" by (rule header_lay) (use Cons.prems in auto)
  moreover have "headers_view wp m ehdr hs ?V = Some (\<lambda>x. case find (\<lambda>h. elf_page h x) hs of
    Some h \<Rightarrow> Some (elf_byte m ehdr h x, segment_rights h) | None \<Rightarrow> ?V x)"
    by (rule Cons.IH) (use Cons.prems in \<open>auto dest: bspec\<close>)
  moreover have "find (\<lambda>k. elf_page k x) hs = None" if "elf_page h x" for x
    using Cons.prems(2) that by (auto simp: find_None_iff)
  ultimately show ?case by (auto simp: fun_eq_iff split: option.split)
qed simp

lemma maps_uniform:
  assumes "\<And>x y. drop_bit 12 x = drop_bit 12 y \<Longrightarrow> V x = None \<longleftrightarrow> V y = None"
  shows "fold (\<lambda>(va, r). map_view va r) vs V x = (if V x = None
    then map_option (\<lambda>(va, r). (0, r)) (find (\<lambda>(va, r). drop_bit 12 x = drop_bit 12 va) vs) else V x)"
  using assms
proof (induction vs arbitrary: V)
  case (Cons v vs)
  obtain va r where v: "v = (va, r)" by force
  have m: "map_view va r V x = (if V x = None \<and> drop_bit 12 x = drop_bit 12 va then Some (0, r) else V x)" for x
    using Cons.prems [of x va] by (auto simp: map_view_def)
  have "fold (\<lambda>(va, r). map_view va r) vs (map_view va r V) x = (if map_view va r V x = None
    then map_option (\<lambda>(va, r). (0, r)) (find (\<lambda>(va, r). drop_bit 12 x = drop_bit 12 va) vs) else map_view va r V x)"
  proof (rule Cons.IH)
    fix x y :: u64
    assume xy: "drop_bit 12 x = drop_bit 12 y"
    show "map_view va r V x = None \<longleftrightarrow> map_view va r V y = None" using Cons.prems [OF xy] by (simp add: m xy)
  qed
  then show ?case by (cases "V x") (simp_all add: v m)
next
  case Nil
  show ?case by (cases "V x") simp_all
qed

lemma in_page: "page_aligned a \<Longrightarrow> a < 2 ^ 63 \<Longrightarrow> drop_bit 12 x = drop_bit 12 a \<longleftrightarrow> a \<le> x \<and> x < a + 0x1000"
proof -
  assume a: "page_aligned a" "a < 2 ^ 63"
  have "unat (take_bit 12 a) = 0" using a(1) by (simp add: page_aligned_def)
  then have "unat a mod 4096 = 0" by (simp add: take_bit_eq_mod unat_mod_distrib)
  then obtain q where q: "unat a = 4096 * q" by auto
  have "unat a < 2 ^ 63" using a(2) by (simp add: word_less_nat_alt)
  then have "unat (a + 0x1000) = unat a + 0x1000" using unat_add_lem [of a "0x1000"] by simp
  then show ?thesis using q by (auto simp: page_number word_le_nat_alt word_less_nat_alt)
qed

lemma stack_view_extra:
  assumes "\<And>x y. drop_bit 12 x = drop_bit 12 y \<Longrightarrow> V x = None \<longleftrightarrow> V y = None"
  shows "stack_view V x = (if V x = None then extra_view x else V x)"
proof -
  let ?u = "stack_rights True"
  let ?vs = "[(0x70000000000, ?u), (0x70000001000, ?u), (0x70000002000, ?u), (0x70000003000, ?u),
    (0x400000000, ?u), (0x400001800, stack_rights False)]"
  have "stack_view V = fold (\<lambda>(va, r). map_view va r) ?vs V" by (simp add: stack_view_def)
  moreover note maps_uniform [of V ?vs x, OF assms]
  ultimately have sv: "stack_view V x = (if V x = None
    then map_option (\<lambda>(va, r). (0, r)) (find (\<lambda>(va, r). drop_bit 12 x = drop_bit 12 va) ?vs) else V x)" by simp
  have pg: "drop_bit 12 x = drop_bit 12 a \<longleftrightarrow> unat a \<le> unat x \<and> unat x < unat (a + 0x1000)"
    if "a \<in> {0x70000000000, 0x70000001000, 0x70000002000, 0x70000003000, 0x400000000, 0x400001000}" for a
    unfolding word_le_nat_alt [symmetric] word_less_nat_alt [symmetric]
    by (rule in_page) (use that in \<open>auto simp: page_aligned_def take_bit_eq_mod\<close>)
  have rg: "drop_bit 12 x = 0x70000000 \<longleftrightarrow> 0x70000000000 \<le> unat x \<and> unat x < 0x70000001000"
    "drop_bit 12 x = 0x70000001 \<longleftrightarrow> 0x70000001000 \<le> unat x \<and> unat x < 0x70000002000"
    "drop_bit 12 x = 0x70000002 \<longleftrightarrow> 0x70000002000 \<le> unat x \<and> unat x < 0x70000003000"
    "drop_bit 12 x = 0x70000003 \<longleftrightarrow> 0x70000003000 \<le> unat x \<and> unat x < 0x70000004000"
    "drop_bit 12 x = 0x400000 \<longleftrightarrow> 0x400000000 \<le> unat x \<and> unat x < 0x400001000"
    "drop_bit 12 x = 0x400001 \<longleftrightarrow> 0x400001000 \<le> unat x \<and> unat x < 0x400002000"
    using pg [of "0x70000000000"] pg [of "0x70000001000"] pg [of "0x70000002000"] pg [of "0x70000003000"] pg [of "0x400000000"]
      pg [of "0x400001000"] by simp_all
  show ?thesis by (simp add: sv rg extra_view_def word_le_nat_alt word_less_nat_alt)
qed

lemma elf_page_uniform: "drop_bit 12 x = drop_bit 12 y \<Longrightarrow> elf_page h x = elf_page h y"
  by (simp add: elf_page_def in_pages_def page_number)

lemma loadable_view:
  assumes "loadable wp m ehdr"
  shows "program_view wp m ehdr (\<lambda>_. None) = Some (elf_view m ehdr)"
proof -
  let ?hs = "phdrs_in m ehdr"
  let ?V = "\<lambda>x. case find (\<lambda>h. elf_page h x) ?hs of Some h \<Rightarrow> Some (elf_byte m ehdr h x, segment_rights h) | None \<Rightarrow> None"
  have "headers_view wp m ehdr ?hs (\<lambda>_. None) = Some ?V"
    by (rule headers_lay) (use assms in \<open>auto simp: loadable_def\<close>)
  moreover have "?V x = None \<longleftrightarrow> ?V y = None" if "drop_bit 12 x = drop_bit 12 y" for x y
    by (simp add: elf_page_uniform [OF that] split: option.split)
  note stack_view_extra [of ?V, OF this]
  ultimately show ?thesis by (simp add: program_view_def elf_view_def fun_eq_iff split: option.split)
qed

end
