(* ===== verification/Exec_Call.thy ===== *)
theory Exec_Call
  imports Elf_Image
begin

text \<open>
  The exec call from end to end. The handler copies the name out of the caller's memory, finds the module
  of that name, takes the caller's address space down and loads and enters the program; \<open>exec_spec\<close> says
  what that amounts to for the new program, by the reading of its ELF file in \<open>Elf_Image\<close>. The lemmas follow the kernel's own bytes (the module table,
  the files, the copy of the name) through the writes and the tear-down that happen beside them.
\<close>

subsection \<open>Kernel bytes written\<close>

lemma intact_pages:
  assumes "intact A m0 s ps" "a \<in> A" "upath js" "table s (cr3_root s) js = Some t \<or> t \<in> set ps" "k < 4096"
  shows "a \<noteq> t + hhdm s + k"
proof -
  have ok: "space_ok s (cr3_root s) ps" and fo: "foreign s (cr3_root s) ps a" using assms(1,2) by (simp_all add: intact_def)
  obtain u k' where u: "a = u + hhdm s + k'" "k' < 4096" "data_page s (cr3_root s) ps u" "\<And>js. upath js \<Longrightarrow> table s (cr3_root s) js \<noteq> Some u"
    by (rule foreign_page [OF fo]) blast
  have "page_aligned t"
    using assms(4) space_okD(8) [OF ok] pool_frame [OF space_okD(1) [OF ok]] by (auto simp: frame_def)
  moreover have "u \<noteq> t" using u(3,4) assms(3,4) by (auto simp: data_page_def)
  ultimately show ?thesis
    using aligned_add_eq [of "u + hhdm s" k' "t + hhdm s" k] u(1-3) space_okD(4) [OF ok] assms(5)
    by (auto simp: data_page_def)
qed

lemma intact_written:
  assumes k: "intact A m0 s ps" and m: "\<And>a. a \<notin> A \<Longrightarrow> m a = mem s a"
  shows "intact A m (s\<lparr>mem := m\<rparr>) ps" "view (s\<lparr>mem := m\<rparr>) = view s"
proof -
  let ?root = "cr3_root s" and ?s = "s\<lparr>mem := m\<rparr>"
  have ok: "space_ok s ?root ps" using k by (simp add: intact_def)
  have rt: "cr3_root ?s = ?root" by (simp add: cr3_root_def)
  have same: "m (t + hhdm s + k) = mem s (t + hhdm s + k)"
    if "upath js" "table s ?root js = Some t \<or> t \<in> set ps" "k < 4096" for t js k
    using intact_pages [OF k _ that] m by blast
  have l64: "load64 m (slot (t + hhdm s) j) = load64 (mem s) (slot (t + hhdm s) j)"
    if "upath js" "table s ?root js = Some t \<or> t \<in> set ps" "j < 512" for t js j
  proof (rule load64_cong)
    fix i :: u64 assume i: "i < 8"
    have "j * 8 + i < 4096" using i that(3) by (simp add: word_less_nat_alt unat_word_ariths)
    from same [OF that(1,2) this] show "m (slot (t + hhdm s) j + i) = mem s (slot (t + hhdm s) j + i)"
      by (simp add: slot_def add.assoc)
  qed
  have pte: "pte_at ?s t j = pte_at s t j" if "upath js" "table s ?root js = Some t" "j < 512" for t js j
    using l64 [of js t j] that by (simp add: pte_at_def get_pte_def)
  have tab: "table ?s ?root js = table s ?root js" if "upath js" for js
    using that
  proof (induction js rule: rev_induct)
    case (snoc j js)
    then show ?case
      using pte [of js _ j] upath_snocD [OF snoc.prems] by (simp add: table_snoc split: option.split)
  qed simp
  have "pool ?s ps"
    by (rule pool_cong [OF space_okD(1) [OF ok]]) (use l64 [of "[]" _ 0] in \<open>simp_all add: slot_0\<close>)
  moreover have "plain (pte_at ?s t i)" if "upath (js @ [i])" "length js \<le> 2" "table ?s ?root js = Some t" for js t i
    using that tab [of js] pte [of js t i] space_okD(7) [OF ok that(1,2), of t] upath_snocD [OF that(1)] by simp
  ultimately have ok': "space_ok ?s ?root ps"
    using ok tab unfolding space_ok_def frame_update by auto
  show "intact A m ?s ps" using k ok' tab unfolding intact_def rt foreign_def by simp
  have look: "lookup ?s ?root x = lookup s ?root x" if "x < 2 ^ 47" for x
  proof -
    have up: "upath (upper x)" using upath_snocD [of "upper x"] upath_path [OF that] by (simp add: path_def)
    then show ?thesis using tab [OF up] pte [OF up] by (simp add: lookup_def Let_def split: option.split)
  qed
  have "view ?s x = view s x" for x
  proof (cases "x < 2 ^ 47")
    case True
    have "m (pte_frame e + hhdm s + take_bit 12 x) = mem s (pte_frame e + hhdm s + take_bit 12 x)"
      if "lookup s ?root x = Some e" for e
      using same [OF upath_path [OF True] _ offset_less] that by (simp add: table_path_lookup)
    then show ?thesis
      using view_lookup [of ?s ps x] ok' True rt look by (cases "lookup s ?root x") (simp_all add: view_lookup [OF ok])
  qed (simp add: view_def)
  then show "view ?s = view s" by (simp add: fun_eq_iff)
qed

lemma intact_weaken: "intact A m s ps \<Longrightarrow> B \<subseteq> A \<Longrightarrow> (\<And>a. a \<in> B \<Longrightarrow> m0 a = m a) \<Longrightarrow> intact B m0 s ps"
  by (auto simp: intact_def)

subsection \<open>The old program goes\<close>

lemma unmap_step:
  assumes k: "intact A m0 s ps" and cr3: "page_aligned (cr3 s)"
  obtains qs where "intact A m0 (unmap_lower_half (read_cr3 s) s) (qs @ ps)" "view (unmap_lower_half (read_cr3 s) s) = (\<lambda>_. None)"
proof -
  let ?root = "cr3_root s" and ?s = "unmap_lower_half (read_cr3 s) s"
  have "cr3 s = page_of (cr3 s)"
    using page_of_split(2) [of "cr3 s"] cr3 by (simp add: page_aligned_def)
  then have root: "read_cr3 s = ?root" by (simp add: read_cr3_def cr3_root_def page_of_def)
  have ok: "space_ok s ?root ps" using k by (simp add: intact_def)
  let ?qs = "rev (tables_at s ?root table_paths)"
  have rt: "cr3_root ?s = ?root" by (rule cr3_root_kept [OF kept_unmap])
  have h: "hhdm ?s = hhdm s" using kept_unmap [of s "read_cr3 s"] by (simp add: kept_def)
  have ok': "space_ok ?s ?root (?qs @ ps)" unfolding root by (rule unmap_lower_half_ok [OF ok])
  define s1 where "s1 = fold (unmap_l4_entry (?root + hhdm s)) (indices 256) s"
  have torn: "torn s ?root ps (indices 256) s1"
    unfolding s1_def by (rule torn_all [OF ok distinct_indices subset_refl]) simp
  have m1: "mem ?s = mem s1"
    unfolding root by (simp add: unmap_lower_half_def s1_def ptov_def reset_v_heap_def write_cr3_def Let_def)
  have h1: "hhdm s1 = hhdm s" using torn by (simp add: torn_def Let_def same_rest_def)
  have pte1: "pte_at ?s = pte_at s1" by (intro ext) (simp add: pte_at_def m1 h h1)
  have "table ?s t is = table s1 t is" for t "is" by (induction "is" arbitrary: t) (simp_all add: pte1)
  then have none: "table ?s ?root is = None" if "upath is" "is \<noteq> []" for "is"
    using torn_empty(2) [OF ok torn that] by simp
  have "foreign ?s ?root (?qs @ ps) a \<and> mem ?s a = mem s a" if fo: "foreign s ?root ps a" for a
  proof -
    obtain u k where u: "a = u + hhdm s + k" "k < 4096" "data_page s ?root ps u" "\<And>js. upath js \<Longrightarrow> table s ?root js \<noteq> Some u"
      by (rule foreign_page [OF fo]) blast
    have nr: "u \<noteq> ?root" using u(4) [OF upath_Nil] by auto
    have nf: "u \<notin> set ?qs" using u(4) by (auto simp: set_tables_at table_paths_iff)
    have "pte_at s1 u j = pte_at s u j" if "j < 512" for j
      using torn that u(3) nr nf by (simp add: torn_def Let_def table_paths_def data_page_def)
    from same_ptes_same_bytes [OF this h1 u(2)] have "mem ?s a = mem s a" by (simp add: u(1) m1)
    moreover have "table ?s ?root js \<noteq> Some u" if "upath js" for js
      using none [OF that] nr by (cases "js = []") auto
    ultimately show ?thesis using fo u(1-3) nf unfolding foreign_def h by (auto simp: data_page_def)
  qed
  then have "intact A m0 ?s (?qs @ ps)" using k ok' unfolding intact_def rt by auto
  moreover have "view ?s x = None" for x
  proof (cases "x < 2 ^ 47")
    case True
    have "lookup ?s ?root x = None"
      using none [OF upath_path [OF True]] table_path_lookup [of ?s ?root x] by (simp add: path_def)
    then show ?thesis using view_lookup [of ?s "?qs @ ps" x] ok' True rt by simp
  qed (simp add: view_def)
  ultimately show thesis using that [of ?qs] by (simp add: fun_eq_iff)
qed

subsection \<open>Finding the module\<close>

text \<open>The modules tag: its count and its entries of 144 bytes, as a table from names to files.\<close>

definition module_bytes :: "u64 \<Rightarrow> nat \<Rightarrow> u64 set" where
  "module_bytes tag n = {a. a - (tag + 16) < 8 + 144 * of_nat n}"

definition modules_in :: "mem \<Rightarrow> u64 \<Rightarrow> (u8 list \<times> u64) list \<Rightarrow> bool" where
  "modules_in m tag ms \<longleftrightarrow> length ms < INT_MAX \<and> load64 m (tag + 16) = of_nat (length ms)
     \<and> (\<forall>i < length ms. cstring m (module_addr tag i + 16) (fst (ms ! i)) \<and> length (fst (ms ! i)) < 128
          \<and> load64 m (module_addr tag i) = snd (ms ! i))"

lemma module_byte: "i < n \<Longrightarrow> n < INT_MAX \<Longrightarrow> j < 144 \<Longrightarrow> module_addr tag i + of_nat j \<in> module_bytes tag n"
proof -
  assume i: "i < n" "n < INT_MAX" "j < 144"
  have "module_addr tag i + of_nat j - (tag + 16) = of_nat (8 + 144 * i + j)" by (simp add: module_addr_def)
  moreover have "8 + 144 * of_nat n = (of_nat (8 + 144 * n) :: u64)" by simp
  moreover have "(of_nat (8 + 144 * i + j) :: u64) < of_nat (8 + 144 * n)"
    by (rule of_nat_less_u64 [THEN iffD2]) (use i in auto)
  ultimately show ?thesis by (simp only: module_bytes_def mem_Collect_eq)
qed

lemma module_count: "k < 8 \<Longrightarrow> n < INT_MAX \<Longrightarrow> tag + 16 + k \<in> module_bytes tag n"
proof -
  assume k: "k < 8" "n < INT_MAX"
  have "8 \<le> (8 + 144 * of_nat n :: u64)" using k(2) by (simp add: word_le_nat_alt unat_word_ariths unat_of_nat)
  then show ?thesis using less_le_trans [OF k(1)] by (simp add: module_bytes_def)
qed

lemma cstring_cong: "cstring m p cs \<Longrightarrow> (\<And>j. j \<le> length cs \<Longrightarrow> m' (p + of_nat j) = m (p + of_nat j)) \<Longrightarrow> cstring m' p cs"
  by (auto simp: cstring_def byte_at_def)

lemma module_entry:
  assumes k: "intact A m s ps" and A: "module_bytes tag (length ms) \<subseteq> A" and ms: "modules_in m tag ms" and name: "cstring (mem s) md name"
  shows "kload64 s (tag + 16) = Inr (of_nat (length ms))"
    and "i < length ms \<Longrightarrow> my_strcmp (mem s) (module_addr tag i + 16) md = Inr (if fst (ms ! i) = name then 0 else 1)"
    and "i < length ms \<Longrightarrow> kload64 s (module_addr tag i) = Inr (snd (ms ! i))"
proof -
  have n: "length ms < INT_MAX" using ms by (simp add: modules_in_def)
  have "tag + 16 + k \<in> A" if "k < 8" for k using module_count [OF that n] A by blast
  from kload_intact(1) [OF k this] show "kload64 s (tag + 16) = Inr (of_nat (length ms))"
    using ms by (simp add: modules_in_def)
  assume i: "i < length ms"
  have at: "module_addr tag i + of_nat j \<in> A" if "j < 144" for j using module_byte [OF i n that] A by blast
  have "module_addr tag i + k \<in> A" if "k < 8" for k
    using at [of "unat k"] that by (simp add: word_less_nat_alt)
  from kload_intact(1) [OF k this] show "kload64 s (module_addr tag i) = Inr (snd (ms ! i))"
    using ms i by (simp add: modules_in_def)
  have c: "cstring m (module_addr tag i + 16) (fst (ms ! i))" "length (fst (ms ! i)) < 128"
    using ms i by (auto simp: modules_in_def)
  have "cstring (mem s) (module_addr tag i + 16) (fst (ms ! i))"
  proof (rule cstring_cong [OF c(1)])
    fix j assume "j \<le> length (fst (ms ! i))"
    then show "mem s (module_addr tag i + 16 + of_nat j) = m (module_addr tag i + 16 + of_nat j)"
      using at [of "16 + j"] c(2) k by (auto simp: intact_def add.assoc)
  qed
  from strcmp_cstring [OF this name] show "my_strcmp (mem s) (module_addr tag i + 16) md = Inr (if fst (ms ! i) = name then 0 else 1)"
    using c(2) by simp
qed

lemma modules_less: "modules_in m tag ms \<Longrightarrow> i \<le> length ms \<Longrightarrow> (of_nat i :: u64) < of_nat (length ms) \<longleftrightarrow> i < length ms"
  by (rule of_nat_less_u64) (simp_all add: modules_in_def)

lemma check_loop_modules:
  assumes k: "intact A m s ps" and A: "module_bytes tag (length ms) \<subseteq> A" and ms: "modules_in m tag ms" and name: "cstring (mem s) md name"
  shows "i \<le> length ms \<Longrightarrow> check_loop tag md i s = Inr (if map_of (drop i ms) name = None then - 1 else 0)"
proof (induction "length ms - i" arbitrary: i)
  case 0
  then show ?case using module_entry(1) [OF assms] by (simp add: check_loop.simps [of tag])
next
  case (Suc n)
  then have i: "i < length ms" by simp
  have d: "drop i ms = ms ! i # drop (Suc i) ms" using i by (simp add: Cons_nth_drop_Suc)
  have "i < INT_MAX" using i ms by (simp add: modules_in_def)
  then show ?case
    using Suc i module_entry [OF assms] modules_less [OF ms] unfolding d
    by (subst check_loop.simps) (cases "ms ! i", auto)
qed

lemma execute_loop_modules:
  assumes k: "intact A m s ps" and A: "module_bytes tag (length ms) \<subseteq> A" and ms: "modules_in m tag ms" and name: "cstring (mem s) md name"
  shows "i \<le> length ms \<Longrightarrow> execute_loop tag md i s =
    (case map_of (drop i ms) name of None \<Rightarrow> Inr (NotFound, s) | Some ehdr \<Rightarrow> start_mod ehdr s)"
proof (induction "length ms - i" arbitrary: i)
  case 0
  then show ?case using module_entry(1) [OF assms] by (simp add: execute_loop.simps [of tag])
next
  case (Suc n)
  then have i: "i < length ms" by simp
  have d: "drop i ms = ms ! i # drop (Suc i) ms" using i by (simp add: Cons_nth_drop_Suc)
  have "i < INT_MAX" using i ms by (simp add: modules_in_def)
  then show ?case
    using Suc i module_entry [OF assms] modules_less [OF ms] unfolding d
    by (subst execute_loop.simps) (cases "ms ! i", auto)
qed

subsection \<open>The name\<close>

definition user_string :: "uview \<Rightarrow> u64 \<Rightarrow> u8 list \<Rightarrow> bool" where
  "user_string V a cs \<longleftrightarrow> 0 \<notin> set cs \<and> (\<forall>j < length cs. map_option fst (V (a + of_nat j)) = Some (cs ! j))
     \<and> map_option fst (V (a + of_nat (length cs))) = Some 0"

definition copy_bytes :: "u64 \<Rightarrow> u64 set" where
  "copy_bytes buf = {a. a - buf < 20}"

lemma copy_byte: "buf + of_nat j \<in> copy_bytes buf \<longleftrightarrow> j < 20" if "j < 2 ^ 32"
  using of_nat_less_u64 [of j 20] that by (simp add: copy_bytes_def)

lemma kload8_view: "map_option fst (view s a) = Some b \<Longrightarrow> kload8 s a = Inr b"
  by (auto simp: view_def kload8_def kresolve_def split: if_splits) unat_arith?

lemma kstore8_intact: "intact A m s ps \<Longrightarrow> a \<in> A \<Longrightarrow> kstore8 a b s = Inr (s\<lparr>mem := (mem s)(a := b)\<rparr>)"
  by (simp add: kstore8_def intact_def foreign_def)

lemma copy_loop_step:
  assumes k: "intact A m s ps" and A: "copy_bytes buf \<subseteq> A" and name: "user_string (view s) src cs" "length cs < 20" and i: "i \<le> length cs"
  shows "\<exists>m'. copy_loop buf src i s = Inr (length cs, s\<lparr>mem := m'\<rparr>) \<and> (\<forall>j < 20. m' (buf + of_nat j) = (if i \<le> j \<and> j < length cs then cs ! j else mem s (buf + of_nat j)))
    \<and> (\<forall>a. a \<notin> copy_bytes buf \<longrightarrow> m' a = mem s a)"
  using k name(1) i
proof (induction "length cs - i" arbitrary: i s m)
  case 0
  then have "kload8 s (src + of_nat i) = Inr 0" using kload8_view [of s] by (simp add: user_string_def)
  moreover have "i = length cs" using 0 by simp
  ultimately show ?case by (intro exI [of _ "mem s"]) (auto simp: copy_loop.simps [of buf src])
next
  case (Suc n)
  then have i: "i < length cs" by simp
  have c: "kload8 s (src + of_nat i) = Inr (cs ! i)" "cs ! i \<noteq> 0"
    using Suc.prems(2) i nth_mem [OF i] kload8_view [of s] unfolding user_string_def by metis+
  let ?m = "(mem s)(buf + of_nat i := cs ! i)" and ?s = "s\<lparr>mem := (mem s)(buf + of_nat i := cs ! i)\<rparr>"
  have b: "buf + of_nat i \<in> copy_bytes buf" using copy_byte [of i buf] i name(2) by simp
  have st: "kstore8 (buf + of_nat i) (cs ! i) s = Inr ?s" using kstore8_intact [OF Suc.prems(1)] b A by blast
  have k': "intact A ?m ?s ps" "view ?s = view s"
    by (rule intact_written [OF Suc.prems(1)], use b A in auto)+
  have "n = length cs - (i + 1)" "user_string (view ?s) src cs" "i + 1 \<le> length cs"
    using Suc.hyps(2) Suc.prems(2) i k'(2) by simp_all
  from Suc.hyps(1) [OF this(1) k'(1) this(2,3)] obtain m' where m': "copy_loop buf src (i + 1) ?s = Inr (length cs, ?s\<lparr>mem := m'\<rparr>)"
    "\<forall>j < 20. m' (buf + of_nat j) = (if i + 1 \<le> j \<and> j < length cs then cs ! j else ?m (buf + of_nat j))"
    "\<forall>a. a \<notin> copy_bytes buf \<longrightarrow> m' a = ?m a"
    by auto
  have "copy_loop buf src i s = Inr (length cs, s\<lparr>mem := m'\<rparr>)"
    using c st m'(1) i name(2) by (subst copy_loop.simps) simp
  moreover have "m' (buf + of_nat j) = (if i \<le> j \<and> j < length cs then cs ! j else mem s (buf + of_nat j))" if "j < 20" for j
    using m'(2) that i name(2) of_nat_word_eq [of j i] by (auto simp: less_Suc_eq_le)
  moreover have "m' a = mem s a" if "a \<notin> copy_bytes buf" for a using m'(3) that b by auto
  ultimately show ?case by blast
qed

lemma copy_name_step:
  assumes k: "intact A m s ps" and A: "copy_bytes buf \<subseteq> A" and name: "user_string (view s) src cs" "length cs \<le> 18"
  obtains m' where "copy_name buf src s = Inr (s\<lparr>mem := m'\<rparr>)" "intact A m' (s\<lparr>mem := m'\<rparr>) ps" "view (s\<lparr>mem := m'\<rparr>) = view s"
    "cstring m' buf cs" "\<And>a. a \<notin> copy_bytes buf \<Longrightarrow> m' a = mem s a"
proof -
  let ?m0 = "memset buf 20 (mem s)"
  let ?s0 = "s\<lparr>mem := ?m0\<rparr>"
  have out: "?m0 a = mem s a" if "a \<notin> copy_bytes buf" for a using that by (simp add: memset_apply copy_bytes_def)
  have k0: "intact A ?m0 ?s0 ps" "view ?s0 = view s" by (rule intact_written [OF k], use out A in auto)+
  obtain m1 where m1: "copy_loop buf src 0 ?s0 = Inr (length cs, ?s0\<lparr>mem := m1\<rparr>)"
    "\<And>j. j < 20 \<Longrightarrow> m1 (buf + of_nat j) = (if j < length cs then cs ! j else ?m0 (buf + of_nat j))"
    "\<And>a. a \<notin> copy_bytes buf \<Longrightarrow> m1 a = ?m0 a"
    using copy_loop_step [OF k0(1) A, of src cs 0] name k0(2) by auto
  have k1: "intact A m1 (?s0\<lparr>mem := m1\<rparr>) ps" by (rule intact_written(1) [OF k0(1)]) (use m1(3) A in auto)
  define a where "a = buf + of_nat (length cs + 1)"
  have a: "a \<in> copy_bytes buf" unfolding a_def using copy_byte [of "length cs + 1" buf] name(2) by simp
  let ?m2 = "m1(a := 0)"
  have out2: "?m2 x = mem s x" if "x \<notin> copy_bytes buf" for x using that m1(3) [OF that] out [OF that] a by auto
  have "kstore8 a 0 (?s0\<lparr>mem := m1\<rparr>) = Inr (s\<lparr>mem := ?m2\<rparr>)" using kstore8_intact [OF k1] a A by auto
  then have "copy_name buf src s = Inr (s\<lparr>mem := ?m2\<rparr>)"
    using m1(1) name(2) by (simp add: copy_name_def a_def)
  moreover have "?m2 x = mem s x" if "x \<notin> A" for x using out2 that A by blast
  note intact_written [OF k this]
  moreover have "cstring ?m2 buf cs"
  proof -
    have b: "?m2 (buf + of_nat j) = (if j < length cs then cs ! j else 0)" if "j \<le> length cs" for j
    proof -
      have "buf + of_nat j \<noteq> a" unfolding a_def using that name(2) of_nat_word_eq [of j "length cs + 1"] by simp
      moreover have "?m0 (buf + of_nat j) = 0"
        using copy_byte [of j buf] that name(2) by (simp add: memset_apply copy_bytes_def)
      ultimately show ?thesis using m1(2) [of j] that name(2) by (cases "j = length cs") simp_all
    qed
    then show ?thesis using name(1) by (simp add: cstring_def byte_at_def user_string_def)
  qed
  ultimately show thesis using that out2 by blast
qed

subsection \<open>The exec call\<close>

text \<open>
  What the call is to do: the program of that name as its file describes it in an otherwise empty address
  space, or -1 and nothing changed. Nothing is said of the files that \<open>loadable\<close> leaves out.
\<close>

definition exec_spec :: "bool \<Rightarrow> mem \<Rightarrow> (u8 list \<times> u64) list \<Rightarrow> u8 list \<Rightarrow> uview \<Rightarrow> (outcome \<times> uview) option" where
  "exec_spec wp m ms name V =
     (case map_of ms name of
        None \<Rightarrow> Some (Return (- 1), V)
      | Some ehdr \<Rightarrow> if loadable wp m ehdr then Some (EnterUser 0x43 0x70000003FF8 0x3B (e_entry (ehdr_in m ehdr)), elf_view m ehdr)
          else None)"

definition exec_bytes :: "mem \<Rightarrow> u64 \<Rightarrow> (u8 list \<times> u64) list \<Rightarrow> u8 list \<Rightarrow> u64 set" where
  "exec_bytes m tag ms name = module_bytes tag (length ms)
     \<union> (case map_of ms name of None \<Rightarrow> {} | Some ehdr \<Rightarrow> program_bytes m ehdr)"

definition exec_frames :: "mem \<Rightarrow> (u8 list \<times> u64) list \<Rightarrow> u8 list \<Rightarrow> nat" where
  "exec_frames m ms name = (case map_of ms name of None \<Rightarrow> 0 | Some ehdr \<Rightarrow> program_frames m ehdr)"

text \<open>The name in the kernel's buffer, and what the search for it says.\<close>

lemma exec_copied:
  assumes k: "intact (A \<union> copy_bytes (copy lk)) m s ps" and A: "A \<inter> copy_bytes (copy lk) = {}" "module_bytes (mods lk) (length ms) \<subseteq> A"
    and ms: "modules_in m (mods lk) ms" and name: "user_string (view s) arg0 name" "length name \<le> 18"
  obtains s1 m' where "copy_name (copy lk) arg0 s = Inr s1"
    "check_mod (mods lk) (copy lk) s1 = Inr (if map_of ms name = None then - 1 else 0)"
    "intact (A \<union> copy_bytes (copy lk)) m' s1 ps" "\<And>a. a \<in> A \<Longrightarrow> m a = m' a" "cstring m' (copy lk) name"
    "view s1 = view s" "kept s s1"
proof -
  let ?C = "copy_bytes (copy lk)"
  obtain m' where m': "copy_name (copy lk) arg0 s = Inr (s\<lparr>mem := m'\<rparr>)" "intact (A \<union> ?C) m' (s\<lparr>mem := m'\<rparr>) ps"
    "view (s\<lparr>mem := m'\<rparr>) = view s" "cstring m' (copy lk) name" "\<And>a. a \<notin> ?C \<Longrightarrow> m' a = mem s a"
    by (rule copy_name_step [OF k _ name]) auto
  have same: "m a = m' a" if "a \<in> A" for a
  proof -
    have "a \<notin> ?C" using that A(1) by blast
    then have "m' a = mem s a" by (rule m'(5))
    then show ?thesis using k that by (simp add: intact_def)
  qed
  have k1: "intact A m (s\<lparr>mem := m'\<rparr>) ps" by (rule intact_weaken [OF m'(2) _ same]) auto
  have "cstring (mem (s\<lparr>mem := m'\<rparr>)) (copy lk) name" using m'(4) by simp
  from check_loop_modules [OF k1 A(2) ms this, of 0]
  have "check_mod (mods lk) (copy lk) (s\<lparr>mem := m'\<rparr>) = Inr (if map_of ms name = None then - 1 else 0)"
    by (simp add: check_mod_def)
  then show thesis by (rule that [OF m'(1) _ m'(2) same m'(4,3)]) simp_all
qed

lemma exec_call_refines:
  assumes "intact (A \<union> copy_bytes (copy lk)) m (machine w) ps" "A \<inter> copy_bytes (copy lk) = {}"
    and "exec_bytes m (mods lk) ms name \<subseteq> A" "page_aligned (cr3 (machine w))" "modules_in m (mods lk) ms"
    and "user_string (view (machine w)) arg0 name" "length name \<le> 18" "exec_frames m ms name \<le> length ps"
    and "exec_spec (cr0_wp (machine w)) m ms name (view (machine w)) = Some (r, V)"
  obtains s' qs where "syscall_handler lk 3 arg0 arg1 arg2 w = Inr (r, w\<lparr>machine := s'\<rparr>)" "view s' = V"
    "intact A m s' qs" "kept (machine w) s'"
proof -
  define s where "s = machine w"
  let ?C = "copy_bytes (copy lk)"
  note h = assms [folded s_def]
  have tagA: "module_bytes (mods lk) (length ms) \<subseteq> A" using h(3) by (simp add: exec_bytes_def)
  obtain s1 m' where s1: "copy_name (copy lk) arg0 s = Inr s1"
    "check_mod (mods lk) (copy lk) s1 = Inr (if map_of ms name = None then - 1 else 0)"
    "intact (A \<union> ?C) m' s1 ps" "\<And>a. a \<in> A \<Longrightarrow> m a = m' a" "cstring m' (copy lk) name" "view s1 = view s" "kept s s1"
    by (rule exec_copied [OF h(1,2) tagA h(5-7)]) blast
  note copied = s1(1) [unfolded s_def] and check = s1(2) and kept1 = s1(7)
  have k1: "intact A m s1 ps" by (rule intact_weaken [OF s1(3) _ s1(4)]) auto
  have goal: "\<exists>s' qs. sys_exec lk arg0 w = Inr (r, w\<lparr>machine := s'\<rparr>) \<and> view s' = V \<and> intact A m s' qs \<and> kept s s'"
  proof (cases "map_of ms name")
    case None
    then have "sys_exec lk arg0 w = Inr (Return (- 1), w\<lparr>machine := s1\<rparr>)"
      using copied check by (simp add: sys_exec_def)
    moreover have "r = Return (- 1)" "view s1 = V" using h(9) None s1(6) by (simp_all add: exec_spec_def)
    ultimately show ?thesis using k1 kept1 by blast
  next
    case (Some ehdr)
    obtain qs where qs: "intact (A \<union> ?C) m' (unmap_lower_half (read_cr3 s1) s1) (qs @ ps)" "view (unmap_lower_half (read_cr3 s1) s1) = (\<lambda>_. None)"
      by (rule unmap_step [OF s1(3)]) (use h(4) kept1 in \<open>simp_all add: kept_def\<close>)
    define s2 where "s2 = unmap_lower_half (read_cr3 s1) s1"
    have kept2: "kept s s2" unfolding s2_def by (rule kept_trans [OF kept1 kept_unmap])
    have k2: "intact A m s2 (qs @ ps)" unfolding s2_def by (rule intact_weaken [OF qs(1) _ s1(4)]) auto
    have name2: "cstring (mem s2) (copy lk) name"
    proof (rule cstring_cong [OF s1(5)])
      fix j assume "j \<le> length name"
      then have "copy lk + of_nat j \<in> ?C" using copy_byte [of j "copy lk"] h(7) by simp
      then show "mem s2 (copy lk + of_nat j) = m' (copy lk + of_nat j)"
        using qs(1) by (simp add: intact_def s2_def)
    qed
    have loop: "execute_loop (mods lk) (copy lk) 0 s2 = start_mod ehdr s2"
      using execute_loop_modules [OF k2 tagA h(5) name2, of 0] Some by simp
    obtain V' where V: "program_view (cr0_wp s2) m ehdr (view s2) = Some V'"
      "r = EnterUser 0x43 0x70000003FF8 0x3B (e_entry (ehdr_in m ehdr))" "V = V'"
      using h(9) Some kept2 qs(2) loadable_view by (auto simp: exec_spec_def kept_def s2_def split: if_splits)
    have "program_bytes m ehdr \<subseteq> A" "program_frames m ehdr \<le> length (qs @ ps)"
      using h(3,8) Some by (auto simp: exec_bytes_def exec_frames_def)
    from start_mod_step [OF k2 this V(1)] obtain s3 d where s3:
      "start_mod ehdr s2 = Inr (UserMode 0x43 0x70000003FF8 0x3B (e_entry (ehdr_in m ehdr)), s3)"
      "intact A m s3 (drop d (qs @ ps))" "kept s2 s3" "view s3 = V'" by blast
    have "sys_exec lk arg0 w = Inr (r, w\<lparr>machine := s3\<rparr>)"
      using copied check Some loop s3(1) V(2)
      by (simp add: sys_exec_def s2_def [symmetric] Let_def execute_mod_def)
    then show ?thesis using s3(2,4) V(3) kept_trans [OF kept2 s3(3)] by blast
  qed
  then show thesis using that by (auto simp: syscall_handler_def s_def)
qed

text \<open>
  C4: the exec call starts the program it is given. With a name of at most 18 characters in the caller's
  memory, and the modules tag, the program's file and the array for the name in kernel memory that no
  page table, free frame or program page overlaps, the call returns -1 and leaves the caller's memory as
  it was if no module has that name. If one has, and its file is \<open>loadable\<close> (no segment has zeros to fill that
  are not in the file as well, no chunk of 2048 bytes crosses a page, no read-only page takes two chunks where
  \<open>CR0.WP\<close> is set, no two segments share a page), the processor enters user mode in ring 3 at the entry point of
  the ELF file, on the stack, and the user half of memory is what the file describes: \<open>p_filesz\<close> bytes of
  the file and then zeros in the pages of each segment, with the segment's rights, the stack and the two
  test pages, and nothing of the caller's. The kernel's bytes, the direct map and the page tables' registers
  are kept. (Without the first condition the bytes after \<open>p_filesz\<close> are those that follow in the file, because
  \<open>proc.c\<close> copies \<open>p_memsz\<close> bytes of it; C36 is what happens without the others.)
\<close>

theorem exec_starts_program:
  assumes "intact (exec_bytes m (mods lk) ms name \<union> copy_bytes (copy lk)) m (machine w) ps"
    and "exec_bytes m (mods lk) ms name \<inter> copy_bytes (copy lk) = {}"
    and "page_aligned (cr3 (machine w))"
    and "modules_in m (mods lk) ms"
    and "user_string (view (machine w)) arg0 name" "length name \<le> 18"
    and "exec_frames m ms name \<le> length ps"
    and "exec_spec (cr0_wp (machine w)) m ms name (view (machine w)) = Some (r, V)"
  shows "\<exists>s' qs. syscall_handler lk 3 arg0 arg1 arg2 w = Inr (r, w\<lparr>machine := s'\<rparr>) \<and> view s' = V
    \<and> intact (exec_bytes m (mods lk) ms name) m s' qs \<and> kept (machine w) s'"
  by (rule exec_call_refines [OF assms(1,2) order_refl assms(3-8), of arg1 arg2]) blast

text \<open>
  The modules tag with one module, named \<open>a\<close>, and its file: 16 bytes of code at 0x500000000, read-only
  and executable, entered at 0x500000004.
\<close>

definition file_bytes :: "(u64 \<times> u8) list" where
  "file_bytes =
     [(0xffffffff80100010, 1), (0xffffffff8010001A, 0x20), (0xffffffff8010001B, 0x80), (0xffffffff8010001C, 0xff),
      (0xffffffff8010001D, 0xff), (0xffffffff8010001E, 0xff), (0xffffffff8010001F, 0xff), (0xffffffff80100028, 0x61),
      (0xffffffff80200018, 4), (0xffffffff8020001C, 5), (0xffffffff80200020, 0x40), (0xffffffff80200038, 1),
      (0xffffffff80200040, 1), (0xffffffff80200044, 5), (0xffffffff80200048, 0x80), (0xffffffff80200054, 5),
      (0xffffffff80200060, 0x10), (0xffffffff80200068, 0x10), (0xffffffff80200084, 0xCD)]"

definition file_mem :: mem where
  "file_mem a = (if 0xffffffff80000000 \<le> a then (case map_of file_bytes a of None \<Rightarrow> 0 | Some b \<Rightarrow> b) else mem spare a)"

definition exec_links :: links where
  "exec_links = \<lparr>mods = 0xffffffff80100000, init_name = 0xffffffff80400000, copy = 0xffffffff80300000\<rparr>"

lemma file_loads:
  "load64 file_mem 0xffffffff80100010 = 1" "load64 file_mem 0xffffffff80100018 = 0xffffffff80200000"
  "load64 file_mem 0xffffffff80200018 = 0x500000004" "load64 file_mem 0xffffffff80200020 = 0x40" "load64 file_mem 0xffffffff80200038 = 1"
  "load64 file_mem 0xffffffff80200040 = 0x500000001" "load64 file_mem 0xffffffff80200044 = 0x8000000005"
  "load64 file_mem 0xffffffff80200048 = 0x80" "load64 file_mem 0xffffffff80200050 = 0x500000000" "load64 file_mem 0xffffffff80200060 = 0x10"
  "load64 file_mem 0xffffffff80200068 = 0x10"
  by (simp_all add: load64_def file_mem_def file_bytes_def)

lemma file_modules: "modules_in file_mem 0xffffffff80100000 [([0x61], 0xffffffff80200000)]"
  by (simp add: modules_in_def module_addr_def file_loads cstring_def byte_at_def file_mem_def file_bytes_def)

lemma file_ehdr: "e_entry (ehdr_in file_mem 0xffffffff80200000) = 0x500000004" "e_phoff (ehdr_in file_mem 0xffffffff80200000) = 0x40"
  "e_phnum (ehdr_in file_mem 0xffffffff80200000) = 1"
  by (simp_all add: ehdr_in_def load16_def file_loads take_bit_eq_mod)

lemma file_phdrs: "phdrs_in file_mem 0xffffffff80200000 = [phdr_in file_mem 0xffffffff80200040]"
  by (simp add: phdrs_in_def file_ehdr)

lemma file_phdr: "p_type (phdr_in file_mem 0xffffffff80200040) = 1" "p_flags (phdr_in file_mem 0xffffffff80200040) = 5"
  "p_offset (phdr_in file_mem 0xffffffff80200040) = 0x80" "p_vaddr (phdr_in file_mem 0xffffffff80200040) = 0x500000000"
  "p_filesz (phdr_in file_mem 0xffffffff80200040) = 0x10" "p_memsz (phdr_in file_mem 0xffffffff80200040) = 0x10"
  by (simp_all add: phdr_in_def load32_def file_loads take_bit_eq_mod)

lemma window_bounds:
  fixes a b n :: u64
  assumes "a - b < n" "n \<le> 0x1000" "b < 0xffffffff90000000"
  shows "b \<le> a" "a < b + n"
proof -
  have "a - b < 0x1000" using assms(1,2) by (rule less_le_trans)
  then have "unat b + unat (a - b) < 2 ^ 64" "unat b + unat n < 2 ^ 64"
    using assms by (simp_all add: word_less_nat_alt word_le_nat_alt)
  then have "unat (b + (a - b)) = unat b + unat (a - b)" "unat (b + n) = unat b + unat n"
    using unat_add_lem [of b "a - b"] unat_add_lem [of b n] by simp_all
  then show "b \<le> a" "a < b + n" using assms(1) by (simp_all add: word_le_nat_alt word_less_nat_alt)
qed

lemma window_within:
  fixes a b n :: u64
  assumes "a - b < n" "n \<le> 0x1000" "b < 0xffffffff90000000" "lo \<le> b" "b + n \<le> hi"
  shows "lo \<le> a \<and> a < hi"
  using window_bounds [OF assms(1-3)] assms(4,5) by auto

lemma file_windows:
  assumes "a \<in> exec_bytes file_mem (mods exec_links) [([0x61], 0xffffffff80200000)] [0x61]"
  shows "0xffffffff80100000 \<le> a \<and> a < 0xffffffff80201000"
proof -
  from assms consider "a - 0xffffffff80100010 < 152" | "a - 0xffffffff80200000 < 64" | "a - 0xffffffff80200040 < 56"
    | "a - 0xffffffff80200080 < 16"
    by (auto simp: exec_bytes_def module_bytes_def program_bytes_def exec_links_def file_ehdr file_phdrs header_bytes_def file_phdr lessThan_Suc)
  then show ?thesis by cases (rule window_within, assumption, simp_all)+
qed

lemma copy_window: "a \<in> copy_bytes (copy exec_links) \<Longrightarrow> 0xffffffff80300000 \<le> a"
  using window_bounds(1) [of a "0xffffffff80300000" 20] by (simp add: copy_bytes_def exec_links_def)

lemma file_area:
  "exec_bytes file_mem (mods exec_links) [([0x61], 0xffffffff80200000)] [0x61] \<union> copy_bytes (copy exec_links) \<subseteq> kernel_area"
  using file_windows copy_window order_trans [of "0xffffffff80000000" "0xffffffff80100000 :: u64"]
    order_trans [of "0xffffffff80000000" "0xffffffff80300000 :: u64"] by (auto simp: kernel_area_def)

lemma file_apart:
  "exec_bytes file_mem (mods exec_links) [([0x61], 0xffffffff80200000)] [0x61] \<inter> copy_bytes (copy exec_links) = {}"
proof -
  have False if "a < 0xffffffff80201000" "0xffffffff80300000 \<le> a" for a :: u64
    using le_less_trans [OF that(2,1)] by simp
  then show ?thesis using file_windows copy_window by blast
qed

lemma file_loadable: "loadable wp file_mem 0xffffffff80200000"
  by (simp add: loadable_def file_phdrs segment_fits_def file_phdr chunks_fit_def take_bit_eq_mod not_le [symmetric])

lemma file_view:
  "elf_view file_mem 0xffffffff80200000 0x500000004 = Some (0xCD, \<lparr>may_user = True, may_write = False, may_exec = True\<rparr>)"
  "elf_view file_mem 0xffffffff80200000 0x500000800 = Some (0, \<lparr>may_user = True, may_write = False, may_exec = True\<rparr>)"
  by (simp_all add: elf_view_def file_phdrs elf_page_def in_pages_def elf_byte_def segment_rights_def file_phdr file_mem_def file_bytes_def)

lemma file_spec: "exec_spec wp file_mem [([0x61], 0xffffffff80200000)] [0x61] W
    = Some (EnterUser 0x43 0x70000003FF8 0x3B 0x500000004, elf_view file_mem 0xffffffff80200000)"
  by (simp add: exec_spec_def file_loadable file_ehdr)

text \<open>A machine whose program has a page at 0x400000, which starts with the name.\<close>

lemma exec_sample:
  obtains s qs where "intact kernel_area file_mem s qs" "cr3 s = 0x1000" "user_string (view s) 0x400000 [0x61]"
    "exec_frames file_mem [([0x61], 0xffffffff80200000)] [0x61] \<le> length qs" "view s 0x500000004 = None"
    "\<And>x. drop_bit 12 x = 0x400 \<Longrightarrow> 1 \<le> x - 0x400000 \<Longrightarrow> view s x = Some (0, \<lparr>may_user = True, may_write = True, may_exec = True\<rparr>)"
proof -
  let ?ps = "rev spare_frames @ sample_frames" and ?s1 = "spare\<lparr>mem := file_mem\<rparr>"
  have w: "file_mem a = mem spare a" if "a \<notin> kernel_area" for a using that by (simp add: file_mem_def kernel_area_def)
  have k1: "intact kernel_area file_mem ?s1 ?ps" by (rule intact_written(1) [OF spare_intact w])
  have v1: "view ?s1 = (\<lambda>_. None)" using intact_written(2) [OF spare_intact w] spare_view by (simp add: fun_eq_iff)
  have "(0x400000 :: u64) < 2 ^ 47" "4 \<le> length ?ps" by (simp_all add: sample_frames_def)
  from map_step [OF k1 this, of True True True] obtain b s2 d where s2: "d \<le> 4" "intact kernel_area file_mem s2 (drop d ?ps)" "kept ?s1 s2"
    "view s2 = map_view 0x400000 \<lparr>may_user = True, may_write = True, may_exec = True\<rparr> (\<lambda>_. None)" unfolding v1 by metis
  have "view s2 0x400000 = Some (0, \<lparr>may_user = True, may_write = True, may_exec = True\<rparr>)" by (simp add: s2(4) map_view_def)
  moreover have "0xffffffff80100028 + k \<in> kernel_area" if "k < 1" for k :: u64 using that by (simp add: kernel_area_def)
  ultimately obtain s where s: "intact kernel_area file_mem s (drop d ?ps)" "kept s2 s"
    "view s = copy_view 0x400000 1 (\<lambda>k. file_mem (0xffffffff80100028 + k)) (view s2)"
    using copy_step [OF s2(2), of "0x400000" 1 0 "\<lparr>may_user = True, may_write = True, may_exec = True\<rparr>" "0xffffffff80100028"]
    by (auto simp: take_bit_eq_mod)
  have kp: "cr3 s = 0x1000" using s2(3) s(2) by (simp add: kept_def)
  have name: "user_string (view s) 0x400000 [0x61]"
    by (simp add: user_string_def s(3) s2(4) copy_view_def map_view_def drop_bit_eq_div file_mem_def file_bytes_def)
  have gone: "view s 0x500000004 = None" by (simp add: s(3) s2(4) copy_view_def map_view_def drop_bit_eq_div)
  have rest: "view s x = Some (0, \<lparr>may_user = True, may_write = True, may_exec = True\<rparr>)"
    if "drop_bit 12 x = 0x400" "1 \<le> x - 0x400000" for x
    using that by (simp add: s(3) s2(4) copy_view_def map_view_def drop_bit_eq_div not_less [symmetric])
  have frames: "exec_frames file_mem [([0x61], 0xffffffff80200000)] [0x61] \<le> length (drop d ?ps)"
    using s2(1) by (simp add: exec_frames_def program_frames_def file_phdrs header_frames_def file_phdr segment_frames_def
        spare_frames_def indices_def sample_frames_def)
  show thesis by (rule that [OF s(1) kp name frames gone rest])
qed

lemma exec_starts_program_witness:
  "\<exists>s s'. syscall_handler exec_links 3 0x400000 0 0 (sample_world\<lparr>machine := s\<rparr>)
       = Inr (EnterUser 0x43 0x70000003FF8 0x3B 0x500000004, sample_world\<lparr>machine := s'\<rparr>)
     \<and> view s 0x500000004 = None
     \<and> view s' 0x500000004 = Some (0xCD, \<lparr>may_user = True, may_write = False, may_exec = True\<rparr>)
     \<and> view s' 0x500000800 = Some (0, \<lparr>may_user = True, may_write = False, may_exec = True\<rparr>)"
proof -
  obtain s qs where s: "intact kernel_area file_mem s qs" "cr3 s = 0x1000" "user_string (view s) 0x400000 [0x61]"
    "exec_frames file_mem [([0x61], 0xffffffff80200000)] [0x61] \<le> length qs" "view s 0x500000004 = None"
    by (rule exec_sample)
  let ?w = "sample_world\<lparr>machine := s\<rparr>" and ?ms = "[([0x61 :: u8], 0xffffffff80200000 :: u64)]"
  let ?A = "exec_bytes file_mem (mods exec_links) ?ms [0x61] \<union> copy_bytes (copy exec_links)"
  have k: "intact ?A file_mem s qs" by (rule intact_weaken [OF s(1) file_area]) simp
  have tag: "modules_in file_mem (mods exec_links) ?ms" using file_modules by (simp add: exec_links_def)
  have "\<exists>s' qs. syscall_handler exec_links 3 0x400000 0 0 ?w = Inr (EnterUser 0x43 0x70000003FF8 0x3B 0x500000004, ?w\<lparr>machine := s'\<rparr>)
    \<and> view s' = elf_view file_mem 0xffffffff80200000
    \<and> intact (exec_bytes file_mem (mods exec_links) ?ms [0x61]) file_mem s' qs \<and> kept (machine ?w) s'"
    by (rule exec_starts_program) (use k file_apart tag s(2-4) file_spec in simp_all)
  then obtain s' where "syscall_handler exec_links 3 0x400000 0 0 ?w = Inr (EnterUser 0x43 0x70000003FF8 0x3B 0x500000004, ?w\<lparr>machine := s'\<rparr>)"
    "view s' = elf_view file_mem 0xffffffff80200000" by blast
  then show ?thesis using file_view s(5) by (intro exI [of _ s] exI [of _ s']) simp
qed

end
