(* ===== verification/Shell.thy ===== *)
theory Shell
  imports Programs Exec_Call
begin

text \<open>
  A round of the shell from the prompt to what becomes of the line: the program of \<open>Programs\<close> over the exec
  call of \<open>Exec_Call\<close>. The modules' table and the files, kernel memory, are followed through the prompt, the
  heap and the line (\<open>intact\<close>), and the program's memory through a call of exec that fails.
\<close>

lemma view_kload8: "kload8 s a = Inr b \<Longrightarrow> a < 2 ^ 47 \<Longrightarrow> map_option fst (view s a) = Some b"
proof -
  assume h: "kload8 s a = Inr b" "a < 2 ^ 47"
  have "\<not> 0xffff800000000000 \<le> a" "a < 0x800000000000" using h(2) by unat_arith+
  then show ?thesis using h by (auto simp: view_def kload8_def kresolve_def bindf_Inr split: option.splits if_splits)
qed

lemma holds_user_string:
  assumes "holds w ln (ks @ [0])" "block_ok w a ln" "0 \<notin> set ks" "length ks < 255"
  shows "user_string (view (machine w)) ln ks"
proof -
  have "map_option fst (view (machine w) (ln + of_nat j)) = Some ((ks @ [0]) ! j)" if "j \<le> length ks" for j
    by (rule view_kload8) (use assms that in \<open>auto simp: holds_def ubyte_def block_ok_def user_writes_def\<close>)
  note at = this
  have "map_option fst (view (machine w) (ln + of_nat j)) = Some (ks ! j)" if "j < length ks" for j
    using at [of j] that by (simp add: nth_append)
  moreover have "map_option fst (view (machine w) (ln + of_nat (length ks))) = Some 0" using at [of "length ks"] by simp
  ultimately show ?thesis using assms(3) by (simp add: user_string_def)
qed

text \<open>A state of the same view is to a program the same memory.\<close>

lemma same_view:
  assumes v: "view s' = view (machine w)" "kept (machine w) s'" "intact A m s' qs" and b: "block_ok w a ln"
  shows "holds w ln cs \<Longrightarrow> length cs < 255 \<Longrightarrow> holds (w\<lparr>machine := s'\<rparr>) ln cs" "cell_ok a (w\<lparr>machine := s'\<rparr>)"
proof -
  have root: "cr3_root (machine w) = cr3 (machine w)" "cr3 s' = cr3 (machine w)" "cr3_root s' = cr3 (machine w)"
    using b v(2) cr3_root_aligned cr3_root_kept [OF v(2)] by (auto simp: block_ok_def user_ok_def kept_def)
  show "holds (w\<lparr>machine := s'\<rparr>) ln cs" if h: "holds w ln cs" "length cs < 255"
    unfolding holds_def ubyte_def
  proof (intro allI impI)
    fix j assume j: "j < length cs"
    have "ln + of_nat j < 2 ^ 47" using b j h(2) by (simp add: block_ok_def user_writes_def)
    then have "map_option fst (view (machine w) (ln + of_nat j)) = Some (cs ! j)"
      using h(1) j by (intro view_kload8) (auto simp: holds_def ubyte_def)
    then show "kload8 (machine (w\<lparr>machine := s'\<rparr>)) (ln + of_nat j) = Inr (cs ! j)"
      using kload8_view [of s'] v(1) by simp
  qed
  obtain p r where a: "a < 2 ^ 47" "walk (machine w) (cr3 (machine w)) a = Some (p, r)" "may_write r"
    using b by (auto simp: block_ok_def user_writes_def)
  then have "view s' a = Some (mem (machine w) (p + hhdm (machine w)), r)" unfolding v(1) by (simp add: view_def root)
  then obtain q where "walk s' (cr3 (machine w)) a = Some (q, r)" by (auto simp: view_def root split: if_splits)
  then show "cell_ok a (w\<lparr>machine := s'\<rparr>)"
    using a v(3) by (auto simp: cell_ok_def intact_def root)
qed

text \<open>The message, where exec has returned -1 and left the program's memory as it was.\<close>

lemma shell_says:
  assumes "view s = view (machine v)" "kept (machine v) s" "intact A m s qs" "block_ok v a ln" "holds v ln (ks @ [0])"
    and ks: "0 \<notin> set ks" "length ks < 254"
  shows "\<exists>u. bindf (kstring s ln 0) (\<lambda>cs. printf lk a (str ''Couldn'' @ [0x27] @ line ''t find %s'') [StrArg cs] (v\<lparr>machine := s\<rparr>)) = Inr u
    \<and> kbd u = kbd v \<and> screen u = fold term_putchar (str ''Couldn'' @ [0x27] @ str ''t find '' @ ks @ [0x0A]) (screen v)"
proof -
  let ?v = "v\<lparr>machine := s\<rparr>" and ?text = "str ''Couldn'' @ [0x27] @ str ''t find '' @ ks @ [0x0A]"
  note sv = same_view [OF assms(1-4)]
  have "kstring (machine ?v) ln 0 = Inr ks" using kstring_holds [OF sv(1) [OF assms(5)] ks(1), of 0] ks(2) by simp
  moreover obtain u where "printf lk a (str ''Couldn'' @ [0x27] @ line ''t find %s'') [StrArg ks] ?v = Inr u" "kbd u = kbd v"
    "screen u = fold term_putchar ?text (screen v)"
    using print_k_text [OF sv(2), of lk ?text] printf_text [OF not_found_text [OF ks(1)] no_hex, of lk a ?v] by auto
  ultimately show ?thesis by simp
qed

subsection \<open>Property\<close>

text \<open>
  C13: a round of the shell, from its prompt to the program it starts or the message that there is none. The
  line is typed ahead, with at most 18 characters (a longer one overruns the 20 bytes of \<open>copy\<close> in the kernel) and
  no byte 0; a backspace edits the screen and stays in the name. The shell shows its prompt and the keys, takes
  exactly the keys of the line, and calls \<open>exec\<close> with the line without its newline. If no module has that
  name, it says that it could not find the line, and goes on; if one has, and C4 covers its file, the round
  ends in that program, at its entry point, with memory as its file describes it. The kernel's memory
  with the modules is apart from the pages of the program and the free frames.
\<close>

theorem shell_round_line:
  assumes "line_room pl h w" "kbd_ok (kbd w)" "chars (kbd w) = ks @ 0x0A # rest"
    and "0x0A \<notin> set ks" "0 \<notin> set ks" "length ks \<le> 18"
    and "intact (exec_bytes m (mods lk) ms ks \<union> copy_bytes (copy lk)) m (machine w) ps"
    and "exec_bytes m (mods lk) ms ks \<inter> copy_bytes (copy lk) = {}" "modules_in m (mods lk) ms"
    and "exec_frames m ms ks + 4 \<le> length ps"
    and "\<And>ehdr. map_of ms ks = Some ehdr \<Longrightarrow> loadable (cr0_wp (machine w)) m ehdr"
  shows "\<exists>res h' u. shell_round lk pl h w = Inr (res, h', u) \<and> kbd_ok (kbd u) \<and> chars (kbd u) = rest
    \<and> (case map_of ms ks of
         None \<Rightarrow> res = Return (- 1)
           \<and> screen u = fold term_putchar (str ''>> '' @ ks @ [0x0A] @ str ''Couldn'' @ [0x27] @ str ''t find '' @ ks @ [0x0A]) (screen w)
       | Some ehdr \<Rightarrow> res = EnterUser 0x43 0x70000003FF8 0x3B (e_entry (ehdr_in m ehdr))
           \<and> screen u = fold term_putchar (str ''>> '' @ ks @ [0x0A]) (screen w) \<and> view (machine u) = elf_view m ehdr)"
proof -
  let ?msg = "str ''Couldn'' @ [0x27] @ line ''t find %s''" and ?A = "exec_bytes m (mods lk) ms ks"
  have len: "length ks < 254" "4 \<le> length ps" using assms(6,10) by simp_all
  obtain ln h' v where v: "kstring (machine v) ln 0 = Inr ks" "kbd_ok (kbd v)" "chars (kbd v) = rest"
    "screen v = fold term_putchar (str ''>> '' @ ks @ [0x0A]) (screen w)" "block_ok v (char_at pl) ln" "holds v ln (ks @ [0])"
    "\<And>A m ps. intact A m (machine w) ps \<Longrightarrow> 4 \<le> length ps \<Longrightarrow> \<exists>n \<le> 4. intact A m (machine v) (drop n ps)"
    "kept (machine w) (machine v)"
    "shell_round lk pl h w = bindf (exec lk ln v) (\<lambda>(res, v).
       case res of
         EnterUser a b c d \<Rightarrow> Inr (res, h', v)
       | Return r \<Rightarrow>
           if (ucast r :: u32) = - 1
           then bindf (kstring (machine v) ln 0) (\<lambda>cs.
                bindf (printf lk (char_at pl) ?msg [StrArg cs] v) (\<lambda>v. Inr (res, h', v)))
           else Inr (res, h', v))"
    by (rule shell_round_exec [OF assms(1-5) len(1)]) blast
  obtain n where n: "n \<le> 4" "intact (?A \<union> copy_bytes (copy lk)) m (machine v) (drop n ps)"
    using v(7) [OF assms(7) len(2)] by blast
  have al: "page_aligned (cr3 (machine v))" using v(5) by (auto simp: block_ok_def user_ok_def dest: space_okD(2))
  have name: "user_string (view (machine v)) ln ks" by (rule holds_user_string [OF v(6,5) assms(5)]) (use len in simp)
  have fr: "exec_frames m ms ks \<le> length (drop n ps)" using assms(10) n(1) by simp
  have wp: "cr0_wp (machine v) = cr0_wp (machine w)" using v(8) by (simp add: kept_def)
  note refines = exec_call_refines [OF n(2) assms(8) order_refl al assms(9) name assms(6) fr]
  show ?thesis
  proof (cases "map_of ms ks")
    case None
    then have "exec_spec (cr0_wp (machine v)) m ms ks (view (machine v)) = Some (Return (- 1), view (machine v))"
      by (simp add: exec_spec_def)
    then obtain s qs where s: "exec lk ln v = Inr (Return (- 1), v\<lparr>machine := s\<rparr>)" "view s = view (machine v)" "intact ?A m s qs" "kept (machine v) s"
      unfolding exec_def using refines by blast
    obtain u where u: "bindf (kstring s ln 0) (\<lambda>cs. printf lk (char_at pl) ?msg [StrArg cs] (v\<lparr>machine := s\<rparr>)) = Inr u" "kbd u = kbd v"
      "screen u = fold term_putchar (str ''Couldn'' @ [0x27] @ str ''t find '' @ ks @ [0x0A]) (screen v)"
      using shell_says [OF s(2,4,3) v(5,6) assms(5) len(1)] by blast
    have "(ucast (- 1 :: u64) :: u32) = - 1" by (rule bit_word_eqI) (simp add: bits)
    then have "shell_round lk pl h w = Inr (Return (- 1), h', u)" using u(1) by (auto simp: v(9) s(1) bindf_Inr)
    then show ?thesis using None v(2-4) u(2,3) by simp
  next
    case (Some ehdr)
    then have "exec_spec (cr0_wp (machine v)) m ms ks (view (machine v))
        = Some (EnterUser 0x43 0x70000003FF8 0x3B (e_entry (ehdr_in m ehdr)), elf_view m ehdr)"
      using assms(11) wp by (simp add: exec_spec_def)
    then obtain s where "exec lk ln v = Inr (EnterUser 0x43 0x70000003FF8 0x3B (e_entry (ehdr_in m ehdr)), v\<lparr>machine := s\<rparr>)"
      "view s = elf_view m ehdr"
      unfolding exec_def using refines by blast
    then show ?thesis using Some v(2-4,9) by simp
  qed
qed

text \<open>A program on the machine with the module \<open>a\<close>, with one half page of heap.\<close>

definition sample_places :: places where
  "sample_places = \<lparr>char_at = 0x10010, page_at = 0x10008, exit_at = 0x10020, junk_line = 0\<rparr>"

lemma shell_sample:
  obtains w n where "line_room sample_places \<lparr>bump = 0x10800, space_remaining = 0\<rparr> w" "kbd w = k" "screen w = blank_term"
    "n \<le> 4" "intact kernel_area file_mem (machine w) (drop n (rev spare_frames @ sample_frames))"
proof -
  let ?ps = "rev spare_frames @ sample_frames" and ?s = "spare\<lparr>mem := file_mem\<rparr>"
  let ?w = "sample_world\<lparr>machine := ?s, kbd := k\<rparr>"
  have away: "file_mem a = mem spare a" if "a \<notin> kernel_area" for a using that by (simp add: file_mem_def kernel_area_def)
  have k: "intact kernel_area file_mem ?s ?ps" "view ?s = (\<lambda>_. None)"
    using intact_written [OF spare_intact away] spare_view by (simp_all add: fun_eq_iff)
  have c: "cr3 ?s = 0x1000" "v_heap ?s = 0x10000" "cr3_root ?s = 0x1000"
    using free_all_rest [of sample spare_frames] by (simp_all add: spare_def same_rest_def sample_def cr3_root_def)
  have none: "walk ?s 0x1000 0x10000 = None" using fun_cong [OF k(2), of "0x10000"] by (simp add: view_def c)
  have ok: "space_ok ?s (cr3 ?s) ?ps" using k(1) by (simp add: intact_def c)
  have v: "page_aligned (0x10000 :: u64)" "take_bit 11 (0x10000 :: u64) = 0" "take_bit 12 (0x10008 :: u64) = 8"
    "drop_bit 12 (0x10008 :: u64) = drop_bit 12 0x10000"
    by (simp_all add: page_aligned_def take_bit_eq_mod drop_bit_eq_div)
  have len: "4 \<le> length ?ps" by (simp add: spare_frames_def indices_def)
  have "heap_room 0x10008 ?w 2"
    using v ok none len c by (auto simp: heap_room_def Let_def page_top_def pages_for_def)
  then have "heap_room 0x10008 ?w (Suc 1)" by (simp add: numeral_2_eq_2)
  from mmap_room [OF this, of sample_links] obtain w where
    w: "mmap sample_links 0x10008 ?w = Inr (0x10000, w)" "v_heap (machine w) = 0x10800" "heap_room 0x10008 w 1"
    "\<forall>a. a - 0x10000 < 2048 \<longrightarrow> user_writes w a"
    using c(2) by auto
  then obtain s where s: "sys_mmap 0x10008 ?s = Inr s" "w = ?w\<lparr>machine := s\<rparr>" by (auto simp: mmap_def syscall_handler_def bindf_Inr)
  obtain n where n: "n \<le> 4" "intact kernel_area file_mem s (drop n ?ps)"
    using sys_mmap_intact(2) [OF k(1) _ _ len _ s(1)] c v(1) by (auto simp: page_aligned_def take_bit_eq_mod)
  have "user_writes w 0x10010" using w(4) by simp
  then have "line_room sample_places \<lparr>bump = 0x10800, space_remaining = 0\<rparr> w"
    using w(2,3) by (simp add: line_room_def sample_places_def heap_wf_def take_bit_eq_mod)
  then show thesis using n s(2) by (intro that [of w n]) (simp_all add: sample_world_def)
qed

lemma shell_round_line_witness:
  "(\<exists>w h' u. shell_round exec_links sample_places \<lparr>bump = 0x10800, space_remaining = 0\<rparr> w = Inr (Return (- 1), h', u)
      \<and> screen w = blank_term \<and> kbd w = typed (str ''ls'' @ [0x0A]) \<and> chars (kbd u) = []
      \<and> screen u = fold term_putchar (str ''>> ls'' @ [0x0A] @ str ''Couldn'' @ [0x27] @ str ''t find ls'' @ [0x0A]) blank_term)
    \<and> (\<exists>w h' u. shell_round exec_links sample_places \<lparr>bump = 0x10800, space_remaining = 0\<rparr> w
        = Inr (EnterUser 0x43 0x70000003FF8 0x3B 0x500000004, h', u)
      \<and> kbd w = typed (str ''a'' @ [0x0A])
      \<and> view (machine u) 0x500000004 = Some (0xCD, \<lparr>may_user = True, may_write = False, may_exec = True\<rparr>))"
proof -
  let ?h = "\<lparr>bump = 0x10800, space_remaining = 0\<rparr> :: heap" and ?ms = "[([0x61 :: u8], 0xffffffff80200000 :: u64)]"
  have tag: "modules_in file_mem (mods exec_links) ?ms" using file_modules by (simp add: exec_links_def)
  have sub: "exec_bytes file_mem (mods exec_links) ?ms ks \<subseteq> exec_bytes file_mem (mods exec_links) ?ms [0x61]" for ks
    by (auto simp: exec_bytes_def split: if_splits)
  have fr: "exec_frames file_mem ?ms ks + 4 \<le> length (drop n (rev spare_frames @ sample_frames))" if "n \<le> 4" for ks n
    using that by (cases "ks = [0x61]") (simp_all add: exec_frames_def program_frames_def file_phdrs header_frames_def file_phdr segment_frames_def
        spare_frames_def indices_def sample_frames_def)
  have round: "\<exists>w res h' u. screen w = blank_term \<and> kbd w = typed (ks @ [0x0A]) \<and> shell_round exec_links sample_places ?h w = Inr (res, h', u)
      \<and> chars (kbd u) = [] \<and> (case map_of ?ms ks of
         None \<Rightarrow> res = Return (- 1)
           \<and> screen u = fold term_putchar (str ''>> '' @ ks @ [0x0A] @ str ''Couldn'' @ [0x27] @ str ''t find '' @ ks @ [0x0A]) (screen w)
       | Some ehdr \<Rightarrow> res = EnterUser 0x43 0x70000003FF8 0x3B (e_entry (ehdr_in file_mem ehdr))
           \<and> screen u = fold term_putchar (str ''>> '' @ ks @ [0x0A]) (screen w) \<and> view (machine u) = elf_view file_mem ehdr)"
    if "kbd_ok (typed (ks @ [0x0A]))" "chars (typed (ks @ [0x0A])) = ks @ 0x0A # []" "0x0A \<notin> set ks" "0 \<notin> set ks" "length ks \<le> 18" for ks
  proof -
    obtain w n where w: "line_room sample_places ?h w" "kbd w = typed (ks @ [0x0A])" "screen w = blank_term"
      "n \<le> 4" "intact kernel_area file_mem (machine w) (drop n (rev spare_frames @ sample_frames))" by (rule shell_sample)
    have "intact (exec_bytes file_mem (mods exec_links) ?ms ks \<union> copy_bytes (copy exec_links)) file_mem (machine w)
        (drop n (rev spare_frames @ sample_frames))"
      by (rule intact_weaken [OF w(5)]) (use sub [of ks] file_area in auto)
    moreover have "exec_bytes file_mem (mods exec_links) ?ms ks \<inter> copy_bytes (copy exec_links) = {}" using sub [of ks] file_apart by blast
    moreover have "loadable (cr0_wp (machine w)) file_mem ehdr" if "map_of ?ms ks = Some ehdr" for ehdr
      using that file_loadable by (simp split: if_splits)
    ultimately show ?thesis
      using shell_round_line [OF w(1) _ _ that(3-5) _ _ tag fr [OF w(4)], of "[]"] that(1,2) w(2,3) by fastforce
  qed
  have "kbd_ok (typed (str ''ls'' @ [0x0A]))" "chars (typed (str ''ls'' @ [0x0A])) = str ''ls'' @ 0x0A # []"
    "kbd_ok (typed (str ''a'' @ [0x0A]))" "chars (typed (str ''a'' @ [0x0A])) = str ''a'' @ 0x0A # []"
    by (simp_all add: typed_def kbd_boot_def kbd_ok_def chars_def upt_rec)
  note ls = round [of "str ''ls''", OF this(1,2)] and a = round [of "str ''a''", OF this(3,4)]
  show ?thesis
  proof
    show "\<exists>w h' u. shell_round exec_links sample_places ?h w = Inr (Return (- 1), h', u)
      \<and> screen w = blank_term \<and> kbd w = typed (str ''ls'' @ [0x0A]) \<and> chars (kbd u) = []
      \<and> screen u = fold term_putchar (str ''>> ls'' @ [0x0A] @ str ''Couldn'' @ [0x27] @ str ''t find ls'' @ [0x0A]) blank_term"
      using ls by simp metis
    show "\<exists>w h' u. shell_round exec_links sample_places ?h w = Inr (EnterUser 0x43 0x70000003FF8 0x3B 0x500000004, h', u)
      \<and> kbd w = typed (str ''a'' @ [0x0A])
      \<and> view (machine u) 0x500000004 = Some (0xCD, \<lparr>may_user = True, may_write = False, may_exec = True\<rparr>)"
      using a file_view(1) by (simp add: file_ehdr) metis
  qed
qed

end
