(* ===== verification/Entry.thy ===== *)
theory Entry
  imports Calls Gdt Idt
begin

text \<open>
  The assembly between the programs and the kernel: \<open>syscall.s\<close>, which every program links,
  \<open>kernel/syscall_entry.s\<close> and \<open>kernel/usermode_entry.s\<close>, as lists of instructions and an interpreter
  for them. The processor's part is read off the tables the kernel builds: a software interrupt goes
  through the gate of \<open>idt_setup\<close>, checks the code segment of \<open>gdt_setup\<close>, takes the stack from the task
  state segment and pushes the frame that \<open>iretq\<close> pops again. The C function that is called is the model
  \<open>syscall_handler\<close>; what compiled code leaves in the registers that a C function may change is a
  parameter (\<open>leftovers\<close>), as are the addresses in the instruction stream.
\<close>

subsection \<open>The processor\<close>

datatype reg = RAX | RBX | RCX | RDX | RSI | RDI | RBP | RSP | R8 | R9 | R10 | R11 | R12 | R13 | R14 | R15

datatype sreg = CS | SS | DS | ES | FS | GS

record cpu =
  regs :: "reg \<Rightarrow> u64"
  segs :: "sreg \<Rightarrow> u16"
  rflags :: u64
  rip :: u64

definition set_reg :: "reg \<Rightarrow> u64 \<Rightarrow> cpu \<Rightarrow> cpu" where
  "set_reg r v c = c\<lparr>regs := (regs c)(r := v)\<rparr>"

definition set_seg :: "sreg \<Rightarrow> u16 \<Rightarrow> cpu \<Rightarrow> cpu" where
  "set_seg r v c = c\<lparr>segs := (segs c)(r := v)\<rparr>"

definition rpl :: "u16 \<Rightarrow> u64" where
  "rpl sel = ucast (sel AND 3)"

definition cpl :: "cpu \<Rightarrow> u64" where
  "cpl c = rpl (segs c CS)"

text \<open>Memory operands, with the rights of the current privilege level.\<close>

definition cload :: "cpu \<Rightarrow> kstate \<Rightarrow> u64 \<Rightarrow> fault + u64" where
  "cload c s a = (if cpl c = 3 then uload 8 s a else kload64 s a)"

definition cstore :: "cpu \<Rightarrow> u64 \<Rightarrow> u64 \<Rightarrow> kstate \<Rightarrow> fault + kstate" where
  "cstore c a v s = (if cpl c = 3 then ustore 8 a v s else kstore64 a v s)"

definition push :: "u64 \<Rightarrow> cpu \<Rightarrow> kstate \<Rightarrow> fault + (cpu \<times> kstate)" where
  "push v c s =
     (let a = regs c RSP - 8 in bindf (cstore c a v s) (\<lambda>s. Inr (set_reg RSP a c, s)))"

definition pop :: "cpu \<Rightarrow> kstate \<Rightarrow> fault + (u64 \<times> cpu)" where
  "pop c s = bindf (cload c s (regs c RSP)) (\<lambda>v. Inr (v, set_reg RSP (regs c RSP + 8) c))"

subsection \<open>Descriptors and gates\<close>

record processor =
  gdt_of :: gdt_state
  idt_of :: "idt_entry list"

text \<open>Intel SDM vol. 3, 3.4: the table index and the table bit of a selector, and the limit of the table.\<close>

definition descriptor :: "gdt_state \<Rightarrow> u16 \<Rightarrow> u64 option" where
  "descriptor t sel =
     (case gdtr t of
        None \<Rightarrow> None
      | Some (limit, base) \<Rightarrow>
          if sel AND 0xFFFC = 0 \<or> bit sel 2 \<or> unat limit < unat (sel AND 0xFFF8) + 7 then None
          else Some (load64 (gmem t) (base + ucast (sel AND 0xFFF8))))"

definition dpl_of :: "u64 \<Rightarrow> u64" where
  "dpl_of d = drop_bit 45 d AND 3"

text \<open>A present 64-bit code segment that is not conforming, a present data segment, a writable one.\<close>

definition code_segment :: "u64 \<Rightarrow> bool" where
  "code_segment d \<longleftrightarrow> bit d 47 \<and> bit d 44 \<and> bit d 43 \<and> \<not> bit d 42 \<and> bit d 53"

definition data_segment :: "u64 \<Rightarrow> bool" where
  "data_segment d \<longleftrightarrow> bit d 47 \<and> bit d 44 \<and> \<not> bit d 43"

definition stack_segment :: "u64 \<Rightarrow> bool" where
  "stack_segment d \<longleftrightarrow> data_segment d \<and> bit d 41"

abbreviation (input) bad_selector :: "u16 \<Rightarrow> fault + 'a" where
  "bad_selector sel \<equiv> Inl (GeneralProtection (ucast sel))"

definition canonical :: "u64 \<Rightarrow> bool" where
  "canonical a \<longleftrightarrow> a < 0x800000000000 \<or> 0xffff800000000000 \<le> a"

text \<open>\<open>mov\<close> to a data segment register.\<close>

definition load_seg :: "processor \<Rightarrow> sreg \<Rightarrow> u16 \<Rightarrow> cpu \<Rightarrow> fault + cpu" where
  "load_seg P r sel c =
     (if sel AND 0xFFFC = 0 then Inr (set_seg r sel c)
      else case descriptor (gdt_of P) sel of
        None \<Rightarrow> bad_selector sel
      | Some d \<Rightarrow>
          if data_segment d \<and> rpl sel \<le> dpl_of d \<and> cpl c \<le> dpl_of d then Inr (set_seg r sel c)
          else bad_selector sel)"

text \<open>The stack for the ring that the gate leads to, from the task state segment.\<close>

definition tss_stack :: "gdt_state \<Rightarrow> u64 \<Rightarrow> u64 option" where
  "tss_stack t ring =
     (case (gdtr t, tr t) of
        (Some (limit, base), Some sel) \<Rightarrow>
          (let a = base + ucast sel in
           Some (load64 (gmem t) (sys_base (load64 (gmem t) a) (load64 (gmem t) (a + 8)) + 4 + 8 * ring)))
      | _ \<Rightarrow> None)"

text \<open>
  \<open>int n\<close> (Intel SDM vol. 2, INT n, 64-bit mode): the gate must be present and open to the current ring,
  its segment 64-bit code of no outer ring. A change of ring takes the stack from the task state segment
  and a null stack segment; the stack pointer is aligned to 16 bytes, and five words are pushed. TF, NT
  and RF are cleared, and IF as well by an interrupt gate.
\<close>

definition gate_flags :: "idt_entry \<Rightarrow> u64 \<Rightarrow> u64" where
  "gate_flags e f = f AND NOT (if gate_type e = 0xE then 0x14300 else 0x14100)"

definition int_frame :: "u64 \<Rightarrow> cpu \<Rightarrow> cpu \<Rightarrow> kstate \<Rightarrow> fault + (cpu \<times> kstate)" where
  "int_frame next old c s =
     bindf (push (ucast (segs old SS)) c s) (\<lambda>(c, s).
     bindf (push (regs old RSP) c s) (\<lambda>(c, s).
     bindf (push (rflags old) c s) (\<lambda>(c, s).
     bindf (push (ucast (segs old CS)) c s) (\<lambda>(c, s).
     push next c s))))"

definition int_enter :: "processor \<Rightarrow> u8 \<Rightarrow> u64 \<Rightarrow> cpu \<Rightarrow> kstate \<Rightarrow> fault + (cpu \<times> kstate)" where
  "int_enter P n next c s =
     (let e = idt_of P ! unat n in
      if \<not> present e \<or> \<not> (gate_type e = 0xE \<or> gate_type e = 0xF) \<or> ucast (dpl e) < cpl c then bad_selector (8 * ucast n + 2)
      else case descriptor (gdt_of P) (selector e) of
        None \<Rightarrow> bad_selector (selector e)
      | Some d \<Rightarrow>
          if \<not> code_segment d \<or> cpl c < dpl_of d then bad_selector (selector e)
          else case (if dpl_of d < cpl c then tss_stack (gdt_of P) (dpl_of d) else Some (regs c RSP)) of
            None \<Rightarrow> Inl Undefined
          | Some sp \<Rightarrow>
              let c1 = c\<lparr>regs := (regs c)(RSP := sp AND NOT 0xF),
                         segs := (segs c)(CS := (selector e AND NOT 3) OR ucast (dpl_of d),
                                          SS := if dpl_of d < cpl c then ucast (dpl_of d) else segs c SS)\<rparr>
              in bindf (int_frame next c c1 s) (\<lambda>(c2, s).
                 Inr (c2\<lparr>rflags := gate_flags e (rflags c), rip := gate_offset e\<rparr>, s)))"

text \<open>
  \<open>iretq\<close>: five words are popped; the code segment must be one of the ring it names, not an inner one,
  the stack segment writable and of the same ring (or null inside the kernel). Data segments that the outer ring may not use are
  replaced by the null selector.
\<close>

definition outer_segs :: "gdt_state \<Rightarrow> u64 \<Rightarrow> (sreg \<Rightarrow> u16) \<Rightarrow> sreg \<Rightarrow> u16" where
  "outer_segs t ring sg r =
     (case descriptor t (sg r) of None \<Rightarrow> sg r | Some d \<Rightarrow> if dpl_of d < ring then 0 else sg r)"

definition stack_ok :: "gdt_state \<Rightarrow> u64 \<Rightarrow> u16 \<Rightarrow> bool" where
  "stack_ok t ring ss \<longleftrightarrow>
     (if ss AND 0xFFFC = 0 then ring \<noteq> 3
      else case descriptor t ss of None \<Rightarrow> False
           | Some d \<Rightarrow> stack_segment d \<and> rpl ss = ring \<and> dpl_of d = ring)"

definition iretq :: "processor \<Rightarrow> cpu \<Rightarrow> kstate \<Rightarrow> fault + cpu" where
  "iretq P c s =
     bindf (pop c s) (\<lambda>(ip, c).
     bindf (pop c s) (\<lambda>(cs, c).
     bindf (pop c s) (\<lambda>(fl, c).
     bindf (pop c s) (\<lambda>(sp, c).
     bindf (pop c s) (\<lambda>(ss, c).
       let cs = ucast cs; ss = ucast ss; ring = rpl cs in
       case descriptor (gdt_of P) cs of
         None \<Rightarrow> bad_selector cs
       | Some d \<Rightarrow>
           if \<not> code_segment d \<or> ring < cpl c \<or> dpl_of d \<noteq> ring then bad_selector cs
           else if \<not> stack_ok (gdt_of P) ring ss then bad_selector ss
           else if \<not> canonical ip then bad_selector 0
           else Inr (c\<lparr>regs := (regs c)(RSP := sp),
                       segs := (if cpl c < ring then outer_segs (gdt_of P) ring (segs c) else segs c)(CS := cs, SS := ss),
                       rflags := fl, rip := ip\<rparr>))))))"

subsection \<open>Instructions\<close>

text \<open>
  \<open>Call\<close> and \<open>Interrupt\<close> carry the address of the instruction after them. A run is \<open>Go\<close> while it is at the next
  instruction of the list (after \<open>Ret\<close> and \<open>Iretq\<close>, which end the lists, it is at \<open>rip\<close>), and \<open>Away\<close>
  once it is anywhere else.
\<close>

datatype instr = Mov reg reg | Load reg u64 reg | MovSeg sreg reg | Push reg | Pushf | Add reg u64
  | Call u64 | Interrupt u8 u64 | Ret | Iretq

datatype flow = Go cpu world | Away cpu world

text \<open>The flags that arithmetic and C code change: CF, PF, AF, ZF, SF and OF.\<close>

definition status :: "u64 \<Rightarrow> u64 \<Rightarrow> u64" where
  "status f g = (f AND NOT 0x8D5) OR (g AND 0x8D5)"

record leftovers =
  after_call :: "reg \<Rightarrow> u64"
  call_flags :: u64
  sum_flags :: u64
  in_entry :: "reg \<Rightarrow> u64"

definition with_kernel :: "kstate \<Rightarrow> world \<Rightarrow> world" where
  "with_kernel s w = w\<lparr>machine := s\<rparr>"

fun exec1 :: "processor \<Rightarrow> leftovers \<Rightarrow> (u64 \<Rightarrow> cpu \<Rightarrow> world \<Rightarrow> fault + flow) \<Rightarrow> (u8 \<Rightarrow> u64 \<Rightarrow> cpu \<Rightarrow> world \<Rightarrow> fault + flow)
    \<Rightarrow> instr \<Rightarrow> cpu \<Rightarrow> world \<Rightarrow> fault + flow" where
  "exec1 P lo on_call on_int (Mov dst src) c w = Inr (Go (set_reg dst (regs c src) c) w)"
| "exec1 P lo on_call on_int (Load dst disp base) c w =
     bindf (cload c (machine w) (regs c base + disp)) (\<lambda>v. Inr (Go (set_reg dst v c) w))"
| "exec1 P lo on_call on_int (MovSeg dst src) c w = bindf (load_seg P dst (ucast (regs c src)) c) (\<lambda>c. Inr (Go c w))"
| "exec1 P lo on_call on_int (Push src) c w =
     bindf (push (regs c src) c (machine w)) (\<lambda>(c, s). Inr (Go c (with_kernel s w)))"
| "exec1 P lo on_call on_int Pushf c w =
     bindf (push (rflags c AND NOT 0x30000) c (machine w)) (\<lambda>(c, s). Inr (Go c (with_kernel s w)))"
| "exec1 P lo on_call on_int (Add dst v) c w =
     Inr (Go ((set_reg dst (regs c dst + v) c)\<lparr>rflags := status (rflags c) (sum_flags lo)\<rparr>) w)"
| "exec1 P lo on_call on_int (Call next) c w = on_call next c w"
| "exec1 P lo on_call on_int (Interrupt n next) c w = on_int n next c w"
| "exec1 P lo on_call on_int Ret c w = bindf (pop c (machine w)) (\<lambda>(a, c). Inr (Go (c\<lparr>rip := a\<rparr>) w))"
| "exec1 P lo on_call on_int Iretq c w = bindf (iretq P c (machine w)) (\<lambda>c. Inr (Go c w))"

primrec exec_code :: "processor \<Rightarrow> leftovers \<Rightarrow> (u64 \<Rightarrow> cpu \<Rightarrow> world \<Rightarrow> fault + flow) \<Rightarrow> (u8 \<Rightarrow> u64 \<Rightarrow> cpu \<Rightarrow> world \<Rightarrow> fault + flow)
    \<Rightarrow> instr list \<Rightarrow> cpu \<Rightarrow> world \<Rightarrow> fault + flow" where
  "exec_code P lo on_call on_int [] c w = Inr (Go c w)"
| "exec_code P lo on_call on_int (i # is) c w =
     bindf (exec1 P lo on_call on_int i c w) (\<lambda>r. case r of Go c w \<Rightarrow> exec_code P lo on_call on_int is c w | Away c w \<Rightarrow> Inr r)"

subsection \<open>The three files\<close>

definition usermode_entry :: "instr list" where
  "usermode_entry =
     [MovSeg DS RDI, MovSeg ES RDI, MovSeg FS RDI, MovSeg GS RDI,
      Push RDI, Push RSI, Pushf, Push RDX, Push RCX,
      Mov RDI R8, Mov RSI R9, Load RDX 48 RSP, Load RCX 56 RSP, Load R8 64 RSP, Load R9 72 RSP,
      Iretq]"

definition syscall_entry :: "u64 \<Rightarrow> instr list" where
  "syscall_entry next = [Push RAX, Call next, Add RSP 8, Iretq]"

definition syscall_stub :: "u64 \<Rightarrow> instr list" where
  "syscall_stub next = [Load RAX 8 RSP, Interrupt 0x80 next, Ret]"

text \<open>No instruction of \<open>usermode_entry\<close> calls or interrupts.\<close>

definition no_call :: "u64 \<Rightarrow> cpu \<Rightarrow> world \<Rightarrow> fault + flow" where
  "no_call next c w = Inl Undefined"

definition no_int :: "u8 \<Rightarrow> u64 \<Rightarrow> cpu \<Rightarrow> world \<Rightarrow> fault + flow" where
  "no_int n next c w = Inl Undefined"

text \<open>The registers that a C function may change (System V ABI).\<close>

definition caller_saved :: "reg \<Rightarrow> bool" where
  "caller_saved r \<longleftrightarrow> r \<in> {RAX, RCX, RDX, RSI, RDI, R8, R9, R10, R11}"

text \<open>
  The call of \<open>syscall_handler\<close>. Where it starts a program, \<open>execute_mod\<close> calls \<open>usermode_entry\<close> with four
  arguments and whatever else is in the registers, on the same stack further down.
\<close>

definition away :: "flow \<Rightarrow> flow" where
  "away r = (case r of Go c w \<Rightarrow> Away c w | Away c w \<Rightarrow> r)"

definition start_user :: "processor \<Rightarrow> leftovers \<Rightarrow> u64 \<Rightarrow> u64 \<Rightarrow> u64 \<Rightarrow> u64 \<Rightarrow> cpu \<Rightarrow> world \<Rightarrow> fault + flow" where
  "start_user P lo ss sp cs ip c w =
     exec_code P lo no_call no_int usermode_entry
       (c\<lparr>regs := (in_entry lo)(RDI := ss, RSI := sp, RDX := cs, RCX := ip), rflags := status (rflags c) (call_flags lo)\<rparr>) w"

definition call_handler :: "processor \<Rightarrow> leftovers \<Rightarrow> links \<Rightarrow> u64 \<Rightarrow> cpu \<Rightarrow> world \<Rightarrow> fault + flow" where
  "call_handler P lo lk next c w =
     bindf (push next c (machine w)) (\<lambda>(c, s).
     bindf (syscall_handler lk (regs c RDI) (regs c RSI) (regs c RDX) (regs c RCX) (with_kernel s w)) (\<lambda>(r, w).
       case r of
         Return v \<Rightarrow>
           bindf (pop (c\<lparr>regs := \<lambda>r. if r = RAX then v else if caller_saved r then after_call lo r else regs c r,
                          rflags := status (rflags c) (call_flags lo)\<rparr>) (machine w)) (\<lambda>(a, c).
           Inr (if a = next then Go c w else Away (c\<lparr>rip := a\<rparr>) w))
       | EnterUser ss sp cs ip \<Rightarrow> bindf (start_user P lo ss sp cs ip c w) (\<lambda>r. Inr (away r))))"

text \<open>The interrupt: the processor's part, then the code at the address of the gate.\<close>

definition interrupt :: "processor \<Rightarrow> leftovers \<Rightarrow> links \<Rightarrow> u64 \<Rightarrow> u64 \<Rightarrow> u8 \<Rightarrow> u64 \<Rightarrow> cpu \<Rightarrow> world \<Rightarrow> fault + flow" where
  "interrupt P lo lk entry_at call_next n next c w =
     bindf (int_enter P n next c (machine w)) (\<lambda>(c, s).
       if rip c = entry_at
       then bindf (exec_code P lo (call_handler P lo lk) no_int (syscall_entry call_next) c (with_kernel s w)) (\<lambda>r.
            Inr (case r of Go c w \<Rightarrow> if rip c = next then r else Away c w | Away c w \<Rightarrow> r))
       else Inl Undefined)"

text \<open>The C function \<open>syscall\<close> of the programs and of the kernel, from its first instruction to its caller.\<close>

definition syscall :: "processor \<Rightarrow> leftovers \<Rightarrow> links \<Rightarrow> u64 \<Rightarrow> u64 \<Rightarrow> u64 \<Rightarrow> cpu \<Rightarrow> world \<Rightarrow> fault + flow" where
  "syscall P lo lk entry_at call_next next =
     exec_code P lo no_call (interrupt P lo lk entry_at call_next) (syscall_stub next)"

end
