(* ===== verification/Entry_Props.thy ===== *)
theory Entry_Props
  imports Entry
begin

text \<open>
  What the assembly does: a system call from a program enters the kernel through the gate, on the stack of
  the task state segment, and comes back with the program's state (\<open>syscall_returns\<close>);
  \<open>usermode_entry\<close> always reaches ring 3 at the entry point. The tables are those of \<open>Gdt\<close> and \<open>Idt\<close>
  (\<open>setup_descriptors\<close>, \<open>syscall_gate\<close>); \<open>pushed\<close> and \<open>frame_words\<close> follow the words of the frames.
\<close>

subsection \<open>Words on the kernel's stack\<close>

lemma load64_store64_far:
  assumes "8 \<le> a - b" "8 \<le> b - a"
  shows "load64 (store64 m b v) a = load64 m a"
proof (intro load64_cong store64_other)
  fix i j :: u64
  assume ij: "i < 8" "j < 8"
  show "a + i \<noteq> b + j"
  proof
    assume eq: "a + i = b + j"
    show False
    proof (cases "i \<le> j")
      case True
      then have "a - b < 8" using sum_eq_diff_eq [OF eq [symmetric]] ij by (simp add: word_less_nat_alt word_le_nat_alt unat_sub)
      with assms(1) show False by simp
    next
      case False
      then have "b - a < 8" using sum_eq_diff_eq [OF eq] ij by (simp add: word_less_nat_alt word_le_nat_alt unat_sub)
      with assms(2) show False by simp
    qed
  qed
qed

primrec pushed :: "mem \<Rightarrow> u64 \<Rightarrow> u64 list \<Rightarrow> mem" where
  "pushed m a [] = m"
| "pushed m a (v # vs) = pushed (store64 m (a - 8) v) (a - 8) vs"

text \<open>The \<open>n\<close> words below \<open>a\<close> are in the kernel's half.\<close>

definition kernel_words :: "u64 \<Rightarrow> nat \<Rightarrow> bool" where
  "kernel_words a n \<longleftrightarrow> (\<forall>k < 8 * n. high (a - of_nat (8 * n) + of_nat k))"

lemma kernel_words_high:
  assumes "kernel_words a n" "0 < k" "k \<le> n" "i < 8"
  shows "high (a - of_nat (8 * k) + i)"
proof -
  have "8 * (n - k) + unat i < 8 * n" using assms(2-4) by (simp add: word_less_nat_alt)
  then have "high (a - of_nat (8 * n) + of_nat (8 * (n - k) + unat i))" using assms(1) unfolding kernel_words_def by blast
  moreover have "(of_nat (8 * (n - k) + unat i) :: u64) = of_nat (8 * n) - of_nat (8 * k) + i"
    using assms(3) by (simp add: of_nat_diff right_diff_distrib)
  moreover have "a - x + (x - y + i) = a - y + i" for x y by simp
  ultimately show ?thesis by (simp only:)
qed

lemma push_kernel:
  assumes "cpl c \<noteq> 3" "\<And>i. i < 8 \<Longrightarrow> high (regs c RSP - 8 + i)"
  shows "push v c s = Inr (set_reg RSP (regs c RSP - 8) c, s\<lparr>mem := store64 (mem s) (regs c RSP - 8) v\<rparr>)"
  using assms kstore64_high [of "regs c RSP - 8" v s] by (simp add: push_def cstore_def Let_def)

lemma pop_kernel:
  assumes "cpl c \<noteq> 3" "\<And>i. i < 8 \<Longrightarrow> high (regs c RSP + i)"
  shows "pop c s = Inr (load64 (mem s) (regs c RSP), set_reg RSP (regs c RSP + 8) c)"
  using assms kload64_high [of "regs c RSP" s] by (simp add: pop_def cload_def)

subsection \<open>The tables the kernel builds\<close>

lemma setup_descriptors:
  assumes "tss_apart t" "gdt_size t = 0"
  shows "descriptor (gdt_setup t) 0x28 = Some 0x00209A0000000000"
    and "descriptor (gdt_setup t) 0x3B = Some 0x0020FA0000000000"
    and "descriptor (gdt_setup t) 0x43 = Some 0x0000F20000000000"
    and "tss_stack (gdt_setup t) 0 = Some (interrupt_stack t + 0x8000 - 8)"
proof -
  note l = gdt_setup_load64 [OF assms(1)]
  note r = gdt_setup_rest(4) [OF assms(2)] gdt_setup_rest(3,5) [of t]
  show "descriptor (gdt_setup t) 0x28 = Some 0x00209A0000000000"
    using l [of "0x28"] by (simp add: descriptor_def r gdt_byte_descriptors bit_numeral_rec)
  show "descriptor (gdt_setup t) 0x3B = Some 0x0020FA0000000000"
    using l [of "0x38"] by (simp add: descriptor_def r gdt_byte_descriptors)
  show "descriptor (gdt_setup t) 0x43 = Some 0x0000F20000000000"
    using l [of "0x40"] by (simp add: descriptor_def r gdt_byte_descriptors)
  have tss: "sys_base (load64 (gmem (gdt_setup t)) (gdt t + 0x48)) (load64 (gmem (gdt_setup t)) (gdt t + 0x50)) = tss t"
    using l [of "0x48"] l [of "0x50"] by (simp add: tss_descriptor_bytes)
  show "tss_stack (gdt_setup t) 0 = Some (interrupt_stack t + 0x8000 - 8)"
    using r tss by (simp add: tss_stack_def add.assoc)
qed

lemma segment_bits:
  "code_segment 0x00209A0000000000" "dpl_of 0x00209A0000000000 = 0"
  "code_segment 0x0020FA0000000000" "dpl_of 0x0020FA0000000000 = 3"
  "data_segment 0x0000F20000000000" "stack_segment 0x0000F20000000000" "dpl_of 0x0000F20000000000 = 3"
  by (simp_all add: code_segment_def data_segment_def stack_segment_def dpl_of_def drop_bit_eq_div bit_iff_odd)

lemma rpl_values [simp]: "rpl 0x28 = 0" "rpl 0x3B = 3" "rpl 0x43 = 3" "rpl 0 = 0"
  by (simp_all add: rpl_def)

subsection \<open>Into the kernel and back\<close>

text \<open>A processor after \<open>gdt_setup\<close> and \<open>idt_setup\<close>, and one that runs a program on it.\<close>

definition set_up :: "gdt_state \<Rightarrow> (handler_t \<Rightarrow> u64) \<Rightarrow> u64 \<Rightarrow> processor" where
  "set_up t addr base = \<lparr>gdt_of = gdt_setup t, idt_of = fst (idt_setup addr base idt_boot)\<rparr>"

definition in_program :: "cpu \<Rightarrow> bool" where
  "in_program c \<longleftrightarrow> segs c CS = 0x3B \<and> segs c SS = 0x43"

text \<open>The stack pointer after the switch, and the words on the stack when \<open>syscall_handler\<close> starts.\<close>

definition kernel_top :: "gdt_state \<Rightarrow> u64" where
  "kernel_top t = (interrupt_stack t + 0x8000 - 8) AND NOT 0xF"

lemma syscall_gate:
  "gate (addr Syscall_entry) 0xF (idt_of (set_up t addr base) ! 0x80)"
  using idt_setup_table [of addr base]
  by (auto simp: set_up_def holds_gates_def idt_table_handlers vector_handler_def dest: spec [of _ "0x80"])

lemma int_enter_program:
  assumes t: "tss_apart t" "gdt_size t = 0" and c: "in_program c" and k: "kernel_words (kernel_top t) 5"
  obtains c' where "int_enter (set_up t addr base) 0x80 next c s =
      Inr (c', s\<lparr>mem := pushed (mem s) (kernel_top t) [0x43, regs c RSP, rflags c, 0x3B, next]\<rparr>)"
    and "regs c' = (regs c)(RSP := kernel_top t - 40)" "segs c' = (segs c)(CS := 0x28, SS := 0)"
    and "rflags c' = rflags c AND NOT 0x14100" "rip c' = addr Syscall_entry"
proof -
  let ?P = "set_up t addr base" and ?top = "kernel_top t"
  let ?e = "idt_of ?P ! 0x80"
  let ?c1 = "c\<lparr>regs := (regs c)(RSP := ?top), segs := (segs c)(CS := 0x28, SS := 0)\<rparr>"
  have e: "present ?e" "gate_type ?e = 0xF" "dpl ?e = 3" "selector ?e = 0x28" "gate_offset ?e = addr Syscall_entry"
    using syscall_gate [of addr t base] by (simp_all add: gate_def)
  have cc: "cpl c = 3" using c by (simp add: cpl_def in_program_def)
  have g: "gdt_of ?P = gdt_setup t" by (simp add: set_up_def)
  have fr: "int_frame next c ?c1 s = Inr (?c1\<lparr>regs := (regs ?c1)(RSP := ?top - 40)\<rparr>,
      s\<lparr>mem := pushed (mem s) ?top [0x43, regs c RSP, rflags c, 0x3B, next]\<rparr>)"
    using kernel_words_high [OF k, of 1] kernel_words_high [OF k, of 2] kernel_words_high [OF k, of 3]
      kernel_words_high [OF k, of 4] kernel_words_high [OF k, of 5] c
    by (simp add: int_frame_def push_kernel cpl_def set_reg_def in_program_def)
  have "int_enter ?P 0x80 next c s = Inr ((?c1\<lparr>regs := (regs ?c1)(RSP := ?top - 40)\<rparr>)\<lparr>rflags := gate_flags ?e (rflags c), rip := addr Syscall_entry\<rparr>,
      s\<lparr>mem := pushed (mem s) ?top [0x43, regs c RSP, rflags c, 0x3B, next]\<rparr>)"
    using fr by (simp add: int_enter_def e cc g setup_descriptors [OF t] segment_bits Let_def kernel_top_def)
  then show thesis by (rule that) (simp_all add: gate_flags_def e)
qed

text \<open>The words of the frame, read where they were pushed.\<close>

lemma frame_words:
  fixes a v1 v2 v3 v4 v5 v6 v7 :: u64 and m :: mem
  defines "m' \<equiv> pushed m a [v1, v2, v3, v4, v5, v6, v7]"
  shows "load64 m' (a - 8) = v1" "load64 m' (a - 16) = v2" "load64 m' (a - 24) = v3" "load64 m' (a - 32) = v4"
    "load64 m' (a - 40) = v5" "load64 m' (a - 48) = v6" "load64 m' (a - 56) = v7"
  by (simp_all add: m'_def load64_store64_far word_le_nat_alt)

lemma iretq_program:
  assumes t: "tss_apart t" "gdt_size t = 0" and c: "cpl c = 0" and k: "kernel_words (regs c RSP + 40) 5"
    and fr: "load64 (mem s) (regs c RSP) = next" "load64 (mem s) (regs c RSP + 8) = 0x3B" "load64 (mem s) (regs c RSP + 16) = fl"
      "load64 (mem s) (regs c RSP + 24) = sp" "load64 (mem s) (regs c RSP + 32) = 0x43"
    and can: "canonical next" and ds: "\<And>r. r \<in> {DS, ES, FS, GS} \<Longrightarrow> segs c r = 0x43"
  shows "iretq (set_up t addr base) c s = Inr (c\<lparr>regs := (regs c)(RSP := sp), segs := (segs c)(CS := 0x3B, SS := 0x43), rflags := fl, rip := next\<rparr>)"
proof -
  let ?a = "regs c RSP"
  have hi: "high (?a + i)" "high (?a + 8 + i)" "high (?a + 16 + i)" "high (?a + 24 + i)" "high (?a + 32 + i)" if "i < 8" for i
    using kernel_words_high [OF k, of 1 i] kernel_words_high [OF k, of 2 i] kernel_words_high [OF k, of 3 i]
      kernel_words_high [OF k, of 4 i] kernel_words_high [OF k, of 5 i] that by (simp_all add: algebra_simps)
  have p: "pop (c\<lparr>regs := (regs c)(RSP := b)\<rparr>) s = Inr (load64 (mem s) b, c\<lparr>regs := (regs c)(RSP := b + 8)\<rparr>)"
    if "\<And>i. i < 8 \<Longrightarrow> high (b + i)" for b
    using pop_kernel [of "c\<lparr>regs := (regs c)(RSP := b)\<rparr>" s] that c by (simp add: cpl_def set_reg_def)
  have "pop c s = Inr (next, c\<lparr>regs := (regs c)(RSP := ?a + 8)\<rparr>)"
    using p [of ?a] hi(1) fr(1) by simp
  note pops = this p [of "?a + 8", OF hi(2)] p [of "?a + 16", OF hi(3)] p [of "?a + 24", OF hi(4)] p [of "?a + 32", OF hi(5)]
  have outer: "(outer_segs (gdt_setup t) 3 (segs c))(CS := 0x3B, SS := 0x43) = (segs c)(CS := 0x3B, SS := 0x43)"
  proof
    fix r show "((outer_segs (gdt_setup t) 3 (segs c))(CS := 0x3B, SS := 0x43)) r = ((segs c)(CS := 0x3B, SS := 0x43)) r"
      using ds by (cases r) (simp_all add: outer_segs_def setup_descriptors [OF t] segment_bits)
  qed
  have g: "gdt_of (set_up t addr base) = gdt_setup t" by (simp add: set_up_def)
  have st: "stack_ok (gdt_setup t) 3 0x43"
    by (simp add: stack_ok_def setup_descriptors [OF t] segment_bits)
  have cp: "cpl (c\<lparr>regs := x\<rparr>) = 0" for x using c by (simp add: cpl_def)
  show ?thesis
    unfolding iretq_def g
    by (simp add: pops fr setup_descriptors [OF t] segment_bits st can cp outer Let_def add.assoc)
qed

text \<open>The world when \<open>syscall_handler\<close> starts: the seven words of the call are on the kernel's stack.\<close>

definition in_handler :: "gdt_state \<Rightarrow> u64 \<Rightarrow> u64 \<Rightarrow> u64 \<Rightarrow> cpu \<Rightarrow> world \<Rightarrow> world" where
  "in_handler t back_at call_next a5 c w =
     with_kernel ((machine w)\<lparr>mem := pushed (mem (machine w)) (kernel_top t)
       [0x43, regs c RSP, rflags c, 0x3B, back_at, a5, call_next]\<rparr>) w"

definition same_words :: "u64 \<Rightarrow> nat \<Rightarrow> mem \<Rightarrow> mem \<Rightarrow> bool" where
  "same_words a n m m' \<longleftrightarrow> (\<forall>k < 8 * n. m' (a - of_nat (8 * n) + of_nat k) = m (a - of_nat (8 * n) + of_nat k))"

lemma same_words_load64:
  assumes "same_words a n m m'" "0 < k" "k \<le> n"
  shows "load64 m' (a - of_nat (8 * k)) = load64 m (a - of_nat (8 * k))"
proof (rule load64_cong)
  fix i :: u64 assume i: "i < 8"
  have "8 * (n - k) + unat i < 8 * n" using assms(2,3) i by (simp add: word_less_nat_alt)
  then have "m' (a - of_nat (8 * n) + of_nat (8 * (n - k) + unat i)) = m (a - of_nat (8 * n) + of_nat (8 * (n - k) + unat i))"
    using assms(1) unfolding same_words_def by blast
  moreover have "(of_nat (8 * (n - k) + unat i) :: u64) = of_nat (8 * n) - of_nat (8 * k) + i"
    using assms(3) by (simp add: of_nat_diff right_diff_distrib)
  moreover have "a - x + (x - y + i) = a - y + i" for x y by simp
  ultimately show "m' (a - of_nat (8 * k) + i) = m (a - of_nat (8 * k) + i)" by (simp only:)
qed

text \<open>\<open>syscall_entry\<close>, from the gate to its \<open>iretq\<close>.\<close>

lemma kernel_words_less: "kernel_words a n \<Longrightarrow> k \<le> n \<Longrightarrow> kernel_words a k"
proof -
  assume k: "kernel_words a n" "k \<le> n"
  have "high (a - of_nat (8 * k) + of_nat j)" if "j < 8 * k" for j
  proof -
    have j: "a - of_nat (8 * k) + of_nat j = a - of_nat (8 * (k - j div 8)) + of_nat (j mod 8)"
    proof -
      have "j div 8 \<le> k" using that by auto
      then have "(of_nat (8 * (k - j div 8)) :: u64) = of_nat (8 * k) - of_nat (8 * (j div 8))"
        by (simp add: of_nat_diff right_diff_distrib)
      moreover have "(of_nat j :: u64) = of_nat (8 * (j div 8)) + of_nat (j mod 8)"
        by (metis mult_div_mod_eq of_nat_add)
      ultimately show ?thesis by simp
    qed
    have lt: "(of_nat (j mod 8) :: u64) < 8" by (simp add: word_less_nat_alt take_bit_nat_eq_self_iff unat_of_nat)
    show ?thesis unfolding j
      by (rule kernel_words_high [OF k(1) _ _ lt]) (use that k(2) in auto)
  qed
  then show ?thesis by (simp add: kernel_words_def)
qed

lemma call_handler_returns:
  assumes c: "cpl c = 0" and a: "regs c RSP = a" and hi: "\<And>i. i < 8 \<Longrightarrow> high (a - 8 + i)"
    and h: "syscall_handler lk (regs c RDI) (regs c RSI) (regs c RDX) (regs c RCX)
      (with_kernel ((machine w)\<lparr>mem := store64 (mem (machine w)) (a - 8) ra\<rparr>) w) = Inr (Return v, w2)"
    and fr: "load64 (mem (machine w2)) (a - 8) = ra"
  obtains c' where "call_handler P lo lk ra c w = Inr (Go c' w2)"
    and "regs c' = (\<lambda>r. if r = RAX then v else if caller_saved r then after_call lo r else regs c r)" "segs c' = segs c"
proof -
  let ?rg = "\<lambda>r. if r = RAX then v else if caller_saved r then after_call lo r else if r = RSP then a - 8 else regs c r"
  have p1: "push ra c (machine w) = Inr (set_reg RSP (a - 8) c, (machine w)\<lparr>mem := store64 (mem (machine w)) (a - 8) ra\<rparr>)"
    using push_kernel [of c ra "machine w"] c a hi by simp
  have p2: "pop (set_reg RSP (a - 8) c\<lparr>regs := ?rg, rflags := f\<rparr>) (machine w2)
      = Inr (ra, set_reg RSP a (set_reg RSP (a - 8) c\<lparr>regs := ?rg, rflags := f\<rparr>))" for f
    using pop_kernel [of "set_reg RSP (a - 8) c\<lparr>regs := ?rg, rflags := f\<rparr>" "machine w2"] c hi fr
    by (simp add: cpl_def set_reg_def caller_saved_def)
  have e: "(\<lambda>r. if r = RAX then v else if caller_saved r then after_call lo r else regs (set_reg RSP (a - 8) c) r) = ?rg"
    by (simp add: set_reg_def fun_eq_iff)
  have r: "regs (set_reg RSP (a - 8) c) q = regs c q" if "q \<noteq> RSP" for q using that by (simp add: set_reg_def)
  let ?c = "set_reg RSP a (set_reg RSP (a - 8) c\<lparr>regs := ?rg, rflags := status (rflags (set_reg RSP (a - 8) c)) (call_flags lo)\<rparr>)"
  have "call_handler P lo lk ra c w = Inr (Go ?c w2)"
    unfolding call_handler_def p1 bindf_simps prod.case by (simp add: r h e p2)
  moreover have "regs ?c = (\<lambda>r. if r = RAX then v else if caller_saved r then after_call lo r else regs c r)"
    using a by (simp add: set_reg_def caller_saved_def fun_eq_iff)
  moreover have "segs ?c = segs c" by (simp add: set_reg_def)
  ultimately show thesis by (rule that)
qed

lemma syscall_entry_returns:
  assumes t: "tss_apart t" "gdt_size t = 0" and k: "kernel_words (kernel_top t) 7" and can: "canonical ra"
    and c: "segs c CS = 0x28" "regs c RSP = kernel_top t - 40" and ds: "\<And>r. r \<in> {DS, ES, FS, GS} \<Longrightarrow> segs c r = 0x43"
    and w: "mem (machine w) = pushed m (kernel_top t) [0x43, sp, fl, 0x3B, ra]"
    and w1: "w1 = with_kernel ((machine w)\<lparr>mem := pushed m (kernel_top t) [0x43, sp, fl, 0x3B, ra, regs c RAX, back_at]\<rparr>) w"
    and h: "syscall_handler lk (regs c RDI) (regs c RSI) (regs c RDX) (regs c RCX) w1 = Inr (Return v, w2)"
    and same: "same_words (kernel_top t) 7 (mem (machine w1)) (mem (machine w2))"
  obtains c' where "exec_code (set_up t addr base) lo (call_handler (set_up t addr base) lo lk) no_int (syscall_entry back_at) c w = Inr (Go c' w2)"
    and "regs c' = (\<lambda>r. if r = RSP then sp else if r = RAX then v else if caller_saved r then after_call lo r else regs c r)"
    and "segs c' = (segs c)(CS := 0x3B, SS := 0x43)" "rflags c' = fl" "rip c' = ra"
proof -
  let ?P = "set_up t addr base" and ?top = "kernel_top t"
  have cc: "cpl c = 0" using c by (simp add: cpl_def)
  have high: "high (?top - of_nat (8 * n) + i)" if "0 < n" "n \<le> 7" "i < 8" for n i
    using kernel_words_high [OF k that] .
  let ?c1 = "set_reg RSP (?top - 48) c" and ?w1 = "with_kernel ((machine w)\<lparr>mem := store64 (mem (machine w)) (?top - 48) (regs c RAX)\<rparr>) w"
  have p: "push (regs c RAX) c (machine w) = Inr (?c1, (machine w)\<lparr>mem := store64 (mem (machine w)) (?top - 48) (regs c RAX)\<rparr>)"
    using push_kernel [of c "regs c RAX" "machine w"] high [of 6] cc c by simp
  have word: "load64 (mem (machine w2)) (?top - of_nat (8 * n)) = load64 (pushed m ?top [0x43, sp, fl, 0x3B, ra, regs c RAX, back_at]) (?top - of_nat (8 * n))"
    if "0 < n" "n \<le> 7" for n
    using same_words_load64 [OF same that] by (simp add: w1 with_kernel_def)
  have words: "load64 (mem (machine w2)) (?top - 8) = 0x43" "load64 (mem (machine w2)) (?top - 16) = sp"
    "load64 (mem (machine w2)) (?top - 24) = fl" "load64 (mem (machine w2)) (?top - 32) = 0x3B"
    "load64 (mem (machine w2)) (?top - 40) = ra" "load64 (mem (machine w2)) (?top - 56) = back_at"
    using word [of 1] word [of 2] word [of 3] word [of 4] word [of 5] word [of 7] by (simp_all add: frame_words del: pushed.simps)
  have wh: "with_kernel ((machine ?w1)\<lparr>mem := store64 (mem (machine ?w1)) (?top - 48 - 8) back_at\<rparr>) ?w1 = w1"
    by (simp add: w1 with_kernel_def w)
  obtain c2 where c2: "call_handler ?P lo lk back_at ?c1 ?w1 = Inr (Go c2 w2)"
    "regs c2 = (\<lambda>r. if r = RAX then v else if caller_saved r then after_call lo r else regs ?c1 r)" "segs c2 = segs ?c1"
  proof (rule call_handler_returns [of ?c1 "?top - 48" lk ?w1 "back_at" v w2 ?P lo])
    show "cpl ?c1 = 0" using cc by (simp add: cpl_def set_reg_def)
    show "regs ?c1 RSP = ?top - 48" by (simp add: set_reg_def)
    show "high (?top - 48 - 8 + i)" if "i < 8" for i using high [of 7 i] that by simp
    show "syscall_handler lk (regs ?c1 RDI) (regs ?c1 RSI) (regs ?c1 RDX) (regs ?c1 RCX)
        (with_kernel ((machine ?w1)\<lparr>mem := store64 (mem (machine ?w1)) (?top - 48 - 8) back_at\<rparr>) ?w1) = Inr (Return v, w2)"
      using h unfolding wh by (simp add: set_reg_def)
    show "load64 (mem (machine w2)) (?top - 48 - 8) = back_at" using words(6) by simp
  qed
  let ?c3 = "(set_reg RSP (?top - 40) c2)\<lparr>rflags := status (rflags c2) (sum_flags lo)\<rparr>"
  have r2: "regs c2 RSP + 8 = ?top - 40" by (simp add: c2(2) set_reg_def caller_saved_def)
  have ir: "iretq ?P ?c3 (machine w2) = Inr (?c3\<lparr>regs := (regs ?c3)(RSP := sp), segs := (segs ?c3)(CS := 0x3B, SS := 0x43), rflags := fl, rip := ra\<rparr>)"
  proof (rule iretq_program [OF t])
    show "cpl ?c3 = 0" using cc by (simp add: cpl_def set_reg_def c2(3))
    show "kernel_words (regs ?c3 RSP + 40) 5" using kernel_words_less [OF k, of 5] by (simp add: set_reg_def)
    show "segs ?c3 r = 0x43" if "r \<in> {DS, ES, FS, GS}" for r using ds [OF that] by (simp add: set_reg_def c2(3))
  qed (use words can in \<open>simp_all add: set_reg_def\<close>)
  let ?c = "?c3\<lparr>regs := (regs ?c3)(RSP := sp), segs := (segs ?c3)(CS := 0x3B, SS := 0x43), rflags := fl, rip := ra\<rparr>"
  have "exec_code ?P lo (call_handler ?P lo lk) no_int (syscall_entry back_at) c w = Inr (Go ?c w2)"
    by (simp add: syscall_entry_def p c2(1) r2 ir)
  moreover have "regs ?c = (\<lambda>r. if r = RSP then sp else if r = RAX then v else if caller_saved r then after_call lo r else regs c r)"
    by (simp add: set_reg_def c2(2) fun_eq_iff)
  moreover have "segs ?c = (segs c)(CS := 0x3B, SS := 0x43)" by (simp add: set_reg_def c2(3))
  ultimately show thesis by (rule that) simp_all
qed

lemma syscall_returns:
  assumes "tss_apart t" "gdt_size t = 0" "in_program c" "\<And>r. r \<in> {DS, ES, FS, GS} \<Longrightarrow> segs c r = 0x43"
    and "kernel_words (kernel_top t) 7" "canonical ra" "uload 8 (machine w) (regs c RSP + 8) = Inr a5"
    and "syscall_handler lk (regs c RDI) (regs c RSI) (regs c RDX) (regs c RCX) (in_handler t ra back_at a5 c w) = Inr (Return v, w')"
    and "same_words (kernel_top t) 7 (mem (machine (in_handler t ra back_at a5 c w))) (mem (machine w'))"
    and "uload 8 (machine w') (regs c RSP) = Inr caller"
  shows "\<exists>c'. syscall (set_up t addr base) lo lk (addr Syscall_entry) back_at ra c w = Inr (Go c' w')
    \<and> rip c' = caller \<and> rflags c' = rflags c \<and> segs c' = segs c
    \<and> regs c' = (\<lambda>r. if r = RAX then v else if r = RSP then regs c RSP + 8 else if caller_saved r then after_call lo r else regs c r)"
proof -
  let ?P = "set_up t addr base" and ?top = "kernel_top t" and ?c1 = "set_reg RAX a5 c"
  have c: "cpl c = 3" "in_program ?c1" "regs ?c1 RSP = regs c RSP" "rflags ?c1 = rflags c" "segs ?c1 = segs c" "regs ?c1 RAX = a5"
    using assms(3) by (simp_all add: cpl_def in_program_def set_reg_def)
  obtain c2 where enter: "int_enter ?P 0x80 ra ?c1 (machine w)
      = Inr (c2, (machine w)\<lparr>mem := pushed (mem (machine w)) ?top [0x43, regs c RSP, rflags c, 0x3B, ra]\<rparr>)"
    and c2: "regs c2 = (regs ?c1)(RSP := ?top - 40)" "segs c2 = (segs ?c1)(CS := 0x28, SS := 0)" "rip c2 = addr Syscall_entry"
    using int_enter_program [OF assms(1,2) c(2) kernel_words_less [OF assms(5), of 5], of addr base ra "machine w"] c by force
  let ?w2 = "with_kernel ((machine w)\<lparr>mem := pushed (mem (machine w)) ?top [0x43, regs c RSP, rflags c, 0x3B, ra]\<rparr>) w"
  have ih: "in_handler t ra back_at a5 c w = with_kernel ((machine ?w2)\<lparr>mem := pushed (mem (machine w)) ?top [0x43, regs c RSP, rflags c, 0x3B, ra, regs c2 RAX, back_at]\<rparr>) ?w2"
    by (simp add: in_handler_def with_kernel_def c2 c(6))
  have ds: "segs c2 r = 0x43" if "r \<in> {DS, ES, FS, GS}" for r
    using assms(4) [OF that] that c(5) by (auto simp: c2(2))
  obtain c3 where run: "exec_code ?P lo (call_handler ?P lo lk) no_int (syscall_entry back_at) c2 ?w2 = Inr (Go c3 w')"
    and c3: "regs c3 = (\<lambda>r. if r = RSP then regs c RSP else if r = RAX then v else if caller_saved r then after_call lo r else regs c2 r)"
      "segs c3 = (segs c2)(CS := 0x3B, SS := 0x43)" "rflags c3 = rflags c" "rip c3 = ra"
    by (rule syscall_entry_returns [OF assms(1,2,5,6) _ _ _ _ ih _ assms(9), where lk = lk and v = v])
      (use ds assms(8) c2 in \<open>simp_all add: with_kernel_def set_reg_def\<close>)
  have segs: "segs c3 = segs c" using assms(3) c c2(2) by (simp add: c3(2) fun_eq_iff in_program_def)
  have sp: "regs c3 RSP = regs c RSP" "cpl c3 = 3" using c(1) by (simp_all add: c3(1) cpl_def segs)
  let ?c = "(set_reg RSP (regs c RSP + 8) c3)\<lparr>rip := caller\<rparr>"
  have "interrupt ?P lo lk (addr Syscall_entry) back_at 0x80 ra ?c1 w = Inr (Go c3 w')"
    by (simp add: interrupt_def enter c2(3) run c3(4) del: pushed.simps)
  then have "syscall ?P lo lk (addr Syscall_entry) back_at ra c w = Inr (Go ?c w')"
    using assms(7,10) by (simp add: syscall_def syscall_stub_def cload_def pop_def c(1) sp)
  moreover have "regs ?c = (\<lambda>r. if r = RAX then v else if r = RSP then regs c RSP + 8 else if caller_saved r then after_call lo r else regs c r)"
    by (simp add: set_reg_def c3(1) c2(1) fun_eq_iff caller_saved_def)
  ultimately show ?thesis using segs c3(3) by (intro exI [of _ ?c]) (simp add: set_reg_def)
qed

lemma kernel_words_mid:
  assumes "kernel_words a n" "j + k \<le> n"
  shows "kernel_words (a - of_nat (8 * j)) k"
proof -
  have "high (a - of_nat (8 * j) - of_nat (8 * k) + of_nat i)" if i: "i < 8 * k" for i
  proof -
    have "8 * (n - (j + k)) + i < 8 * n" using assms(2) i by auto
    then have "high (a - of_nat (8 * n) + of_nat (8 * (n - (j + k)) + i))" using assms(1) unfolding kernel_words_def by blast
    moreover have "(of_nat (8 * (n - (j + k)) + i) :: u64) = of_nat (8 * n) - of_nat (8 * j) - of_nat (8 * k) + of_nat i"
      using assms(2) by (simp add: of_nat_diff algebra_simps)
    moreover have "a - x + (x - y - z + b) = a - y - z + b" for x y z b :: u64 by simp
    ultimately show ?thesis by (simp only:)
  qed
  then show ?thesis by (simp add: kernel_words_def)
qed

lemma exec_code_append:
  "exec_code P lo on_call on_int (is @ js) c w
     = bindf (exec_code P lo on_call on_int is c w) (\<lambda>r. case r of Go c w \<Rightarrow> exec_code P lo on_call on_int js c w | Away c w \<Rightarrow> Inr r)"
  by (induction "is" arbitrary: c w) (auto simp: bindf_def split: sum.splits flow.splits)

subsection \<open>The parts of \<open>usermode_entry\<close>\<close>

lemma set_reg_simps:
  "cpl (set_reg r v c) = cpl c" "regs (set_reg r v c) = (regs c)(r := v)" "segs (set_reg r v c) = segs c"
  "rflags (set_reg r v c) = rflags c" "set_reg r u (set_reg r v c) = set_reg r u c"
  by (simp_all add: set_reg_def cpl_def)

lemma entry_segments:
  assumes "tss_apart t" "gdt_size t = 0" "cpl c = 0" "regs c RDI = 0x43"
  shows "exec_code (set_up t addr base) lo on_call on_int [MovSeg DS RDI, MovSeg ES RDI, MovSeg FS RDI, MovSeg GS RDI] c w
    = Inr (Go (c\<lparr>segs := (segs c)(DS := 0x43, ES := 0x43, FS := 0x43, GS := 0x43)\<rparr>) w)"
proof -
  have "gdt_of (set_up t addr base) = gdt_setup t" by (simp add: set_up_def)
  then have "load_seg (set_up t addr base) r 0x43 d = Inr (set_seg r 0x43 d)" if "cpl d = 0" for r d
    using that by (simp add: load_seg_def setup_descriptors [OF assms(1,2)] segment_bits)
  then show ?thesis using assms(3,4) by (simp add: set_seg_def cpl_def)
qed

lemma entry_pushes:
  assumes "cpl c = 0" "kernel_words (regs c RSP) 5"
  shows "exec_code P lo on_call on_int [Push RDI, Push RSI, Pushf, Push RDX, Push RCX] c w
    = Inr (Go (set_reg RSP (regs c RSP - 40) c) (with_kernel ((machine w)\<lparr>mem := pushed (mem (machine w)) (regs c RSP)
        [regs c RDI, regs c RSI, rflags c AND NOT 0x30000, regs c RDX, regs c RCX]\<rparr>) w))"
  using assms(1) kernel_words_high [OF assms(2), of 1] kernel_words_high [OF assms(2), of 2] kernel_words_high [OF assms(2), of 3]
    kernel_words_high [OF assms(2), of 4] kernel_words_high [OF assms(2), of 5]
  by (simp add: push_kernel set_reg_simps with_kernel_def)

lemma entry_loads:
  assumes "cpl c = 0" "kernel_words (regs c RSP + 80) 4"
  shows "exec_code P lo on_call on_int [Mov RDI R8, Mov RSI R9, Load RDX 48 RSP, Load RCX 56 RSP, Load R8 64 RSP, Load R9 72 RSP] c w
    = Inr (Go (c\<lparr>regs := (regs c)(RDI := regs c R8, RSI := regs c R9,
        RDX := load64 (mem (machine w)) (regs c RSP + 48), RCX := load64 (mem (machine w)) (regs c RSP + 56),
        R8 := load64 (mem (machine w)) (regs c RSP + 64), R9 := load64 (mem (machine w)) (regs c RSP + 72))\<rparr>) w)"
proof -
  have ld: "cload d (machine w) (regs c RSP + k) = Inr (load64 (mem (machine w)) (regs c RSP + k))"
    if "cpl d = 0" "k \<in> {48, 56, 64, 72}" for d k
  proof -
    have "\<And>i. i < 8 \<Longrightarrow> high (regs c RSP + k + i)"
      using that(2) kernel_words_high [OF assms(2), of 1] kernel_words_high [OF assms(2), of 2]
        kernel_words_high [OF assms(2), of 3] kernel_words_high [OF assms(2), of 4] by (auto simp: ac_simps)
    then show ?thesis using that(1) kload64_high [of "regs c RSP + k" "machine w"] by (simp add: cload_def)
  qed
  then show ?thesis using assms(1) by (simp add: set_reg_simps) (simp add: set_reg_def)
qed

text \<open>
  \<open>usermode_entry\<close>, called by the kernel with the user's selectors, a stack and an entry point, always
  starts the program there: in ring 3 on that stack, with the user's segments and the kernel's flags
  without VM and RF; memory changes only in the five words of the frame. The program's registers are
  the kernel's, but for the six arguments: they are taken from R8, R9 and four words of the kernel's
  stack above the return address.
\<close>

lemma usermode_entry_enters:
  assumes "tss_apart t" "gdt_size t = 0" "cpl c = 0" "regs c RDI = 0x43" "regs c RDX = 0x3B" "canonical (regs c RCX)"
    and "kernel_words (regs c RSP + 40) 10"
  shows "\<exists>c'. exec_code (set_up t addr base) lo on_call on_int usermode_entry c w
      = Inr (Go c' (with_kernel ((machine w)\<lparr>mem := pushed (mem (machine w)) (regs c RSP)
          [0x43, regs c RSI, rflags c AND NOT 0x30000, 0x3B, regs c RCX]\<rparr>) w))
    \<and> rip c' = regs c RCX \<and> rflags c' = rflags c AND NOT 0x30000
    \<and> segs c' = (\<lambda>r. if r = CS then 0x3B else 0x43)
    \<and> regs c' = (regs c)(RSP := regs c RSI, RDI := regs c R8, RSI := regs c R9,
        RDX := load64 (mem (machine w)) (regs c RSP + 8), RCX := load64 (mem (machine w)) (regs c RSP + 16),
        R8 := load64 (mem (machine w)) (regs c RSP + 24), R9 := load64 (mem (machine w)) (regs c RSP + 32))"
proof -
  let ?P = "set_up t addr base" and ?a = "regs c RSP" and ?sg = "(segs c)(DS := 0x43, ES := 0x43, FS := 0x43, GS := 0x43)"
  let ?m = "pushed (mem (machine w)) ?a [0x43, regs c RSI, rflags c AND NOT 0x30000, 0x3B, regs c RCX]"
  let ?c1 = "c\<lparr>segs := ?sg\<rparr>" and ?w = "with_kernel ((machine w)\<lparr>mem := ?m\<rparr>) w"
  let ?ld = "\<lambda>k. load64 ?m (k + ?a)" and ?run = "exec_code ?P lo on_call on_int"
  let ?rg = "(regs c)(RSP := ?a - 40, RDI := regs c R8, RSI := regs c R9, RDX := ?ld 8, RCX := ?ld 16, R8 := ?ld 24, R9 := ?ld 32)"
  let ?c3 = "c\<lparr>segs := ?sg, regs := ?rg\<rparr>"
  have words: "kernel_words ?a 5" "kernel_words (40 + ?a) 4"
    using kernel_words_mid [OF assms(7), of 5 5] kernel_words_less [OF assms(7), of 4] by (simp_all add: add.commute)
  have segs: "?run [MovSeg DS RDI, MovSeg ES RDI, MovSeg FS RDI, MovSeg GS RDI] c w = Inr (Go ?c1 w)"
    by (rule entry_segments [OF assms(1-4)])
  have pushes: "?run [Push RDI, Push RSI, Pushf, Push RDX, Push RCX] ?c1 w = Inr (Go (set_reg RSP (?a - 40) ?c1) ?w)"
    using entry_pushes [of ?c1 ?P lo on_call on_int w] assms(3-5) words(1) by (simp add: cpl_def del: pushed.simps exec_code.simps)
  have loads: "?run [Mov RDI R8, Mov RSI R9, Load RDX 48 RSP, Load RCX 56 RSP, Load R8 64 RSP, Load R9 72 RSP] (set_reg RSP (?a - 40) ?c1) ?w = Inr (Go ?c3 ?w)"
    using entry_loads [of "set_reg RSP (?a - 40) ?c1" ?P lo on_call on_int ?w] assms(3) words(2)
    by (simp add: set_reg_def cpl_def with_kernel_def del: pushed.simps exec_code.simps)
  have ir: "iretq ?P ?c3 (machine ?w) = Inr (?c3\<lparr>regs := (regs ?c3)(RSP := regs c RSI), segs := (segs ?c3)(CS := 0x3B, SS := 0x43), rflags := rflags c AND NOT 0x30000, rip := regs c RCX\<rparr>)"
  proof (rule iretq_program [OF assms(1,2)])
    show "kernel_words (regs ?c3 RSP + 40) 5" using words(1) by simp
  qed (use assms(3,6) in \<open>auto simp: cpl_def with_kernel_def load64_store64_far\<close>)
  have parts: "usermode_entry = [MovSeg DS RDI, MovSeg ES RDI, MovSeg FS RDI, MovSeg GS RDI] @ [Push RDI, Push RSI, Pushf, Push RDX, Push RCX]
      @ [Mov RDI R8, Mov RSI R9, Load RDX 48 RSP, Load RCX 56 RSP, Load R8 64 RSP, Load R9 72 RSP] @ [Iretq]"
    by (simp add: usermode_entry_def)
  have "?run usermode_entry c w = Inr (Go (?c3\<lparr>regs := (regs ?c3)(RSP := regs c RSI), segs := (segs ?c3)(CS := 0x3B, SS := 0x43), rflags := rflags c AND NOT 0x30000, rip := regs c RCX\<rparr>) ?w)"
    unfolding parts exec_code_append segs pushes loads bindf_simps flow.case
    unfolding exec_code.simps exec1.simps ir bindf_simps flow.case ..
  moreover have "((segs ?c3)(CS := 0x3B, SS := 0x43)) r = (if r = CS then 0x3B else 0x43)" for r
    by (cases r) simp_all
  moreover have "?ld k = load64 (mem (machine w)) (?a + k)" if "k \<in> {8, 16, 24, 32}" for k
    unfolding add.commute [of k] using that by (elim insertE) (simp_all add: load64_store64_far word_le_nat_alt)
  ultimately show ?thesis by (intro exI conjI) (assumption | simp add: fun_eq_iff del: pushed.simps)+
qed

text \<open>A call that starts a program: the other way out of \<open>syscall_handler\<close>.\<close>

definition starts :: "cpu \<Rightarrow> (reg \<Rightarrow> u64) \<Rightarrow> u64 \<Rightarrow> u64 \<Rightarrow> bool" where
  "starts c old sp ip \<longleftrightarrow> rip c = ip \<and> regs c RSP = sp \<and> segs c = (\<lambda>r. if r = CS then 0x3B else 0x43)
     \<and> regs c RDI = old R8 \<and> regs c RSI = old R9
     \<and> (\<forall>r. r \<notin> {RSP, RDI, RSI, RDX, RCX, R8, R9} \<longrightarrow> regs c r = old r)"

lemma start_user_starts:
  assumes "tss_apart t" "gdt_size t = 0" "cpl c = 0" "canonical ip" "kernel_words (in_entry lo RSP + 40) 10"
  obtains c' where "start_user (set_up t addr base) lo 0x43 sp 0x3B ip c w
      = Inr (Go c' (with_kernel ((machine w)\<lparr>mem := pushed (mem (machine w)) (in_entry lo RSP) [0x43, sp, rflags c', 0x3B, ip]\<rparr>) w))"
    and "starts c' (in_entry lo) sp ip" "rflags c' = status (rflags c) (call_flags lo) AND NOT 0x30000"
proof -
  let ?c = "c\<lparr>regs := (in_entry lo)(RDI := 0x43, RSI := sp, RDX := 0x3B, RCX := ip), rflags := status (rflags c) (call_flags lo)\<rparr>"
  have "cpl ?c = 0" "regs ?c RDI = 0x43" "regs ?c RDX = 0x3B" "canonical (regs ?c RCX)" "kernel_words (regs ?c RSP + 40) 10"
    using assms(3-5) by (simp_all add: cpl_def)
  from usermode_entry_enters [OF assms(1,2) this, of addr base lo no_call no_int w]
  show thesis by (elim exE conjE) (rule that, auto simp: start_user_def starts_def simp del: pushed.simps)
qed

lemma syscall_entry_starts:
  assumes t: "tss_apart t" "gdt_size t = 0" and k: "kernel_words (kernel_top t) 7" and can: "canonical ip"
    and c: "segs c CS = 0x28" "regs c RSP = kernel_top t - 40" and e: "kernel_words (in_entry lo RSP + 40) 10"
    and w: "mem (machine w) = pushed m (kernel_top t) [0x43, old, fl, 0x3B, ra]"
    and w1: "w1 = with_kernel ((machine w)\<lparr>mem := pushed m (kernel_top t) [0x43, old, fl, 0x3B, ra, regs c RAX, back_at]\<rparr>) w"
    and h: "syscall_handler lk (regs c RDI) (regs c RSI) (regs c RDX) (regs c RCX) w1 = Inr (EnterUser 0x43 sp 0x3B ip, w')"
  obtains c' where "exec_code (set_up t addr base) lo (call_handler (set_up t addr base) lo lk) no_int (syscall_entry back_at) c w
      = Inr (Away c' (with_kernel ((machine w')\<lparr>mem := pushed (mem (machine w')) (in_entry lo RSP) [0x43, sp, rflags c', 0x3B, ip]\<rparr>) w'))"
    and "starts c' (in_entry lo) sp ip" "rflags c' = status (rflags c) (call_flags lo) AND NOT 0x30000"
proof -
  let ?P = "set_up t addr base" and ?top = "kernel_top t"
  let ?c1 = "set_reg RSP (?top - 48) c" and ?w1 = "with_kernel ((machine w)\<lparr>mem := store64 (mem (machine w)) (?top - 48) (regs c RAX)\<rparr>) w"
  have cc: "cpl c = 0" using c by (simp add: cpl_def)
  have p: "push (regs c RAX) c (machine w) = Inr (?c1, (machine w)\<lparr>mem := store64 (mem (machine w)) (?top - 48) (regs c RAX)\<rparr>)"
    "push back_at ?c1 (machine ?w1) = Inr (set_reg RSP (?top - 56) c, (machine ?w1)\<lparr>mem := store64 (mem (machine ?w1)) (?top - 56) back_at\<rparr>)"
    using push_kernel [of c "regs c RAX" "machine w"] push_kernel [of ?c1 back_at "machine ?w1"]
      kernel_words_high [OF k, of 6] kernel_words_high [OF k, of 7] cc c by (simp_all add: set_reg_simps)
  have wh: "with_kernel ((machine ?w1)\<lparr>mem := store64 (mem (machine ?w1)) (?top - 56) back_at\<rparr>) ?w1 = w1"
    by (simp add: w1 with_kernel_def w)
  obtain c' where s: "start_user ?P lo 0x43 sp 0x3B ip (set_reg RSP (?top - 56) c) w'
      = Inr (Go c' (with_kernel ((machine w')\<lparr>mem := pushed (mem (machine w')) (in_entry lo RSP) [0x43, sp, rflags c', 0x3B, ip]\<rparr>) w'))"
    "starts c' (in_entry lo) sp ip" "rflags c' = status (rflags c) (call_flags lo) AND NOT 0x30000"
    using start_user_starts [OF t _ can e, of "set_reg RSP (?top - 56) c" addr base sp w'] cc by (auto simp: set_reg_simps)
  have "call_handler ?P lo lk back_at ?c1 ?w1
      = Inr (Away c' (with_kernel ((machine w')\<lparr>mem := pushed (mem (machine w')) (in_entry lo RSP) [0x43, sp, rflags c', 0x3B, ip]\<rparr>) w'))"
    unfolding call_handler_def p(2) bindf_simps prod.case wh
    using h s(1) by (simp add: set_reg_simps away_def del: pushed.simps)
  then have "exec_code ?P lo (call_handler ?P lo lk) no_int (syscall_entry back_at) c w
      = Inr (Away c' (with_kernel ((machine w')\<lparr>mem := pushed (mem (machine w')) (in_entry lo RSP) [0x43, sp, rflags c', 0x3B, ip]\<rparr>) w'))"
    unfolding syscall_entry_def exec_code.simps exec1.simps p(1) bindf_simps prod.case flow.case by simp
  then show thesis using s(2,3) by (rule that)
qed

lemma syscall_starts:
  assumes "tss_apart t" "gdt_size t = 0" "in_program c" "kernel_words (kernel_top t) 7" "canonical ip"
    and "uload 8 (machine w) (regs c RSP + 8) = Inr a5" "kernel_words (in_entry lo RSP + 40) 10"
    and "syscall_handler lk (regs c RDI) (regs c RSI) (regs c RDX) (regs c RCX) (in_handler t ra back_at a5 c w) = Inr (EnterUser 0x43 sp 0x3B ip, w')"
  shows "\<exists>c'. syscall (set_up t addr base) lo lk (addr Syscall_entry) back_at ra c w
      = Inr (Away c' (with_kernel ((machine w')\<lparr>mem := pushed (mem (machine w')) (in_entry lo RSP) [0x43, sp, rflags c', 0x3B, ip]\<rparr>) w'))
    \<and> starts c' (in_entry lo) sp ip \<and> bit (rflags c') 9 = bit (rflags c) 9"
proof -
  let ?P = "set_up t addr base" and ?top = "kernel_top t" and ?c1 = "set_reg RAX a5 c"
  have c: "cpl c = 3" "in_program ?c1" "regs ?c1 RSP = regs c RSP" "rflags ?c1 = rflags c" "segs ?c1 = segs c" "regs ?c1 RAX = a5"
    using assms(3) by (simp_all add: cpl_def in_program_def set_reg_def)
  let ?m = "pushed (mem (machine w)) ?top [0x43, regs c RSP, rflags c, 0x3B, ra]"
  let ?w2 = "with_kernel ((machine w)\<lparr>mem := ?m\<rparr>) w"
  obtain c2 where enter: "int_enter ?P 0x80 ra ?c1 (machine w) = Inr (c2, (machine w)\<lparr>mem := ?m\<rparr>)"
    and c2: "regs c2 = (regs ?c1)(RSP := ?top - 40)" "segs c2 = (segs ?c1)(CS := 0x28, SS := 0)" "rip c2 = addr Syscall_entry"
      "rflags c2 = rflags c AND NOT 0x14100"
    using int_enter_program [OF assms(1,2) c(2) kernel_words_less [OF assms(4), of 5], of addr base ra "machine w"] c by force
  have ih: "in_handler t ra back_at a5 c w = with_kernel ((machine ?w2)\<lparr>mem := pushed (mem (machine w)) ?top [0x43, regs c RSP, rflags c, 0x3B, ra, regs c2 RAX, back_at]\<rparr>) ?w2"
    by (simp add: in_handler_def with_kernel_def c2 c(6))
  obtain c' where run: "exec_code ?P lo (call_handler ?P lo lk) no_int (syscall_entry back_at) c2 ?w2
      = Inr (Away c' (with_kernel ((machine w')\<lparr>mem := pushed (mem (machine w')) (in_entry lo RSP) [0x43, sp, rflags c', 0x3B, ip]\<rparr>) w'))"
    and c': "starts c' (in_entry lo) sp ip" "rflags c' = status (rflags c2) (call_flags lo) AND NOT 0x30000"
    by (rule syscall_entry_starts [OF assms(1,2,4,5) _ _ assms(7) _ ih, where lk = lk and sp = sp and w' = w'])
      (use assms(8) c2 in \<open>simp_all add: with_kernel_def set_reg_def\<close>)
  have "interrupt ?P lo lk (addr Syscall_entry) back_at 0x80 ra ?c1 w
      = Inr (Away c' (with_kernel ((machine w')\<lparr>mem := pushed (mem (machine w')) (in_entry lo RSP) [0x43, sp, rflags c', 0x3B, ip]\<rparr>) w'))"
    by (simp add: interrupt_def enter c2(3) run del: pushed.simps)
  then have "syscall ?P lo lk (addr Syscall_entry) back_at ra c w
      = Inr (Away c' (with_kernel ((machine w')\<lparr>mem := pushed (mem (machine w')) (in_entry lo RSP) [0x43, sp, rflags c', 0x3B, ip]\<rparr>) w'))"
    using assms(6) by (simp add: syscall_def syscall_stub_def cload_def c(1) del: pushed.simps)
  moreover have "bit (rflags c') 9 = bit (rflags c) 9" by (simp add: c'(2) c2(4) status_def bits)
  ultimately show ?thesis using c'(1) by blast
qed

subsection \<open>A machine for the examples\<close>

text \<open>
  A machine for the examples: a page table at physical 0x1000 whose entries all point back to itself, so
  that every address of a program is a byte of that table, except that the one for the start of the higher half,
  entry 256, is the kernel's alone; the kernel's stack is that of \<open>sample_gdt\<close>.
\<close>

definition sample_program :: world where
  "sample_program = sample_world\<lparr>machine := (machine sample_world)\<lparr>mem := \<lambda>a.
     if a AND 7 = 0 then (if a AND 0xFFF = 0x800 then 0x03 else 0x07) else if a AND 7 = 1 then 0x10 else 0\<rparr>\<rparr>"

definition sample_cpu :: cpu where
  "sample_cpu = \<lparr>regs = (\<lambda>_. 0)(RDI := 7, RBX := 0xB0, R12 := 0x12), segs = (\<lambda>r. if r = CS then 0x3B else 0x43), rflags = 0x202, rip = 0x400000\<rparr>"

lemma uload_pos: "0 < n \<Longrightarrow> uload n s a =
    bindf (uload8 s a) (\<lambda>b. bindf (uload (n - 1) s (a + 1)) (\<lambda>w. Inr (ucast b OR push_bit 8 w)))"
  by (cases n) simp_all

lemma store64_far: "8 \<le> x - b \<Longrightarrow> store64 m b v x = m x"
  by (rule store64_other) auto

lemma sample_top: "kernel_top sample_gdt = 0xFFFF80000000AFF0"
  by (simp add: kernel_top_def sample_gdt_def)

lemma sample_stack: "kernel_words (kernel_top sample_gdt) 7"
proof -
  have "high (0xFFFF80000000AFB8 + of_nat k)" if "k < 56" for k
    using that by (simp add: high_def word_le_nat_alt unat_word_ariths unat_of_nat)
  then show ?thesis by (simp add: sample_top kernel_words_def)
qed

lemma program_loads:
  assumes "\<And>a. a - 0xffff800000001000 < 0x1000 \<Longrightarrow> mem s a = mem (machine sample_program) a" "hhdm s = 0xffff800000000000" "cr3 s = 0x1000"
  shows "uload 8 s 0 = Inr 0x1007" "uload 8 s 8 = Inr 0x1007"
proof -
  have m: "mem s 0xffff800000001000 = 7" "mem s 0xffff800000001001 = 0x10"
    "mem s 0xffff800000001002 = 0" "mem s 0xffff800000001003 = 0" "mem s 0xffff800000001004 = 0" "mem s 0xffff800000001005 = 0"
    "mem s 0xffff800000001006 = 0" "mem s 0xffff800000001007 = 0"
    "mem s 0xffff800000001008 = 7" "mem s 0xffff800000001009 = 0x10"
    "mem s 0xffff80000000100A = 0" "mem s 0xffff80000000100B = 0" "mem s 0xffff80000000100C = 0" "mem s 0xffff80000000100D = 0"
    "mem s 0xffff80000000100E = 0" "mem s 0xffff80000000100F = 0"
    by (simp_all add: assms(1) sample_program_def)
  have e: "load64 (mem s) 0xffff800000001000 = 0x1007"
    by (simp add: load64_def m push_bit_eq_mult)
  have g: "get_pte (mem s) (slot 0xffff800000001000 0) = \<lparr>pte_present = True, pte_writable = True,
     pte_user = True, pte_write_through = False, pte_cache_disable = False,
     pte_accessed = False, pte_dirty = False, pte_page_size = False,
     pte_unused = 0, pte_address = 1, pte_no_execute = False\<rparr>"
    by (simp add: get_pte_def slot_def e pte_decode_def bit_numeral_rec)
  have w: "walk s (cr3_root s) a = Some (0x1000 + a, all_rights)" if a: "a < 16" for a
  proof -
    have t: "take_bit 12 a = a" by (rule take_bit_12_less) (use a in \<open>simp add: word_less_nat_alt\<close>)
    have "\<not> bit a n" if "12 \<le> n" for n using that by (metis bit_take_bit_iff leD t)
    then have "drop_bit n a = 0" if "12 \<le> n" for n using that by (auto intro!: bit_word_eqI simp: bits)
    then have i: "table_index k a = 0" for k by (simp add: table_index_def)
    have four: "mmu_walk 4 = mmu_walk (Suc (Suc (Suc (Suc 0))))" by (simp add: numeral_eq_Suc)
    show ?thesis
      using g by (simp add: walk_def cr3_root_def assms(2,3) four i t Let_def restrict_rights_def all_rights_def pte_frame_def)
  qed
  have u: "uload8 s a = Inr (mem s (0xffff800000001000 + a))" if "a < 16" for a
  proof -
    have "a < 0x800000000000" using that by (simp add: word_less_nat_alt)
    then show ?thesis using w [OF that] by (simp add: uload8_def uresolve_def all_rights_def assms(2) add.commute add.left_commute)
  qed
  show "uload 8 s 0 = Inr 0x1007" by (simp add: uload_pos u m push_bit_eq_mult)
  show "uload 8 s 8 = Inr 0x1007" by (simp add: uload_pos u m push_bit_eq_mult)
qed


lemma sample_entry:
  "pte_present (pte_decode 0x1003)" "pte_present (pte_decode 0x1007)" "\<not> pte_page_size (pte_decode 0x1003)" "\<not> pte_page_size (pte_decode 0x1007)"
  "pte_frame (pte_decode 0x1003) = 0x1000" "pte_frame (pte_decode 0x1007) = 0x1000" "\<not> pte_user (pte_decode 0x1003)"
  by (simp_all add: pte_decode_def pte_frame_def bit_numeral_rec)

text \<open>The direct map of the table's own page, which only the kernel may read.\<close>

lemma program_kernel_page:
  assumes "\<And>a. a - 0xffff800000001000 < 0x1000 \<Longrightarrow> mem s a = mem (machine sample_program) a" "hhdm s = 0xffff800000000000" "cr3 s = 0x1000"
    and "i < 2"
  shows "\<exists>r. walk s (cr3_root s) (0xffff800000001000 + of_nat i) = Some (0xffff800000001000 + of_nat i - hhdm s, r) \<and> \<not> may_user r"
proof -
  have "load64 (mem s) 0xffff800000001000 = 0x1007" "load64 (mem s) 0xffff800000001008 = 0x1007" "load64 (mem s) 0xffff800000001800 = 0x1003"
    by (simp_all add: load64_def assms(1) sample_program_def push_bit_eq_mult)
  then have g: "get_pte (mem s) (slot 0xffff800000001000 0) = pte_decode 0x1007" "get_pte (mem s) (slot 0xffff800000001000 1) = pte_decode 0x1007"
    "get_pte (mem s) (slot 0xffff800000001000 256) = pte_decode 0x1003"
    by (simp_all add: get_pte_def slot_def)
  have four: "mmu_walk 4 = mmu_walk (Suc (Suc (Suc (Suc 0))))" by (simp add: numeral_eq_Suc)
  have ix: "table_index (Suc (Suc (Suc 0))) (0xffff800000001000 + of_nat i) = 256" "table_index (Suc (Suc 0)) (0xffff800000001000 + of_nat i) = 0"
    "table_index (Suc 0) (0xffff800000001000 + of_nat i) = 0" "table_index 0 (0xffff800000001000 + of_nat i) = 1"
    "take_bit 12 (0xffff800000001000 + of_nat i :: u64) = of_nat i"
    using assms(4) by (auto simp: less_2 table_index_def drop_bit_eq_div take_bit_eq_mod)
  show ?thesis
    by (simp add: walk_def cr3_root_def assms(2,3) four ix g sample_entry Let_def restrict_rights_def all_rights_def)
qed

definition sample_leftovers :: leftovers where
  "sample_leftovers = \<lparr>after_call = (\<lambda>_. 0xC0DE), call_flags = 0, sum_flags = 0, in_entry = (\<lambda>_. 0xBEEF)\<rparr>"

lemma sample_regs:
  "in_program sample_cpu" "r \<in> {DS, ES, FS, GS} \<Longrightarrow> segs sample_cpu r = 0x43" "regs sample_cpu RSP = 0"
  by (auto simp: sample_cpu_def in_program_def)

lemma sample_gdt_size: "gdt_size sample_gdt = 0"
  by (simp add: sample_gdt_def)

lemma sample_starts: "uload 8 (machine sample_program) (regs sample_cpu RSP + 8) = Inr 0x1007"
  using program_loads(2) [of "machine sample_program"] by (simp add: sample_regs(3)) (simp add: sample_program_def sample_world_def)

lemma sample_apart:
  assumes "a - 0xffff800000001000 < 0x1000" "regs c RSP = 0" "rflags c = 0x202"
  shows "mem (machine (in_handler sample_gdt 0x400010 0xffffffff80201010 0x1007 c sample_program)) a = mem (machine sample_program) a"
proof -
  have "8 \<le> a - b" if "b \<in> {0xFFFF80000000AFE8, 0xFFFF80000000AFE0, 0xFFFF80000000AFD8, 0xFFFF80000000AFD0, 0xFFFF80000000AFC8, 0xFFFF80000000AFC0, 0xFFFF80000000AFB8}" for b
  proof (rule ccontr)
    assume "\<not> 8 \<le> a - b"
    moreover define e where "e = a - b"
    ultimately have "e < 8" "a - 0xffff800000001000 = e + (b - 0xffff800000001000)" by simp_all
    then show False using assms(1) that by (auto simp: word_less_nat_alt unat_word_ariths)
  qed
  then show ?thesis by (simp add: in_handler_def with_kernel_def sample_top store64_far)
qed

lemma sample_stays:
  "uload 8 (machine (in_handler sample_gdt 0x400010 0xffffffff80201010 0x1007 sample_cpu sample_program)) (regs sample_cpu RSP) = Inr 0x1007"
  unfolding sample_regs(3)
  by (rule program_loads(1), rule sample_apart)
    (simp_all add: sample_regs(3) in_handler_def with_kernel_def sample_program_def sample_world_def sample_cpu_def)

subsection \<open>Properties\<close>

text \<open>
  C6: a system call comes back to where it was made. From a program in ring 3, on the tables that
  \<open>gdt_setup\<close> and \<open>idt_setup\<close> build, \<open>syscall\<close> reaches the C handler with its arguments and on the kernel's
  stack; if the handler returns \<open>v\<close> and has not written over the seven words of the call there, the
  program goes on after its call in ring 3 with \<open>v\<close> in RAX, its own stack pointer, flags, segments and
  callee-saved registers, and with whatever the kernel left in the other caller-saved registers. The
  world is the one the handler left.
\<close>

theorem syscall_round_trip:
  assumes "tss_apart t" "gdt_size t = 0" "in_program c" "\<And>r. r \<in> {DS, ES, FS, GS} \<Longrightarrow> segs c r = 0x43"
    and "kernel_words (kernel_top t) 7" "canonical ra" "uload 8 (machine w) (regs c RSP + 8) = Inr a5"
    and "syscall_handler lk (regs c RDI) (regs c RSI) (regs c RDX) (regs c RCX) (in_handler t ra back_at a5 c w) = Inr (Return v, w')"
    and "same_words (kernel_top t) 7 (mem (machine (in_handler t ra back_at a5 c w))) (mem (machine w'))"
    and "uload 8 (machine w') (regs c RSP) = Inr caller"
  shows "\<exists>c'. syscall (set_up t addr base) lo lk (addr Syscall_entry) back_at ra c w = Inr (Go c' w')
    \<and> rip c' = caller \<and> rflags c' = rflags c \<and> segs c' = segs c
    \<and> regs c' = (\<lambda>r. if r = RAX then v else if r = RSP then regs c RSP + 8 else if caller_saved r then after_call lo r else regs c r)"
  by (rule syscall_returns [OF assms])

lemma syscall_round_trip_witness:
  "\<exists>c' w'. syscall (set_up sample_gdt (\<lambda>_. 0xffffffff80201000) 0xffffffff80300000) sample_leftovers sample_calls
       0xffffffff80201000 0xffffffff80201010 0x400010 sample_cpu sample_program = Inr (Go c' w')
     \<and> rip c' = 0x1007 \<and> regs c' RAX = 123 \<and> regs c' RSP = 8 \<and> regs c' RBX = 0xB0 \<and> regs c' R10 = 0xC0DE \<and> screen w' = blank_term"
proof -
  let ?w = "in_handler sample_gdt 0x400010 0xffffffff80201010 0x1007 sample_cpu sample_program"
  have h: "syscall_handler sample_calls (regs sample_cpu RDI) (regs sample_cpu RSI) (regs sample_cpu RDX) (regs sample_cpu RCX) ?w
      = Inr (Return 123, ?w)"
    by (simp add: sample_cpu_def syscall_handler_def)
  have t: "gdt_size sample_gdt = 0" "canonical 0x400010" by (simp_all add: sample_gdt_def canonical_def)
  have sc: "screen ?w = blank_term"
    by (simp add: in_handler_def with_kernel_def sample_program_def sample_world_def)
  show ?thesis
    using syscall_round_trip [OF sample_tss_apart t(1) sample_regs(1,2) sample_stack t(2) sample_starts h _ sample_stays,
        of "\<lambda>_. 0xffffffff80201000" "0xffffffff80300000" sample_leftovers] sc
    by (auto simp: sample_regs(3) same_words_def caller_saved_def) (auto simp: sample_leftovers_def sample_cpu_def)
qed

lemma scast_of_nat:
  assumes "n < 2 ^ 31"
  shows "(scast (of_nat n :: u32) :: u64) = of_nat n"
proof -
  have "signed_take_bit 31 (int n) = int n" using assms by (intro signed_take_bit_int_eq_self) auto
  then have "sint (of_nat n :: u32) = int n" by (simp add: signed_of_nat)
  then show ?thesis by (metis of_int_of_nat_eq of_int_sint)
qed

lemma write_returns:
  assumes "readable (machine (in_handler t ra back_at a5 c w)) buf cs" "length cs < 2 ^ 31" "fd = 1 \<or> fd = 2"
    and "regs c RDI = 1" "regs c RSI = fd" "regs c RDX = buf" "regs c RCX = of_nat (length cs)"
  shows "syscall_handler lk (regs c RDI) (regs c RSI) (regs c RDX) (regs c RCX) (in_handler t ra back_at a5 c w)
    = Inr (Return (of_nat (length cs)), (in_handler t ra back_at a5 c w)\<lparr>screen := fold term_putchar cs (screen w)\<rparr>)"
proof -
  have "syscall_write (ucast fd) buf (of_nat (length cs)) (in_handler t ra back_at a5 c w)
      = Inr (of_nat (length cs), (in_handler t ra back_at a5 c w)\<lparr>screen := fold term_putchar cs (screen w)\<rparr>)"
    using write_loop_puts [OF assms(1,2), of 0] assms(3)
    by (auto simp: syscall_write_def of_nat_ucast [OF assms(2)] in_handler_def with_kernel_def)
  then show ?thesis by (simp add: syscall_handler_def assms(4-7) scast_of_nat [OF assms(2)])
qed

definition kernel_only :: "kstate \<Rightarrow> u64 \<Rightarrow> nat \<Rightarrow> bool" where
  "kernel_only s buf n \<longleftrightarrow>
     (\<forall>i < n. \<exists>r. walk s (cr3_root s) (buf + of_nat i) = Some (buf + of_nat i - hhdm s, r) \<and> \<not> may_user r)"

text \<open>
  C8: the kernel does not look at the addresses a program hands it. A program makes a write call with a
  buffer in the kernel's half, in pages that the page tables map, as the direct map does, for the kernel
  only, so that a load of the program's own from there is a page fault. The call comes back as if nothing
  were wrong, in ring 3 and with \<open>n\<close> in RAX: the \<open>n\<close> bytes of the kernel's memory have been put on the
  screen. (A buffer in pages that are not mapped is not covered: the kernel faults on it.)
\<close>

theorem write_shows_kernel_memory:
  assumes "tss_apart t" "gdt_size t = 0" "in_program c" "\<And>r. r \<in> {DS, ES, FS, GS} \<Longrightarrow> segs c r = 0x43"
    and "kernel_words (kernel_top t) 7" "canonical ra" "uload 8 (machine w) (regs c RSP + 8) = Inr a5"
    and "regs c RDI = 1" "regs c RSI = 1 \<or> regs c RSI = 2" "regs c RDX = buf" "regs c RCX = of_nat n" "n < 2 ^ 31"
    and "\<And>i. i < n \<Longrightarrow> high (buf + of_nat i)" "kernel_only (machine w) buf n"
    and "kernel_only (machine (in_handler t ra back_at a5 c w)) buf n"
    and "uload 8 (machine (in_handler t ra back_at a5 c w)) (regs c RSP) = Inr caller"
  shows "(\<forall>i < n. uload8 (machine w) (buf + of_nat i) = Inl (PageFault (buf + of_nat i)))
    \<and> (let w' = in_handler t ra back_at a5 c w;
           bytes = map (\<lambda>i. mem (machine w') (buf + of_nat i)) [0..<n]
       in \<exists>c'. syscall (set_up t addr base) lo lk (addr Syscall_entry) back_at ra c w
            = Inr (Go c' (w'\<lparr>screen := fold term_putchar bytes (screen w)\<rparr>))
          \<and> rip c' = caller \<and> regs c' RAX = of_nat n \<and> cpl c' = 3)"
proof -
  let ?w = "in_handler t ra back_at a5 c w"
  let ?bytes = "map (\<lambda>i. mem (machine ?w) (buf + of_nat i)) [0..<n]"
  have "readable (machine ?w) buf ?bytes" using assms(13) by (simp add: readable_def kload8_def)
  from write_returns [OF this _ assms(9) assms(8) refl assms(10), of lk]
  have h: "syscall_handler lk (regs c RDI) (regs c RSI) (regs c RDX) (regs c RCX) ?w
      = Inr (Return (of_nat n), ?w\<lparr>screen := fold term_putchar ?bytes (screen w)\<rparr>)"
    using assms(11,12) by simp
  have faults: "\<forall>i < n. uload8 (machine w) (buf + of_nat i) = Inl (PageFault (buf + of_nat i))"
    using assms(13,14) by (fastforce simp: uload8_def uresolve_def high_def kernel_only_def)
  have "same_words (kernel_top t) 7 (mem (machine ?w)) (mem (machine (?w\<lparr>screen := fold term_putchar ?bytes (screen w)\<rparr>)))"
    by (simp add: same_words_def)
  from syscall_returns [OF assms(1-7) h this, of caller addr base lo] assms(16) obtain c' where
    "syscall (set_up t addr base) lo lk (addr Syscall_entry) back_at ra c w = Inr (Go c' (?w\<lparr>screen := fold term_putchar ?bytes (screen w)\<rparr>))"
    "rip c' = caller" "segs c' = segs c" "regs c' RAX = of_nat n"
    by auto
  then show ?thesis using faults assms(3) by (auto simp: Let_def cpl_def in_program_def)
qed

lemma write_shows_kernel_memory_witness:
  "\<exists>c' w'. syscall (set_up sample_gdt (\<lambda>_. 0xffffffff80201000) 0xffffffff80300000) sample_leftovers sample_calls
       0xffffffff80201000 0xffffffff80201010 0x400010 (set_reg RDI 1 (set_reg RSI 1 (set_reg RDX 0xffff800000001000 (set_reg RCX 2 sample_cpu))))
       sample_program = Inr (Go c' w')
     \<and> uload8 (machine sample_program) 0xffff800000001000 = Inl (PageFault 0xffff800000001000)
     \<and> regs c' RAX = 2 \<and> cpl c' = 3 \<and> screen w' = term_putchar 0x10 (term_putchar 0x07 blank_term)"
proof -
  let ?c = "set_reg RDI 1 (set_reg RSI 1 (set_reg RDX 0xffff800000001000 (set_reg RCX 2 sample_cpu)))"
  let ?w = "in_handler sample_gdt 0x400010 0xffffffff80201010 0x1007 ?c sample_program"
  have high: "high (0xffff800000001000 + of_nat i)" if "i < 2" for i using that by (auto simp: high_def less_2)
  have rs: "regs ?c RSP = regs sample_cpu RSP" "rflags ?c = rflags sample_cpu" by (simp_all add: set_reg_def)
  then have w: "?w = in_handler sample_gdt 0x400010 0xffffffff80201010 0x1007 sample_cpu sample_program" by (simp add: in_handler_def)
  have bytes: "mem (machine ?w) 0xffff800000001000 = 7" "mem (machine ?w) 0xffff800000001001 = 0x10"
    by (simp_all add: in_handler_def with_kernel_def sample_top store64_far sample_program_def)
  have sc: "screen sample_program = blank_term" by (simp add: sample_program_def sample_world_def)
  have regs: "in_program ?c" "\<And>r. r \<in> {DS, ES, FS, GS} \<Longrightarrow> segs ?c r = 0x43" "regs ?c RDI = 1" "regs ?c RSI = 1 \<or> regs ?c RSI = 2"
    "regs ?c RDX = 0xffff800000001000" "regs ?c RCX = of_nat 2" "kernel_words (kernel_top sample_gdt) 7" "gdt_size sample_gdt = 0"
    "canonical 0x400010" "(2 :: nat) < 2 ^ 31" "uload 8 (machine sample_program) (regs ?c RSP + 8) = Inr 0x1007"
    using sample_regs sample_stack sample_starts by (simp_all add: set_reg_def in_program_def canonical_def sample_gdt_size)
  have rest: "hhdm (machine sample_program) = 0xffff800000000000" "cr3 (machine sample_program) = 0x1000"
    "hhdm (machine ?w) = 0xffff800000000000" "cr3 (machine ?w) = 0x1000" "regs sample_cpu RSP = 0" "rflags sample_cpu = 0x202"
    by (simp_all add: in_handler_def with_kernel_def sample_program_def sample_world_def sample_cpu_def)
  have "kernel_only (machine sample_program) 0xffff800000001000 2"
    unfolding kernel_only_def using program_kernel_page [OF refl rest(1,2)] by blast
  moreover have "kernel_only (machine ?w) 0xffff800000001000 2"
    unfolding kernel_only_def
    by (intro allI impI, rule program_kernel_page [OF _ rest(3,4)], unfold w, rule sample_apart) (simp_all add: rest(5,6))
  ultimately have only: "kernel_only (machine sample_program) 0xffff800000001000 2" "kernel_only (machine ?w) 0xffff800000001000 2" by simp_all
  have ret: "uload 8 (machine ?w) (regs ?c RSP) = Inr 0x1007" using sample_stays unfolding w rs .
  show ?thesis
    using write_shows_kernel_memory [OF sample_tss_apart regs(8,1,2,7,9,11,3,4,5,6,10) high only ret,
        of "\<lambda>_. 0xffffffff80201000" "0xffffffff80300000" sample_leftovers sample_calls]
    by (auto simp: Let_def upt_rec bytes sc less_2)
qed

end
