(* ===== verification/Exec_Entry.thy ===== *)
theory Exec_Entry
  imports Entry_Props Exec_Call
begin

text \<open>
  The exec call of a program from the software interrupt to the first instruction of the new program: the
  assembly of \<open>Entry\<close> around the refinement of \<open>Exec_Call\<close>. The words that \<open>usermode_entry\<close> pushes lie on a
  stack apart from the page tables, so the program's view of memory is the one its file describes.
\<close>

text \<open>The five words above and the five below the stack pointer of \<open>usermode_entry\<close>.\<close>

definition entry_bytes :: "u64 \<Rightarrow> u64 set" where
  "entry_bytes sp = {a. a - (sp - 40) < 80}"

lemma entry_bytes_words:
  assumes "\<And>a. a \<in> entry_bytes sp \<Longrightarrow> high a"
  shows "kernel_words (sp + 40) 10"
proof -
  have "sp + 40 - of_nat (8 * 10) + of_nat k \<in> entry_bytes sp" if "k < 8 * 10" for k
  proof -
    have "sp + 40 - of_nat (8 * 10) + of_nat k - (sp - 40) = (of_nat k :: u64)" by simp
    moreover have "(of_nat k :: u64) < 80" using that by (simp add: word_less_nat_alt unat_of_nat)
    ultimately show ?thesis by (simp only: entry_bytes_def mem_Collect_eq)
  qed
  then show ?thesis using assms unfolding kernel_words_def by blast
qed

lemma pushed_entry:
  assumes "a \<notin> entry_bytes sp"
  shows "pushed m sp [v1, v2, v3, v4, v5] a = m a"
proof -
  have "8 \<le> a - (sp - d)" if "d \<in> {8, 16, 24, 32, 40}" for d
  proof -
    define e where "e = a - (sp - 40)"
    have e: "80 \<le> e" using assms by (simp add: entry_bytes_def e_def not_less)
    have eq: "a - (sp - d) = e - (40 - d)" by (simp add: e_def)
    have le: "40 - d \<le> e" "unat (40 - d) \<le> 32" using e that by (auto simp: word_le_nat_alt)
    show ?thesis unfolding eq using e le(2) unat_sub [OF le(1)] by (simp add: word_le_nat_alt)
  qed
  then show ?thesis by (simp add: store64_far)
qed

subsection \<open>An example\<close>

text \<open>The program of \<open>exec_sample\<close> calls exec; the stacks of the kernel are those below 0xffffffff80608000.\<close>

definition exec_gdt :: gdt_state where
  "exec_gdt = sample_gdt\<lparr>interrupt_stack := 0xffffffff80600000\<rparr>"

definition exec_cpu :: cpu where
  "exec_cpu = sample_cpu\<lparr>regs := (\<lambda>_. 0)(RDI := 3, RSI := 0x400000, RSP := 0x400010)\<rparr>"

definition exec_leftovers :: leftovers where
  "exec_leftovers = sample_leftovers\<lparr>in_entry := \<lambda>_. 0xffffffff80607000\<rparr>"

lemma exec_gdt_ok: "tss_apart exec_gdt" "gdt_size exec_gdt = 0" "kernel_top exec_gdt = 0xffffffff80607FF0"
  using sample_tss_apart by (simp_all add: exec_gdt_def tss_apart_def sample_gdt_def kernel_top_def)

lemma exec_kernel_words: "kernel_words (kernel_top exec_gdt) 7"
proof -
  have "high (0xffffffff80607FB8 + of_nat k)" if "k < 56" for k
    using that by (simp add: high_def word_le_nat_alt unat_word_ariths unat_of_nat)
  then show ?thesis by (simp add: exec_gdt_ok kernel_words_def)
qed

lemma below_far:
  fixes a b :: u64
  assumes "a < b" "b \<le> - 8"
  shows "8 \<le> a - b"
proof (rule ccontr)
  define e where "e = a - b"
  assume "\<not> 8 \<le> a - b"
  then have e: "unat e < 8" by (simp add: e_def word_less_nat_alt not_le)
  have "unat b \<le> 2 ^ 64 - 8" using assms(2) by (simp add: word_le_nat_alt)
  then have "unat (b + e) = unat b + unat e" using e unat_add_lem [of b e] by simp
  moreover have "b + e = a" by (simp add: e_def)
  ultimately show False using assms(1) by (simp add: word_less_nat_alt)
qed

lemma view_uload8: "view s x = Some (b, r) \<Longrightarrow> may_user r \<Longrightarrow> uload8 s x = Inr b"
  by (auto simp: view_def uload8_def uresolve_def split: if_splits)

lemma exec_calls_below:
  assumes "a < 0xffffffff80607F00"
  shows "mem (machine (in_handler exec_gdt ra back_at a5 c w)) a = mem (machine w) a"
proof -
  have "8 \<le> a - b" if "0xffffffff80607F00 \<le> b" "b \<le> - 8" for b
    by (rule below_far [OF less_le_trans [OF assms that(1)] that(2)])
  then show ?thesis by (simp add: in_handler_def with_kernel_def exec_gdt_ok store64_far)
qed

lemma exec_area:
  assumes "a \<in> exec_bytes file_mem (mods exec_links) [([0x61], 0xffffffff80200000)] [0x61] \<union> entry_bytes 0xffffffff80607000 \<union> copy_bytes (copy exec_links)"
  shows "a \<in> kernel_area" "a < 0xffffffff80607F00"
proof -
  have "0xffffffff80000000 \<le> a \<and> a < 0xffffffff80607F00"
    using assms
  proof (elim UnE)
    assume "a \<in> exec_bytes file_mem (mods exec_links) [([0x61], 0xffffffff80200000)] [0x61]"
    then show ?thesis using file_windows [of a] order_trans [of "0xffffffff80000000" "0xffffffff80100000" a]
        less_trans [of a "0xffffffff80201000" "0xffffffff80607F00"] by simp
  next
    assume "a \<in> entry_bytes 0xffffffff80607000"
    then show ?thesis using window_within [of a "0xffffffff80606FD8" 80 "0xffffffff80000000" "0xffffffff80607F00"] by (simp add: entry_bytes_def)
  next
    assume "a \<in> copy_bytes (copy exec_links)"
    then show ?thesis using window_within [of a "0xffffffff80300000" 20 "0xffffffff80000000" "0xffffffff80607F00"]
      by (simp add: copy_bytes_def exec_links_def)
  qed
  then show "a \<in> kernel_area" "a < 0xffffffff80607F00" by (simp_all add: kernel_area_def)
qed

lemma exec_apart:
  "(exec_bytes file_mem (mods exec_links) [([0x61], 0xffffffff80200000)] [0x61] \<union> entry_bytes 0xffffffff80607000) \<inter> copy_bytes (copy exec_links) = {}"
proof -
  have False if "a \<in> entry_bytes 0xffffffff80607000" "a \<in> copy_bytes (copy exec_links)" for a
  proof -
    have "0xffffffff80606FD8 \<le> a" using window_bounds(1) [of a "0xffffffff80606FD8" 80] that(1) by (simp add: entry_bytes_def)
    moreover have "a < 0xffffffff80300014" using window_bounds(2) [of a "0xffffffff80300000" 20] that(2) by (simp add: copy_bytes_def exec_links_def)
    ultimately have "(0xffffffff80606FD8 :: u64) < 0xffffffff80300014" by (rule le_less_trans)
    then show False by simp
  qed
  then show ?thesis using file_apart by blast
qed

subsection \<open>Property\<close>

text \<open>
  C5: a program that calls exec on a module's name makes way for the program of the module: its software
  interrupt ends, in ring 3 and with interrupts as they were, at the entry point that the module's ELF
  header gives, with the stack pointer at the top of the new stack, and the memory that a program can see is
  the one the module's ELF file describes, for the files that C4 covers (\<open>loadable\<close>): \<open>p_filesz\<close> bytes of the
  file and then zeros in each segment's pages, the stack and the two test pages. Its first two argument registers are R8 and R9 as the
  kernel left them, and so is every register but the other arguments and the stack pointer.
\<close>

theorem exec_call_runs_program:
  assumes "w1 = in_handler t ra back_at a5 c w" and "tss_apart t" "gdt_size t = 0" "in_program c" "kernel_words (kernel_top t) 7"
    and "regs c RDI = 3" "uload 8 (machine w) (regs c RSP + 8) = Inr a5"
    and "intact (exec_bytes m (mods lk) ms name \<union> entry_bytes (in_entry lo RSP) \<union> copy_bytes (copy lk)) m (machine w1) ps"
    and "(exec_bytes m (mods lk) ms name \<union> entry_bytes (in_entry lo RSP)) \<inter> copy_bytes (copy lk) = {}"
    and "page_aligned (cr3 (machine w1))" "modules_in m (mods lk) ms"
    and "user_string (view (machine w1)) (regs c RSI) name" "length name \<le> 18" "exec_frames m ms name \<le> length ps"
    and "map_of ms name = Some ehdr" "loadable (cr0_wp (machine w1)) m ehdr"
    and "canonical (e_entry (ehdr_in m ehdr))"
  shows "\<exists>c' w'. syscall (set_up t addr base) lo lk (addr Syscall_entry) back_at ra c w = Inr (Away c' w')
    \<and> starts c' (in_entry lo) 0x70000003FF8 (e_entry (ehdr_in m ehdr)) \<and> bit (rflags c') 9 = bit (rflags c) 9
    \<and> view (machine w') = elf_view m ehdr \<and> kept (machine w1) (machine w')"
proof -
  let ?A = "exec_bytes m (mods lk) ms name \<union> entry_bytes (in_entry lo RSP)"
  note h = assms(2-)
  have "exec_spec (cr0_wp (machine w1)) m ms name (view (machine w1)) = Some (EnterUser 0x43 0x70000003FF8 0x3B (e_entry (ehdr_in m ehdr)), elf_view m ehdr)"
    using h(14,15) by (simp add: exec_spec_def)
  from exec_call_refines [OF h(7,8) Un_upper1 h(9-13) this, of "regs c RDX" "regs c RCX"] obtain s' qs where
    s': "syscall_handler lk 3 (regs c RSI) (regs c RDX) (regs c RCX) w1
      = Inr (EnterUser 0x43 0x70000003FF8 0x3B (e_entry (ehdr_in m ehdr)), w1\<lparr>machine := s'\<rparr>)"
      "view s' = elf_view m ehdr" "intact ?A m s' qs" "kept (machine w1) s'" by blast
  have words: "kernel_words (in_entry lo RSP + 40) 10"
    by (rule entry_bytes_words) (use s'(3) in \<open>auto simp: intact_def foreign_def\<close>)
  from syscall_starts [OF h(1-4,16,6) words, where lk = lk and ra = ra and back_at = back_at
      and sp = "0x70000003FF8" and w' = "w1\<lparr>machine := s'\<rparr>" and addr = addr and base = base] s'(1) h(5)
  obtain c' where c': "syscall (set_up t addr base) lo lk (addr Syscall_entry) back_at ra c w
      = Inr (Away c' (with_kernel (s'\<lparr>mem := pushed (mem s') (in_entry lo RSP)
          [0x43, 0x70000003FF8, rflags c', 0x3B, e_entry (ehdr_in m ehdr)]\<rparr>) (w1\<lparr>machine := s'\<rparr>)))"
    "starts c' (in_entry lo) 0x70000003FF8 (e_entry (ehdr_in m ehdr))" "bit (rflags c') 9 = bit (rflags c) 9"
    by (auto simp: assms(1) simp del: pushed.simps)
  have "view (s'\<lparr>mem := pushed (mem s') (in_entry lo RSP) [0x43, 0x70000003FF8, rflags c', 0x3B, e_entry (ehdr_in m ehdr)]\<rparr>) = view s'"
    by (rule intact_written(2) [OF s'(3)]) (rule pushed_entry, simp)
  then show ?thesis using c' s'(2,4) by (intro exI conjI) (assumption | simp add: with_kernel_def del: pushed.simps)+
qed

lemma exec_call_runs_program_witness:
  "\<exists>w c' w'. syscall (set_up exec_gdt (\<lambda>_. 0xffffffff80201000) 0xffffffff80300000) exec_leftovers exec_links 0xffffffff80201000
       0xffffffff80201010 0x400100 exec_cpu w = Inr (Away c' w')
     \<and> view (machine w) 0x500000004 = None
     \<and> rip c' = 0x500000004 \<and> cpl c' = 3 \<and> regs c' RSP = 0x70000003FF8
     \<and> view (machine w') 0x500000004 = Some (0xCD, \<lparr>may_user = True, may_write = False, may_exec = True\<rparr>)
     \<and> view (machine w') 0x500000800 = Some (0, \<lparr>may_user = True, may_write = False, may_exec = True\<rparr>)"
proof -
  let ?ms = "[([0x61 :: u8], 0xffffffff80200000 :: u64)]"
  obtain s qs where s: "intact kernel_area file_mem s qs" "cr3 s = 0x1000" "user_string (view s) 0x400000 [0x61]"
    "exec_frames file_mem ?ms [0x61] \<le> length qs" "view s 0x500000004 = None"
    "\<And>x. drop_bit 12 x = 0x400 \<Longrightarrow> 1 \<le> x - 0x400000 \<Longrightarrow> view s x = Some (0, \<lparr>may_user = True, may_write = True, may_exec = True\<rparr>)"
    by (rule exec_sample) blast
  let ?w = "sample_world\<lparr>machine := s\<rparr>"
  let ?w1 = "in_handler exec_gdt 0x400100 0xffffffff80201010 0 exec_cpu ?w"
  define m1 where "m1 = mem (machine ?w1)"
  have w1: "machine ?w1 = s\<lparr>mem := m1\<rparr>" by (simp add: m1_def in_handler_def with_kernel_def)
  have outside: "m1 a = mem s a" if "a < 0xffffffff80607F00" for a using exec_calls_below [OF that] by (simp add: m1_def)
  have away: "m1 a = mem s a" if "a \<notin> kernel_area" for a
    by (rule outside) (use that in \<open>auto simp: kernel_area_def not_le intro: less_trans\<close>)
  note written = intact_written [OF s(1) away, folded w1]
  have k: "intact (exec_bytes file_mem (mods exec_links) ?ms [0x61] \<union> entry_bytes (in_entry exec_leftovers RSP) \<union> copy_bytes (copy exec_links))
      file_mem (machine ?w1) qs"
    by (rule intact_weaken [OF written(1)])
      (use exec_area s(1) outside in \<open>auto simp: exec_leftovers_def intact_def\<close>)
  have u: "uload8 s x = Inr 0" if "drop_bit 12 x = 0x400" "1 \<le> x - 0x400000" for x
    using view_uload8 [OF s(6) [OF that]] by simp
  have ul: "uload 8 (machine ?w) (regs exec_cpu RSP + 8) = Inr 0"
    by (simp add: exec_cpu_def uload_pos u drop_bit_eq_div)
  have c: "in_program exec_cpu" "regs exec_cpu RDI = 3" "regs exec_cpu RSI = 0x400000"
    using sample_regs(1) by (simp_all add: exec_cpu_def in_program_def)
  have rest: "page_aligned (cr3 (machine ?w1))" "modules_in file_mem (mods exec_links) ?ms"
    "user_string (view (machine ?w1)) (regs exec_cpu RSI) [0x61]" "length [0x61 :: u8] \<le> 18" "map_of ?ms [0x61] = Some 0xffffffff80200000"
    "canonical (e_entry (ehdr_in file_mem 0xffffffff80200000))"
    using file_modules s(2,3) written(2) c(3) by (simp_all add: w1 exec_links_def file_ehdr canonical_def page_aligned_def take_bit_eq_mod)
  have apart: "(exec_bytes file_mem (mods exec_links) ?ms [0x61] \<union> entry_bytes (in_entry exec_leftovers RSP)) \<inter> copy_bytes (copy exec_links) = {}"
    using exec_apart by (simp add: exec_leftovers_def)
  from exec_call_runs_program [OF refl exec_gdt_ok(1,2) c(1) exec_kernel_words c(2) ul k apart rest(1-4) s(4) rest(5) file_loadable rest(6),
      of "\<lambda>_. 0xffffffff80201000" "0xffffffff80300000"]
  show ?thesis using file_view s(5) by (intro exI [of _ ?w]) (auto simp: starts_def file_ehdr cpl_def)
qed

end
