(* ===== verification/Spec2Isabelle.thy ===== *)
theory Spec2Isabelle
  imports Teardown Kprint Pic MyString Gdt Irq Idt Exceptions Boot Sysio Loader Syscall Addrspace Malloc Debug Myio
    User_Calls Debug_Command Symbols Startup Shell Exec_Entry
begin

text \<open>
  A verification of the kernel under \<open>kernel/\<close>, of the C library under \<open>stdlib/\<close> and of the programs built on it.

  The program. The bootloader starts \<open>_start\<close> of \<open>kernel/boot.c\<close> with a list of tags. The kernel builds
  its list of free pages from the memory map (\<open>init_list\<close>), sets up the screen, the descriptor and
  interrupt tables and the interrupt controllers, and starts the module \<open>init\<close> as a user program
  (\<open>execute_mod\<close>). From then on it runs in interrupts: a key goes from \<open>irq1_handler\<close> into a ring buffer,
  from which \<open>kgetc\<close> takes it; a program calls \<open>syscall_handler\<close> to read, write, get memory and execute
  another program; an exception prints a report and halts, or enters the debugger. Programs use the C
  library, whose \<open>printf\<close>, \<open>getline\<close> and \<open>malloc\<close> are built on the system calls; \<open>init\<close> executes the shell,
  which reads lines and executes the program they name.

  The state. \<open>kstate\<close> (theory \<open>Kmem\<close>) is the machine as the memory code sees it: the bytes of memory by
  their address in the direct map, \<open>cr3\<close>, the free list, the direct-map offset, the virtual heap pointer
  and the TLB operations issued. \<open>term_t\<close> (\<open>Term\<close>) is the screen, \<open>kbd_t\<close> (\<open>Pic\<close>) the keyboard buffer,
  \<open>gdt_state\<close> (\<open>Gdt\<close>) the descriptor tables, \<open>port_log\<close> (\<open>Port\<close>) the bytes written to the ports;
  \<open>world\<close> (\<open>Sysio\<close>) puts machine, screen and keyboard together, and \<open>system\<close> (\<open>Startup\<close>) a world with the
  tables and the globals of the kernel. A routine that can fail returns
  \<open>fault + 'a\<close>: a page fault, a general protection fault, \<open>halt()\<close>, waiting for a key that has not come,
  or behaviour that C leaves undefined. Integers have the width of the code; a C \<open>int\<close> that counts is a
  natural number with an explicit check at \<open>2 ^ 31 - 1\<close>.

  The theories, in the order they build on each other:

  \<^item> \<open>Prelude\<close>: word types, faults and their composition, eight-byte accesses, page alignment.
  \<^item> \<open>Libmem\<close>, \<open>Pte\<close>, \<open>Kmem\<close>, \<open>Kaccess\<close>: \<open>memset\<close> and \<open>memcpy\<close> of \<open>stdlib/mem.c\<close>; the layout of a page
    table entry (\<open>struct pte\<close>); the machine state, the processor's page walk (\<open>walk\<close>, with the rights of
    all levels) and accesses of the kernel by virtual address (\<open>kresolve\<close>, \<open>kload\<close>, \<open>kstore\<close>).
  \<^item> \<open>Pmem\<close>: \<open>pmem_alloc\<close> and \<open>pmem_free\<close> of \<open>kernel/paging.c\<close>. \<open>pool s ps\<close> says that the linked list in
    memory is the list \<open>ps\<close> of frames; the locale \<open>page_pool\<close> is what its clients rely on.
  \<^item> \<open>Vmap\<close>: \<open>vm_map\<close>, \<open>vm_unmap\<close>, \<open>vm_protect\<close>, \<open>translate\<close>, \<open>unmap_lower_half\<close>. \<open>Space\<close>: the
    invariant \<open>space_ok s root ps\<close>, a tree of tables with distinct frames beside the pool, and
    \<open>walk_lookup\<close>, which reduces the processor's walk to one entry. \<open>Vmap_Tree\<close>, \<open>Vmap_Correct\<close>: the effect
    of one entry written on the tree, and of the three operations. \<open>Paging_Props\<close>: C1,
    C3, C9, C25, C29 and C32.
  \<^item> \<open>Teardown\<close>: which tables \<open>unmap_lower_half\<close> gives back (C10).
  \<^item> \<open>Port\<close>, \<open>Term\<close>: \<open>kernel/port.h\<close> and \<open>kernel/term.c\<close>; the screen refines a text of rows (C11, C12).
  \<^item> \<open>Pic\<close>: the keyboard ring of \<open>kernel/pic.c\<close> as a bounded queue (locale \<open>char_queue\<close>), and as a step
    relation in which the interrupt comes at any point of \<open>kgetc\<close>; the interrupt controllers (C14 to C17).
  \<^item> \<open>Kprint\<close>: \<open>kernel/kprint.c\<close>, over any way to put a character, against a reading of formats (C21, C22).
  \<^item> \<open>MyString\<close>: \<open>stdlib/mystring.c\<close> (C26). \<open>Gdt\<close>: \<open>kernel/gdt.c\<close> as bytes the processor reads (C27).
  \<^item> \<open>Irq\<close>, \<open>Idt\<close>, \<open>Exceptions\<close>: the keyboard interrupt, the interrupt descriptor table and the exception
    handlers of \<open>kernel/idt.c\<close> (C28, C30, C31).
  \<^item> \<open>Boot\<close>: the tags, \<open>init_list\<close> and the reports of \<open>kernel/boot.c\<close> (C18, C33).
  \<^item> \<open>Sysio\<close>: \<open>syscall_read\<close> and \<open>syscall_write\<close> (C34, C35).
  \<^item> \<open>Proc\<close>, \<open>Loader\<close>: \<open>kernel/proc.c\<close> and the loading of a segment into a fresh page.
  \<^item> \<open>Syscall\<close>: \<open>syscall_handler\<close>. \<open>Userheap\<close>: its \<open>mmap\<close> call on a well-formed address space.
  \<^item> \<open>Addrspace\<close>: any sequence of the operations on an address space (C23).
  \<^item> \<open>Malloc\<close>: \<open>malloc\<close> of \<open>stdlib/mem.c\<close> over the locale \<open>page_source\<close>, interpreted on the kernel's call
    (C37, C38).
  \<^item> \<open>View\<close>: memory as a program sees it, address by address (\<open>view\<close>), and \<open>vm_map\<close>, \<open>memcpy\<close> and
    \<open>vm_protect\<close> as updates of it; \<open>intact\<close> is a well-formed address space with bytes of the kernel beside it.
  \<^item> \<open>Calls\<close>, \<open>User_Calls\<close>: what the system calls other than exec and exit keep, and the type of what they
    return, when their pointers lead to the user half (C2).
  \<^item> \<open>Execute\<close>, \<open>Elf_Image\<close>, \<open>Exec_Call\<close>: the headers of \<open>kernel/elf.h\<close>, what the chunks of \<open>execute_mod\<close> do to
    memory (\<open>program_view\<close>) and which segments it cannot load (C36); what an ELF file describes (\<open>elf_view\<close>:
    \<open>p_filesz\<close> bytes of the file and then zeros, where the code copies \<open>p_memsz\<close> bytes) and which files are loaded like
    that (\<open>loadable\<close>); the exec call from the name in the caller's memory to user mode refines
    \<open>exec_spec\<close> (C4). The frames it needs are at most four for each chunk of 2048 bytes and 24 for the stack and
    the test pages (\<open>program_frames\<close>).
  \<^item> \<open>Debug\<close>, \<open>Debug_Command\<close>: the debugger of \<open>kernel/debug.c\<close>, its addresses (C39) and a session of lines
    typed ahead (C7). \<open>Symbols\<close>: its symbol tables (C24).
  \<^item> \<open>Myio\<close>: \<open>stdlib/myio.c\<close> (C40).
  \<^item> \<open>Startup\<close>: \<open>_start\<close> of \<open>kernel/boot.c\<close> as one run over all of the components (C19, C20).
  \<^item> \<open>Entry\<close>, \<open>Entry_Props\<close>: \<open>syscall.s\<close>, \<open>kernel/syscall_entry.s\<close> and \<open>kernel/usermode_entry.s\<close> as lists of
    instructions with an interpreter: the software interrupt through the gate to \<open>syscall_handler\<close> and back (C6),
    with a pointer into the kernel as well (C8), and the start of a program. \<open>Exec_Entry\<close>: the exec call from the
    interrupt to the first instruction of the new program (C5).
  \<^item> \<open>Programs\<close>, \<open>Shell\<close>: \<open>stdlib/sys.c\<close>, \<open>init\<close>, \<open>shell\<close>, \<open>echo\<close>, \<open>hello\<close> and \<open>test\<close>; a round of the shell
    from the prompt to the program it starts or the message that there is none (C13).

  Loops. A loop with a counter is recursion on what is left of it, or \<open>foldf\<close> over its indices; \<open>strlen\<close>
  and its like stop at \<open>2 ^ 31 - 1\<close>, where the counter of the code overflows; a loop that waits for keys
  decreases the number of keys waiting, and is \<open>Blocked\<close> without one. The loops over the levels of the
  page tables run four times, once for each level. The loop of the shell takes at
  least one key a round. Only \<open>find_tag\<close>, the loop of \<open>init_tables\<close> over the section headers and the
  \<open>_start\<close> that calls the first may run forever; these loops are \<open>partial_function\<close>s whose value is then
  \<open>None\<close>; C18 and the lemma \<open>sections_loop_returns\<close> say when, and C19 that the boot does not.

  Hypotheses on what is not in the code: \<open>space_ok\<close> for an address space that programs run in (the one that
  the bootloader leaves is unmapped without it, C19), \<open>boot_info\<close> for the
  tags and the identity mapping while \<open>init_list\<close> runs, a device that answers reads from the ports, the
  addresses of handlers, literals and stack variables that the linker and the compiler choose, and, for the assembly, a
  kernel stack in the higher half and the values that compiled C code leaves in the registers it may change.

  Limits of the state. The variables of the kernel (the keyboard ring, the screen, the free list's head, the
  heap pointer, the descriptor tables) are fields of their own, not bytes of memory, and pages of the
  higher half count as mapped and writable to the kernel (\<open>kresolve\<close>). A store through a kernel pointer that a program
  chose could change the former and a page that is not mapped there would fault, so C2 is about pointers
  into the user half, and C8 about a buffer in pages that are mapped.

  Not modelled. The text that \<open>translate\<close> prints on its way, of which the model returns the addresses; the machine code of the C functions: the assembly calls their models; \<open>halt()\<close> beyond its not returning; the interrupts during the
  system calls, apart from the keyboard interrupt inside \<open>kgetc\<close>; the TLB beyond the log of invalidations;
  the loading of the programs' own text by the processor: a program is the model of its source over the
  system calls, with the addresses of its variables as parameters; \<open>kernel/stivale2.h\<close>, a third-party
  header, beyond the structures that are read or filled in; the build files.
\<close>

end
